(* ===== verification/Mazze_Prelude.thy ===== *)
theory Mazze_Prelude
  imports Main "HOL-Library.Monad_Syntax"
begin

text \<open>
  Shared vocabulary of the development.

  Machine integers are natural numbers together with checked operations at an explicit width:
  the source's \<^verbatim>\<open>U256\<close> (and \<^verbatim>\<open>u64\<close>, \<^verbatim>\<open>u32\<close> in a build with overflow checks) panics on
  overflow and underflow, so the operators that may panic return an \<open>option\<close> whose
  \<open>None\<close> is the panic, and the saturating operators clamp. The collections
  \<open>checked\<close> and \<open>treap_simps\<close> carry the facts the component proofs share.
\<close>

named_theorems checked
named_theorems treap_simps

type_synonym u256 = nat
type_synonym u64 = nat
type_synonym u32 = nat

abbreviation u256_max :: nat where
  "u256_max \<equiv> 2 ^ 256 - 1"

abbreviation u128_max :: nat where
  "u128_max \<equiv> 2 ^ 128 - 1"

abbreviation u64_max :: nat where
  "u64_max \<equiv> 2 ^ 64 - 1"

abbreviation u32_max :: nat where
  "u32_max \<equiv> 2 ^ 32 - 1"

section \<open>Checked arithmetic\<close>

definition cadd :: "nat \<Rightarrow> nat \<Rightarrow> nat \<Rightarrow> nat option" where
  "cadd w a b = (if a + b < 2 ^ w then Some (a + b) else None)"

definition csub :: "nat \<Rightarrow> nat \<Rightarrow> nat option" where
  "csub a b = (if b \<le> a then Some (a - b) else None)"

definition cmul :: "nat \<Rightarrow> nat \<Rightarrow> nat \<Rightarrow> nat option" where
  "cmul w a b = (if a * b < 2 ^ w then Some (a * b) else None)"

definition cdiv :: "nat \<Rightarrow> nat \<Rightarrow> nat option" where
  "cdiv a b = (if b = 0 then None else Some (a div b))"

definition sat_add :: "nat \<Rightarrow> nat \<Rightarrow> nat \<Rightarrow> nat" where
  "sat_add w a b = min (a + b) (2 ^ w - 1)"

definition sat_mul :: "nat \<Rightarrow> nat \<Rightarrow> nat \<Rightarrow> nat" where
  "sat_mul w a b = min (a * b) (2 ^ w - 1)"

definition assert_that :: "bool \<Rightarrow> unit option" where
  "assert_that b = (if b then Some () else None)"

lemma cadd_eq_Some [simp, checked]: "cadd w a b = Some c \<longleftrightarrow> c = a + b \<and> a + b < 2 ^ w"
  by (auto simp: cadd_def)

lemma cadd_eq_None [simp, checked]: "cadd w a b = None \<longleftrightarrow> 2 ^ w \<le> a + b"
  by (auto simp: cadd_def)

lemma csub_eq_Some [simp, checked]: "csub a b = Some c \<longleftrightarrow> c = a - b \<and> b \<le> a"
  by (auto simp: csub_def)

lemma csub_eq_None [simp, checked]: "csub a b = None \<longleftrightarrow> a < b"
  by (auto simp: csub_def)

lemma cmul_eq_Some [simp, checked]: "cmul w a b = Some c \<longleftrightarrow> c = a * b \<and> a * b < 2 ^ w"
  by (auto simp: cmul_def)

lemma cdiv_eq_Some [simp, checked]: "cdiv a b = Some c \<longleftrightarrow> c = a div b \<and> b \<noteq> 0"
  by (auto simp: cdiv_def)

lemma assert_that_eq_Some [simp, checked]: "assert_that b = Some u \<longleftrightarrow> b"
  by (auto simp: assert_that_def)

section \<open>Sorted lists\<close>

lemma sorted_wrt_mid:
  "sorted_wrt P (xs @ y # zs) \<longleftrightarrow>
     sorted_wrt P xs \<and> sorted_wrt P zs \<and> (\<forall>x\<in>set xs. P x y) \<and> (\<forall>z\<in>set zs. P y z) \<and>
     (\<forall>x\<in>set xs. \<forall>z\<in>set zs. P x z)"
  by (auto simp: sorted_wrt_append)

end
