(* ===== verification/Treap_Node.thy ===== *)
theory Treap_Node
  imports Mazze_Prelude
begin

text \<open>
  The randomised search tree of \<^verbatim>\<open>crates/util/treap-map\<close>: the configuration trait
  (\<^verbatim>\<open>config.rs\<close>), the node operations (\<^verbatim>\<open>node.rs\<close>) and the three node updaters
  (\<^verbatim>\<open>update.rs\<close>). A configuration is a record of the trait's functions. A node is its public
  part (an \<open>entry\<close>: the fields a client closure may write) together with the fields
  private to the crate, and \<^verbatim>\<open>Option<Box<Node>>\<close> is the tree with \<open>Empty\<close> for \<^verbatim>\<open>None\<close>.

  The lemmas show that \<open>update_inner\<close> keeps the consistency condition of
  \<^verbatim>\<open>assert_consistency\<close> (search order, priority order, accumulated weights) and acts on the
  in-order sequence of entries exactly at the position of the key.
\<close>

section \<open>Configuration and nodes\<close>

datatype direction = Left | Right

record ('k, 's, 'v, 'w, 'x) treap_config =
  next_node_dir :: "'s \<times> 'k \<Rightarrow> 's \<times> 'k \<Rightarrow> direction option"
  weight_empty :: 'w
  consolidate :: "'w \<Rightarrow> 'w \<Rightarrow> 'w"
  accure :: "'w \<Rightarrow> 'w \<Rightarrow> 'w"
  ext_default :: 'x
  view_update :: "'x \<Rightarrow> 'k \<Rightarrow> 'v option \<Rightarrow> 'v option \<Rightarrow> 'x"
  ext_len :: "'x \<Rightarrow> nat"
  get_sort_key :: "'x \<Rightarrow> 'k \<Rightarrow> 's option"
  make_sort_key :: "'x \<Rightarrow> 'k \<Rightarrow> 'v \<Rightarrow> 's"

record ('k, 's, 'v, 'w) entry =
  e_key :: 'k
  e_val :: 'v
  e_sort :: 's
  e_weight :: 'w

datatype ('k, 's, 'v, 'w) tree =
    Empty
  | Node (n_entry: "('k, 's, 'v, 'w) entry") (n_sum: 'w) (n_priority: u64)
      (n_left: "('k, 's, 'v, 'w) tree") (n_right: "('k, 's, 'v, 'w) tree")

definition skey :: "('k, 's, 'v, 'w) entry \<Rightarrow> 's \<times> 'k" where
  "skey e = (e_sort e, e_key e)"

definition node_new :: "'k \<Rightarrow> 'v \<Rightarrow> 's \<Rightarrow> 'w \<Rightarrow> u64 \<Rightarrow> ('k, 's, 'v, 'w) tree" where
  "node_new k v s w p =
     Node \<lparr>e_key = k, e_val = v, e_sort = s, e_weight = w\<rparr> w p Empty Empty"

fun node_get :: "('k, 's, 'v, 'w, 'x) treap_config \<Rightarrow> ('k, 's, 'v, 'w) tree \<Rightarrow> 's \<Rightarrow> 'k \<Rightarrow> 'v option" where
  "node_get C Empty s k = None"
| "node_get C (Node e w p l r) s k =
     (case next_node_dir C (s, k) (skey e) of
        None \<Rightarrow> Some (e_val e)
      | Some Left \<Rightarrow> node_get C l s k
      | Some Right \<Rightarrow> node_get C r s k)"

section \<open>Weights and rotations\<close>

definition accure_child :: "('k, 's, 'v, 'w, 'x) treap_config \<Rightarrow> 'w \<Rightarrow> ('k, 's, 'v, 'w) tree \<Rightarrow> 'w" where
  "accure_child C w t = (case t of Empty \<Rightarrow> w | Node _ s _ _ _ \<Rightarrow> accure C w s)"

fun update_weight :: "('k, 's, 'v, 'w, 'x) treap_config \<Rightarrow> ('k, 's, 'v, 'w) tree \<Rightarrow> ('k, 's, 'v, 'w) tree" where
  "update_weight C Empty = Empty"
| "update_weight C (Node e s p l r) =
     Node e (accure_child C (accure_child C (e_weight e) l) r) p l r"

fun right_rotate :: "('k, 's, 'v, 'w, 'x) treap_config \<Rightarrow> ('k, 's, 'v, 'w) tree \<Rightarrow> ('k, 's, 'v, 'w) tree" where
  "right_rotate C (Node ye ys yp (Node xe xs xp a b) c) =
     update_weight C (Node xe xs xp a (update_weight C (Node ye ys yp b c)))"
| "right_rotate C t = t"

fun left_rotate :: "('k, 's, 'v, 'w, 'x) treap_config \<Rightarrow> ('k, 's, 'v, 'w) tree \<Rightarrow> ('k, 's, 'v, 'w) tree" where
  "left_rotate C (Node xe xs xp a (Node ye ys yp b c)) =
     update_weight C (Node ye ys yp (update_weight C (Node xe xs xp a b)) c)"
| "left_rotate C t = t"

fun priority_less :: "('k, 's, 'v, 'w) tree \<Rightarrow> ('k, 's, 'v, 'w) tree \<Rightarrow> bool" where
  "priority_less (Node _ _ p _ _) (Node _ _ q _ _) = (p < q)"
| "priority_less _ _ = False"

fun next_root :: "('k, 's, 'v, 'w) tree \<Rightarrow> ('k, 's, 'v, 'w) tree \<Rightarrow> direction option" where
  "next_root Empty Empty = None"
| "next_root Empty (Node _ _ _ _ _) = Some Right"
| "next_root (Node _ _ _ _ _) Empty = Some Left"
| "next_root (Node _ _ p _ _) (Node _ _ q _ _) = (if p < q then Some Right else Some Left)"

fun tsize :: "('k, 's, 'v, 'w) tree \<Rightarrow> nat" where
  "tsize Empty = 0"
| "tsize (Node _ _ _ l r) = Suc (tsize l + tsize r)"

lemma tsize_update_weight [simp]: "tsize (update_weight C t) = tsize t"
  by (cases t) auto

lemma tsize_left_of_left_rotate:
  "r \<noteq> Empty \<Longrightarrow> tsize (n_left (left_rotate C (Node e s p l r))) < Suc (tsize l + tsize r)"
  by (cases r) auto

lemma tsize_right_of_right_rotate:
  "l \<noteq> Empty \<Longrightarrow> tsize (n_right (right_rotate C (Node e s p l r))) < Suc (tsize l + tsize r)"
  by (cases l) auto

lemma next_root_Some_Right: "next_root l r = Some Right \<Longrightarrow> r \<noteq> Empty"
  by (cases "(l, r)" rule: next_root.cases) auto

lemma next_root_Some_Left: "next_root l r = Some Left \<Longrightarrow> l \<noteq> Empty"
  by (cases "(l, r)" rule: next_root.cases) (auto split: if_splits)

text \<open>
  \<open>node_delete\<close> rotates the root down to a leaf and cuts it off; it returns the remaining tree
  and the detached node. The source calls it on \<^verbatim>\<open>Some\<close> only.
\<close>

function node_delete :: "('k, 's, 'v, 'w, 'x) treap_config \<Rightarrow> ('k, 's, 'v, 'w) tree \<Rightarrow>
    ('k, 's, 'v, 'w) tree \<times> ('k, 's, 'v, 'w) tree" where
  "node_delete C Empty = (Empty, Empty)"
| "node_delete C (Node e s p l r) =
     (case next_root l r of
        None \<Rightarrow> (Empty, Node e s p l r)
      | Some Right \<Rightarrow>
          (let t = left_rotate C (Node e s p l r); (l', d) = node_delete C (n_left t)
           in (update_weight C (Node (n_entry t) (n_sum t) (n_priority t) l' (n_right t)), d))
      | Some Left \<Rightarrow>
          (let t = right_rotate C (Node e s p l r); (r', d) = node_delete C (n_right t)
           in (update_weight C (Node (n_entry t) (n_sum t) (n_priority t) (n_left t) r'), d)))"
  by pat_completeness auto
termination
  by (relation "measure (\<lambda>(C, t). tsize t)")
    (auto simp del: left_rotate.simps right_rotate.simps
      intro: tsize_left_of_left_rotate tsize_right_of_right_rotate
      dest!: next_root_Some_Right next_root_Some_Left)

section \<open>Updating a node by key\<close>

datatype ('k, 's, 'v, 'w, 'ret, 'dr) op_result =
    InsertOnVacant "('k, 's, 'v, 'w) tree" 'ret
  | Updated bool 'ret
  | Noop 'ret
  | Delete 'dr

record ('k, 's, 'v, 'w, 'y, 'ret, 'dr) updater =
  treap_key :: "'s \<times> 'k"
  update_node :: "'y \<Rightarrow> ('k, 's, 'v, 'w) entry option \<Rightarrow>
    ('k, 's, 'v, 'w) entry option \<times> 'y \<times> ('k, 's, 'v, 'w, 'ret, 'dr) op_result"
  handle_delete :: "('k, 's, 'v, 'w) tree option \<Rightarrow> 'dr \<Rightarrow> 'ret"

definition entry_of :: "('k, 's, 'v, 'w) tree \<Rightarrow> ('k, 's, 'v, 'w) entry option" where
  "entry_of t = (case t of Empty \<Rightarrow> None | Node e _ _ _ _ \<Rightarrow> Some e)"

text \<open>The in-place writes an updater makes through its \<^verbatim>\<open>&mut\<close> reference.\<close>

definition write_entry :: "('k, 's, 'v, 'w) tree \<Rightarrow> ('k, 's, 'v, 'w) entry option \<Rightarrow> ('k, 's, 'v, 'w) tree" where
  "write_entry t me =
     (case (t, me) of (Node _ s p l r, Some e) \<Rightarrow> Node e s p l r | _ \<Rightarrow> t)"

definition process_update_result ::
  "('k, 's, 'v, 'w, 'x) treap_config \<Rightarrow> ('k, 's, 'v, 'w, 'y, 'ret, 'dr) updater \<Rightarrow> ('k, 's, 'v, 'w) tree \<Rightarrow>
   ('k, 's, 'v, 'w, 'ret, 'dr) op_result \<Rightarrow> ('k, 's, 'v, 'w) tree \<times> 'ret \<times> bool \<times> bool" where
  "process_update_result C u t res =
     (case res of
        Noop ret \<Rightarrow> (t, ret, False, False)
      | Updated uw ret \<Rightarrow> (t, ret, uw, False)
      | InsertOnVacant n ret \<Rightarrow> (n, ret, True, True)
      | Delete dr \<Rightarrow>
          (let (t', deleted) = (if t \<noteq> Empty then map_prod id Some (node_delete C t) else (t, None))
           in (t', handle_delete u deleted dr, True, True)))"

text \<open>The repair of one ancestor after the recursive call came back through \<open>dir\<close>.\<close>

definition fix_node ::
  "('k, 's, 'v, 'w, 'x) treap_config \<Rightarrow> direction option \<Rightarrow> ('k, 's, 'v, 'w) tree \<Rightarrow> bool \<Rightarrow> bool \<Rightarrow>
   ('k, 's, 'v, 'w) tree \<times> bool" where
  "fix_node C dir t uw up =
     (if t = Empty then (t, up)
      else
        let t1 = (if uw then update_weight C t else t)
        in case (dir, up) of
             (Some Left, True) \<Rightarrow>
               (if priority_less t1 (n_left t1) then (right_rotate C t1, True) else (t1, False))
           | (Some Right, True) \<Rightarrow>
               (if priority_less t1 (n_right t1) then (left_rotate C t1, True) else (t1, False))
           | _ \<Rightarrow> (t1, up))"

fun update_inner ::
  "('k, 's, 'v, 'w, 'x) treap_config \<Rightarrow> ('k, 's, 'v, 'w, 'y, 'ret, 'dr) updater \<Rightarrow> 'y \<Rightarrow> ('k, 's, 'v, 'w) tree \<Rightarrow>
   ('k, 's, 'v, 'w) tree \<times> 'y \<times> 'ret \<times> bool \<times> bool" where
  "update_inner C u y Empty =
     (let (_, y', res) = update_node u y None;
          (t', ret, uw, up) = process_update_result C u Empty res;
          (t'', up') = fix_node C None t' uw up
      in (t'', y', ret, uw, up'))"
| "update_inner C u y (Node e s p l r) =
     (case next_node_dir C (treap_key u) (skey e) of
        None \<Rightarrow>
          (let (me, y', res) = update_node u y (Some e);
               (t', ret, uw, up) = process_update_result C u (write_entry (Node e s p l r) me) res;
               (t'', up') = fix_node C None t' uw up
           in (t'', y', ret, uw, up'))
      | Some Left \<Rightarrow>
          (let (l', y', ret, uw, up) = update_inner C u y l;
               (t'', up') = fix_node C (Some Left) (Node e s p l' r) uw up
           in (t'', y', ret, uw, up'))
      | Some Right \<Rightarrow>
          (let (r', y', ret, uw, up) = update_inner C u y r;
               (t'', up') = fix_node C (Some Right) (Node e s p l r') uw up
           in (t'', y', ret, uw, up')))"

section \<open>The three updaters\<close>

definition insert_op ::
  "('k, 's, 'v, 'w, 'x) treap_config \<Rightarrow> ('k, 's, 'v, 'w) tree \<Rightarrow>
   ('k, 's, 'v, 'w, 'x, 'v option, unit) updater" where
  "insert_op C n =
     (let e = n_entry n in
      \<lparr>treap_key = skey e,
       update_node = (\<lambda>x me.
         case me of
           Some old \<Rightarrow>
             (Some (old\<lparr>e_val := e_val e, e_weight := e_weight e\<rparr>),
              view_update C x (e_key e) (Some (e_val e)) (Some (e_val old)),
              Updated (e_weight old \<noteq> e_weight e) (Some (e_val old)))
         | None \<Rightarrow>
             (None, view_update C x (e_key e) (Some (e_val e)) None, InsertOnVacant n None)),
       handle_delete = (\<lambda>_ _. None)\<rparr>)"

definition remove_op ::
  "('k, 's, 'v, 'w, 'x) treap_config \<Rightarrow> 's \<times> 'k \<Rightarrow>
   ('k, 's, 'v, 'w, 'x, 'v option, unit) updater" where
  "remove_op C sk =
     \<lparr>treap_key = sk,
      update_node = (\<lambda>x me. (me, view_update C x (snd sk) None (map_option e_val me), Delete ())),
      handle_delete = (\<lambda>d _. map_option (\<lambda>n. e_val (n_entry n)) d)\<rparr>"

record 't apply_outcome =
  out :: 't
  update_weight_flag :: bool
  update_key :: bool
  delete_item :: bool

text \<open>
  The return value of \<^verbatim>\<open>ApplyOp\<close> is \<^verbatim>\<open>Result<(T, Option<Box<Node>>), E>\<close>; an outer \<open>None\<close>
  is the failing \<^verbatim>\<open>assert!\<close> on the key of an inserted node (or the \<^verbatim>\<open>unwrap\<close> in
  \<^verbatim>\<open>handle_delete\<close>). The state it threads is the external map and the random source.
\<close>

definition apply_op ::
  "('k, 's, 'v, 'w, 'x) treap_config \<Rightarrow> 's \<times> 'k \<Rightarrow>
   (('k, 's, 'v, 'w) entry \<Rightarrow> ('k, 's, 'v, 'w) entry \<times> ('err + 't apply_outcome)) \<Rightarrow>
   ('r \<Rightarrow> 'r \<times> ('err + ('k, 's, 'v, 'w) tree \<times> 't)) \<Rightarrow>
   ('k, 's, 'v, 'w, 'x \<times> 'r, ('err + 't \<times> ('k, 's, 'v, 'w) tree option) option, 't \<times> bool) updater" where
  "apply_op C sk upd ins =
     \<lparr>treap_key = sk,
      update_node = (\<lambda>(x, rng) me.
        case me of
          None \<Rightarrow>
            (case ins rng of
               (rng', Inl err) \<Rightarrow> (None, (x, rng'), Noop (Some (Inl err)))
             | (rng', Inr (n, ret)) \<Rightarrow>
                 (let x' = view_update C x (snd sk) (Some (e_val (n_entry n))) None in
                  if next_node_dir C sk (skey (n_entry n)) = None
                  then (None, (x', rng'), InsertOnVacant n (Some (Inr (ret, None))))
                  else (None, (x', rng'), Noop None)))
        | Some e \<Rightarrow>
            (case upd e of
               (e', Inl err) \<Rightarrow> (Some e', (x, rng), Noop (Some (Inl err)))
             | (e', Inr oc) \<Rightarrow>
                 (let new_val = (if delete_item oc then None else Some (e_val e'));
                      x' = view_update C x (snd sk) new_val (Some (e_val e)) in
                  if update_key oc \<or> delete_item oc
                  then (Some e', (x', rng), Delete (out oc, delete_item oc))
                  else (Some e', (x', rng), Updated (update_weight_flag oc) (Some (Inr (out oc, None))))))),
      handle_delete = (\<lambda>d (ret, del).
        if \<not> del then (case d of Some n \<Rightarrow> Some (Inr (ret, Some n)) | None \<Rightarrow> None)
        else Some (Inr (ret, None)))\<rparr>"

section \<open>Consistency\<close>

fun inorder :: "('k, 's, 'v, 'w) tree \<Rightarrow> ('k, 's, 'v, 'w) entry list" where
  "inorder Empty = []"
| "inorder (Node e _ _ l r) = inorder l @ e # inorder r"

text \<open>The source's own check, which compares a node with its children only.\<close>

fun assert_consistency :: "('k, 's, 'v, 'w, 'x) treap_config \<Rightarrow> ('k, 's, 'v, 'w) tree \<Rightarrow> bool" where
  "assert_consistency C Empty = True"
| "assert_consistency C (Node e s p l r) =
     ((l \<noteq> Empty \<longrightarrow> n_priority l \<le> p \<and> assert_consistency C l \<and>
        next_node_dir C (skey (n_entry l)) (skey e) = Some Left) \<and>
      (r \<noteq> Empty \<longrightarrow> n_priority r \<le> p \<and> assert_consistency C r \<and>
        next_node_dir C (skey (n_entry r)) (skey e) = Some Right) \<and>
      accure_child C (accure_child C (e_weight e) l) r = s)"

definition klt :: "('k, 's, 'v, 'w, 'x) treap_config \<Rightarrow> 's \<times> 'k \<Rightarrow> 's \<times> 'k \<Rightarrow> bool" where
  "klt C a b \<longleftrightarrow> next_node_dir C a b = Some Left"

definition ordered :: "('k, 's, 'v, 'w, 'x) treap_config \<Rightarrow> ('k, 's, 'v, 'w) entry list \<Rightarrow> bool" where
  "ordered C es \<longleftrightarrow> sorted_wrt (klt C) (map skey es)"

fun prio_le :: "u64 \<Rightarrow> ('k, 's, 'v, 'w) tree \<Rightarrow> bool" where
  "prio_le q Empty = True"
| "prio_le q (Node _ _ p _ _) = (p \<le> q)"

fun heap_ok :: "('k, 's, 'v, 'w) tree \<Rightarrow> bool" where
  "heap_ok Empty = True"
| "heap_ok (Node _ _ p l r) = (prio_le p l \<and> prio_le p r \<and> heap_ok l \<and> heap_ok r)"

fun sums_ok :: "('k, 's, 'v, 'w, 'x) treap_config \<Rightarrow> ('k, 's, 'v, 'w) tree \<Rightarrow> bool" where
  "sums_ok C Empty = True"
| "sums_ok C (Node e s p l r) =
     (s = accure_child C (accure_child C (e_weight e) l) r \<and> sums_ok C l \<and> sums_ok C r)"

definition treap_ok :: "('k, 's, 'v, 'w, 'x) treap_config \<Rightarrow> ('k, 's, 'v, 'w) tree \<Rightarrow> bool" where
  "treap_ok C t \<longleftrightarrow> ordered C (inorder t) \<and> heap_ok t \<and> sums_ok C t"

text \<open>What an updater promises: the documented contract of \<^verbatim>\<open>OpResult\<close>.\<close>

definition updater_ok :: "('k, 's, 'v, 'w, 'y, 'ret, 'dr) updater \<Rightarrow> bool" where
  "updater_ok u \<longleftrightarrow>
     (\<forall>y. case update_node u y None of
            (_, _, InsertOnVacant n _) \<Rightarrow>
              (\<exists>e p. n = Node e (e_weight e) p Empty Empty \<and> skey e = treap_key u)
          | _ \<Rightarrow> True) \<and>
     (\<forall>y e. skey e = treap_key u \<longrightarrow>
          (case update_node u y (Some e) of
             (_, _, InsertOnVacant _ _) \<Rightarrow> False
           | (me, _, Updated uw _) \<Rightarrow>
               (\<exists>e'. me = Some e' \<and> skey e' = treap_key u \<and> (uw \<or> e_weight e' = e_weight e))
           | (me, _, Noop _) \<Rightarrow>
               (\<exists>e'. me = Some e' \<and> skey e' = treap_key u \<and> e_weight e' = e_weight e)
           | (me, _, Delete _) \<Rightarrow> (\<exists>e'. me = Some e')))"

definition below :: "('k, 's, 'v, 'w, 'x) treap_config \<Rightarrow> 's \<times> 'k \<Rightarrow> ('k, 's, 'v, 'w) entry list \<Rightarrow> ('k, 's, 'v, 'w) entry list" where
  "below C sk es = filter (\<lambda>e. klt C (skey e) sk) es"

definition above :: "('k, 's, 'v, 'w, 'x) treap_config \<Rightarrow> 's \<times> 'k \<Rightarrow> ('k, 's, 'v, 'w) entry list \<Rightarrow> ('k, 's, 'v, 'w) entry list" where
  "above C sk es = filter (\<lambda>e. klt C sk (skey e)) es"

definition at_key :: "'s \<times> 'k \<Rightarrow> ('k, 's, 'v, 'w) entry list \<Rightarrow> ('k, 's, 'v, 'w) entry option" where
  "at_key sk es = find (\<lambda>e. skey e = sk) es"

definition mid_after :: "('k, 's, 'v, 'w) entry option \<Rightarrow> ('k, 's, 'v, 'w, 'ret, 'dr) op_result \<Rightarrow> ('k, 's, 'v, 'w) entry list" where
  "mid_after me res =
     (case res of
        InsertOnVacant n _ \<Rightarrow> inorder n
      | Delete _ \<Rightarrow> []
      | _ \<Rightarrow> (case me of None \<Rightarrow> [] | Some e \<Rightarrow> [e]))"

section \<open>Lemmas about the primitives\<close>

lemma inorder_update_weight [simp, treap_simps]: "inorder (update_weight C t) = inorder t"
  by (cases t) auto

lemma inorder_right_rotate [simp, treap_simps]: "inorder (right_rotate C t) = inorder t"
  by (induction C t rule: right_rotate.induct) auto

lemma inorder_left_rotate [simp, treap_simps]: "inorder (left_rotate C t) = inorder t"
  by (induction C t rule: left_rotate.induct) auto

lemma inorder_fix_node [simp, treap_simps]: "inorder (fst (fix_node C d t uw up)) = inorder t"
  by (auto simp: fix_node_def Let_def split: option.split direction.split bool.split)

lemma heap_ok_update_weight [simp, treap_simps]: "heap_ok (update_weight C t) = heap_ok t"
  by (cases t) auto

lemma prio_le_update_weight [simp, treap_simps]: "prio_le q (update_weight C t) = prio_le q t"
  by (cases t) auto

lemma prio_le_trans: "prio_le p t \<Longrightarrow> p \<le> q \<Longrightarrow> prio_le q t"
  by (cases t) auto

lemma sums_ok_update_weight [simp, treap_simps]:
  "sums_ok C (update_weight C (Node e s p l r)) \<longleftrightarrow> sums_ok C l \<and> sums_ok C r"
  by simp

lemma sums_ok_right_rotate [intro]: "sums_ok C t \<Longrightarrow> sums_ok C (right_rotate C t)"
  by (induction C t rule: right_rotate.induct) auto

lemma sums_ok_left_rotate [intro]: "sums_ok C t \<Longrightarrow> sums_ok C (left_rotate C t)"
  by (induction C t rule: left_rotate.induct) auto

definition root_sum :: "('k, 's, 'v, 'w) tree \<Rightarrow> 'w option" where
  "root_sum t = (case t of Empty \<Rightarrow> None | Node _ s _ _ _ \<Rightarrow> Some s)"

lemma accure_child_root_sum: "root_sum t = root_sum t' \<Longrightarrow> accure_child C w t = accure_child C w t'"
  by (auto simp: root_sum_def accure_child_def split: tree.splits)

section \<open>Deletion\<close>

lemma node_delete_Right:
  assumes "next_root l (Node ye ys yp b c) = Some Right"
  shows "node_delete C (Node e s p l (Node ye ys yp b c)) =
    map_prod (\<lambda>l'. update_weight C (Node ye ys yp l' c)) id
      (node_delete C (update_weight C (Node e s p l b)))"
  using assms by (auto simp: split_beta map_prod_def)

lemma node_delete_Left:
  assumes "next_root (Node xe xs xp a b) r = Some Left"
  shows "node_delete C (Node e s p (Node xe xs xp a b) r) =
    map_prod (\<lambda>r'. update_weight C (Node xe xs xp a r')) id
      (node_delete C (update_weight C (Node e s p b r)))"
  using assms by (auto simp: split_beta map_prod_def)

lemma node_delete_cases [case_names leaf right left]:
  fixes l r :: "('k, 's, 'v, 'w) tree"
  obtains "l = Empty" "r = Empty"
  | ye ys yp b c where "r = Node ye ys yp b c" "next_root l r = Some Right"
      "\<forall>q. prio_le q r \<longrightarrow> prio_le q l" "prio_le yp l"
  | xe xs xp a b where "l = Node xe xs xp a b" "next_root l r = Some Left"
      "\<forall>q. prio_le q l \<longrightarrow> prio_le q r" "prio_le xp r"
proof (cases "(l, r)" rule: next_root.cases)
  case (4 xe xs p xl xr ye ys q yl yr)
  then show ?thesis
    by (cases "p < q") (auto intro: that)
qed (auto intro: that)

lemma node_delete_spec:
  assumes "t = Node e s p l r" "sums_ok C l" "sums_ok C r" "heap_ok t"
  shows "inorder (fst (node_delete C t)) = inorder l @ inorder r \<and>
    sums_ok C (fst (node_delete C t)) \<and> heap_ok (fst (node_delete C t)) \<and>
    (\<forall>q. prio_le q l \<and> prio_le q r \<longrightarrow> prio_le q (fst (node_delete C t))) \<and>
    (\<exists>s'. snd (node_delete C t) = Node e s' p Empty Empty)"
  using assms
proof (induction "tsize t" arbitrary: t s l r rule: less_induct)
  case less
  show ?case
  proof (cases l r rule: node_delete_cases)
    case leaf
    with less.prems show ?thesis by simp
  next
    case (right ye ys yp b c)
    let ?x = "update_weight C (Node e s p l b)"
    let ?D = "node_delete C ?x"
    from right less.prems have "tsize ?x < tsize t" "sums_ok C l" "sums_ok C b" "heap_ok ?x"
      by (auto intro: prio_le_trans)
    then have IH: "inorder (fst ?D) = inorder l @ inorder b \<and> sums_ok C (fst ?D) \<and> heap_ok (fst ?D) \<and>
        (\<forall>q. prio_le q l \<and> prio_le q b \<longrightarrow> prio_le q (fst ?D)) \<and>
        (\<exists>s'. snd ?D = Node e s' p Empty Empty)"
      using less.hyps [of ?x] by simp
    from right less.prems have eq: "node_delete C t =
        map_prod (\<lambda>l'. update_weight C (Node ye ys yp l' c)) id ?D"
      by (simp only: node_delete_Right)
    from IH right less.prems show ?thesis
      unfolding eq by (auto simp: map_prod_def split_beta)
  next
    case (left xe xs xp a b)
    let ?x = "update_weight C (Node e s p b r)"
    let ?D = "node_delete C ?x"
    from left less.prems have "tsize ?x < tsize t" "sums_ok C b" "sums_ok C r" "heap_ok ?x"
      by (auto intro: prio_le_trans)
    then have IH: "inorder (fst ?D) = inorder b @ inorder r \<and> sums_ok C (fst ?D) \<and> heap_ok (fst ?D) \<and>
        (\<forall>q. prio_le q b \<and> prio_le q r \<longrightarrow> prio_le q (fst ?D)) \<and>
        (\<exists>s'. snd ?D = Node e s' p Empty Empty)"
      using less.hyps [of ?x] by simp
    from left less.prems have eq: "node_delete C t =
        map_prod (\<lambda>r'. update_weight C (Node xe xs xp a r')) id ?D"
      by (simp only: node_delete_Left)
    from IH left less.prems show ?thesis
      unfolding eq by (auto simp: map_prod_def split_beta)
  qed
qed

section \<open>Repair of an ancestor\<close>

lemma priority_less_iff: "priority_less (Node e s p l r) t \<longleftrightarrow> \<not> prio_le p t"
  by (cases t) auto

lemma fix_node_sums:
  assumes "sums_ok C l" "sums_ok C r"
    and "uw \<or> s = accure_child C (accure_child C (e_weight e) l) r"
  shows "sums_ok C (fst (fix_node C d (Node e s p l r) uw up))"
  using assms
  by (auto simp: fix_node_def Let_def simp del: right_rotate.simps left_rotate.simps
      split: option.split direction.split bool.split)

lemma fix_node_no_up:
  "\<not> up \<Longrightarrow> fix_node C d (Node e s p l r) uw up =
     ((if uw then update_weight C (Node e s p l r) else Node e s p l r), False)"
  by (cases d rule: option.exhaust [case_product direction.exhaust])
    (auto simp: fix_node_def Let_def split: option.split direction.split)

lemma fix_node_None: "fst (fix_node C None t uw up) = (if uw then update_weight C t else t)"
  "snd (fix_node C None t uw up) = up"
  by (cases t; auto simp: fix_node_def Let_def)+

definition kids_le :: "u64 \<Rightarrow> ('k, 's, 'v, 'w) tree \<Rightarrow> bool" where
  "kids_le q t = (case t of Empty \<Rightarrow> True | Node _ _ _ l r \<Rightarrow> prio_le q l \<and> prio_le q r)"

lemma kids_le_simps [simp]: "kids_le q Empty" "kids_le q (Node e s p l r) = (prio_le q l \<and> prio_le q r)"
  by (auto simp: kids_le_def)

lemma kids_le_of_heap: "heap_ok t \<Longrightarrow> prio_le q t \<Longrightarrow> kids_le q t"
  by (cases t) (auto intro: prio_le_trans)

text \<open>
  The state of a subtree during the climb: the heap order holds inside it and only its root may
  beat the bound \<open>q\<close> of the parent, and only while the priority flag is up.
\<close>

definition climb_ok :: "u64 \<Rightarrow> ('k, 's, 'v, 'w) tree \<Rightarrow> bool \<Rightarrow> bool" where
  "climb_ok q t up \<longleftrightarrow> heap_ok t \<and> kids_le q t \<and> (\<not> up \<longrightarrow> prio_le q t)"

lemma climb_ok_fix_left:
  assumes "climb_ok p l up" "heap_ok r" "prio_le p r" "p \<le> q"
  shows "case fix_node C (Some Left) (Node e s p l r) uw up of (t, up') \<Rightarrow> climb_ok q t up'"
  using assms
  by (cases l) (auto simp: climb_ok_def fix_node_def Let_def priority_less_iff intro: prio_le_trans split: bool.split)

lemma climb_ok_fix_right:
  assumes "climb_ok p r up" "heap_ok l" "prio_le p l" "p \<le> q"
  shows "case fix_node C (Some Right) (Node e s p l r) uw up of (t, up') \<Rightarrow> climb_ok q t up'"
  using assms
  by (cases r) (auto simp: climb_ok_def fix_node_def Let_def priority_less_iff intro: prio_le_trans split: bool.split)

section \<open>The configuration contract and the behaviour of update_inner\<close>

text \<open>
  What a configuration promises: \<open>next_node_dir\<close> compares by a strict linear order and the
  weights form a commutative semigroup whose in-place form agrees with \<open>consolidate\<close>.
\<close>

locale treap_contract =
  fixes C :: "('k, 's, 'v, 'w, 'x) treap_config"
  assumes dir_None: "next_node_dir C a b = None \<longleftrightarrow> a = b"
    and dir_flip: "next_node_dir C a b = Some Right \<longleftrightarrow> next_node_dir C b a = Some Left"
    and dir_trans: "next_node_dir C a b = Some Left \<Longrightarrow> next_node_dir C b c = Some Left \<Longrightarrow>
      next_node_dir C a c = Some Left"
    and accure_eq: "accure C v w = consolidate C v w"
    and consolidate_assoc: "consolidate C (consolidate C u v) w = consolidate C u (consolidate C v w)"
    and consolidate_commute: "consolidate C v w = consolidate C w v"
begin

lemma klt_irrefl [simp]: "\<not> klt C a a"
  using dir_None [of a a] by (simp add: klt_def)

lemma klt_trans: "klt C a b \<Longrightarrow> klt C b c \<Longrightarrow> klt C a c"
  by (auto simp: klt_def intro: dir_trans)

lemma klt_asym: "klt C a b \<Longrightarrow> \<not> klt C b a"
  using klt_trans klt_irrefl by blast

lemma dir_cases:
  obtains "next_node_dir C a b = None" "a = b"
  | "next_node_dir C a b = Some Left" "klt C a b"
  | "next_node_dir C a b = Some Right" "klt C b a"
  using dir_None [of a b] dir_flip [of a b]
  by (cases "next_node_dir C a b" rule: option.exhaust [case_product direction.exhaust])
    (auto simp: klt_def split: direction.splits, metis direction.exhaust)

lemma ordered_node:
  "ordered C (inorder l @ e # inorder r) \<longleftrightarrow>
     ordered C (inorder l) \<and> ordered C (inorder r) \<and>
     (\<forall>x\<in>set (inorder l). klt C (skey x) (skey e)) \<and> (\<forall>x\<in>set (inorder r). klt C (skey e) (skey x))"
  by (auto simp: ordered_def sorted_wrt_append intro: klt_trans)

end

section \<open>The hit position\<close>

definition hit_inner ::
  "('k, 's, 'v, 'w, 'x) treap_config \<Rightarrow> ('k, 's, 'v, 'w, 'y, 'ret, 'dr) updater \<Rightarrow> 'y \<Rightarrow> ('k, 's, 'v, 'w) tree \<Rightarrow>
   ('k, 's, 'v, 'w) tree \<times> 'y \<times> 'ret \<times> bool \<times> bool" where
  "hit_inner C u y t =
     (let (me, y', res) = update_node u y (entry_of t);
          (t', ret, uw, up) = process_update_result C u (write_entry t me) res;
          (t'', up') = fix_node C None t' uw up
      in (t'', y', ret, uw, up'))"

lemma update_inner_hit:
  "update_inner C u y Empty = hit_inner C u y Empty"
  "next_node_dir C (treap_key u) (skey e) = None \<Longrightarrow>
     update_inner C u y (Node e s p l r) = hit_inner C u y (Node e s p l r)"
  by (auto simp: hit_inner_def entry_of_def write_entry_def split_beta)

text \<open>
  The post-condition of an update at subtree \<open>t\<close>, as the ancestors rely on it: the result holds
  \<open>es\<close>, its sums are right, it satisfies the climbing condition, and an update that
  reports no weight change left the accumulated weight as it was.
\<close>

definition step_ok ::
  "('k, 's, 'v, 'w, 'x) treap_config \<Rightarrow> u64 \<Rightarrow> ('k, 's, 'v, 'w) tree \<Rightarrow> ('k, 's, 'v, 'w) entry list \<Rightarrow>
   ('k, 's, 'v, 'w) tree \<times> 'y \<times> 'ret \<times> bool \<times> bool \<Rightarrow> bool" where
  "step_ok C q t es res \<longleftrightarrow>
     (case res of (t', y', ret, uw, up) \<Rightarrow>
        inorder t' = es \<and> sums_ok C t' \<and> climb_ok q t' up \<and>
        (\<not> uw \<longrightarrow> root_sum t' = root_sum t \<and> \<not> up))"

lemma step_ok_hit_Empty:
  assumes u: "updater_ok u"
  shows "step_ok C q Empty (case update_node u y None of (me, y', res) \<Rightarrow> mid_after None res)
    (hit_inner C u y Empty)"
proof (cases "update_node u y None")
  case (fields me y' res)
  with u show ?thesis
    by (cases res)
      (auto simp: step_ok_def hit_inner_def entry_of_def write_entry_def process_update_result_def
        mid_after_def fix_node_def climb_ok_def updater_ok_def accure_child_def root_sum_def
        split: prod.splits dest!: spec [of _ y])
qed

lemma step_ok_hit_Node:
  assumes u: "updater_ok u" and k: "skey e = treap_key u"
    and t: "sums_ok C (Node e s p l r)" "heap_ok (Node e s p l r)" "p \<le> q"
  shows "step_ok C q (Node e s p l r)
    (case update_node u y (Some e) of (me, y', res) \<Rightarrow> inorder l @ mid_after me res @ inorder r)
    (hit_inner C u y (Node e s p l r))"
proof (cases "update_node u y (Some e)")
  case (fields me y' res)
  have ok: "case (me, y', res) of
             (_, _, InsertOnVacant _ _) \<Rightarrow> False
           | (me, _, Updated uw _) \<Rightarrow>
               (\<exists>e'. me = Some e' \<and> skey e' = treap_key u \<and> (uw \<or> e_weight e' = e_weight e))
           | (me, _, Noop _) \<Rightarrow>
               (\<exists>e'. me = Some e' \<and> skey e' = treap_key u \<and> e_weight e' = e_weight e)
           | (me, _, Delete _) \<Rightarrow> (\<exists>e'. me = Some e')"
    using u k fields by (auto simp: updater_ok_def dest!: spec [of _ y] spec [of _ e])
  show ?thesis
  proof (cases res)
    case (Delete dr)
    with ok obtain e' where me: "me = Some e'" by auto
    let ?D = "node_delete C (Node e' s p l r)"
    have D: "inorder (fst ?D) = inorder l @ inorder r \<and> sums_ok C (fst ?D) \<and> heap_ok (fst ?D) \<and>
        (\<forall>q. prio_le q l \<and> prio_le q r \<longrightarrow> prio_le q (fst ?D))"
      using t node_delete_spec [of "Node e' s p l r" e' s p l r C] by simp
    then have "climb_ok q (fst ?D) True"
      using t by (auto simp: climb_ok_def intro: prio_le_trans kids_le_of_heap)
    with D Delete me fields show ?thesis
      by (cases "fst ?D")
        (auto simp: step_ok_def hit_inner_def entry_of_def write_entry_def process_update_result_def
          mid_after_def fix_node_def Let_def climb_ok_def split_beta)
  qed (use ok t fields in \<open>auto simp: step_ok_def hit_inner_def entry_of_def write_entry_def
      process_update_result_def mid_after_def fix_node_no_up climb_ok_def root_sum_def
      intro: prio_le_trans\<close>)
qed

lemma step_ok_left:
  assumes "step_ok C p l es (l', y', ret, uw, up)"
    and t: "sums_ok C (Node e s p l r)" "heap_ok (Node e s p l r)" "p \<le> q"
  shows "step_ok C q (Node e s p l r) (es @ e # inorder r)
    (case fix_node C (Some Left) (Node e s p l' r) uw up of (t'', up') \<Rightarrow> (t'', y', ret, uw, up'))"
proof -
  let ?F = "fix_node C (Some Left) (Node e s p l' r) uw up"
  from assms(1) have l: "inorder l' = es" "sums_ok C l'" "climb_ok p l' up"
    "\<not> uw \<longrightarrow> root_sum l' = root_sum l \<and> \<not> up"
    by (auto simp: step_ok_def)
  have "inorder (fst ?F) = es @ e # inorder r"
    using l by simp
  moreover have "sums_ok C (fst ?F)"
    using l t by (intro fix_node_sums) (auto simp: accure_child_root_sum [of l' l])
  moreover have "climb_ok q (fst ?F) (snd ?F)"
    using climb_ok_fix_left [of p l' up r q C e s uw] l t by (auto simp: split_beta)
  moreover have "\<not> uw \<longrightarrow> root_sum (fst ?F) = root_sum (Node e s p l r) \<and> \<not> snd ?F"
    using l by (auto simp: fix_node_no_up root_sum_def)
  ultimately show ?thesis by (auto simp: step_ok_def split_beta)
qed

lemma step_ok_right:
  assumes "step_ok C p r es (r', y', ret, uw, up)"
    and t: "sums_ok C (Node e s p l r)" "heap_ok (Node e s p l r)" "p \<le> q"
  shows "step_ok C q (Node e s p l r) (inorder l @ e # es)
    (case fix_node C (Some Right) (Node e s p l r') uw up of (t'', up') \<Rightarrow> (t'', y', ret, uw, up'))"
proof -
  let ?F = "fix_node C (Some Right) (Node e s p l r') uw up"
  from assms(1) have r: "inorder r' = es" "sums_ok C r'" "climb_ok p r' up"
    "\<not> uw \<longrightarrow> root_sum r' = root_sum r \<and> \<not> up"
    by (auto simp: step_ok_def)
  have "inorder (fst ?F) = inorder l @ e # es"
    using r by simp
  moreover have "sums_ok C (fst ?F)"
    using r t by (intro fix_node_sums) (auto simp: accure_child_root_sum [of r' r])
  moreover have "climb_ok q (fst ?F) (snd ?F)"
    using climb_ok_fix_right [of p r' up l q C e s uw] r t by (auto simp: split_beta)
  moreover have "\<not> uw \<longrightarrow> root_sum (fst ?F) = root_sum (Node e s p l r) \<and> \<not> snd ?F"
    using r by (auto simp: fix_node_no_up root_sum_def)
  ultimately show ?thesis by (auto simp: step_ok_def split_beta)
qed

definition updated_list ::
  "('k, 's, 'v, 'w, 'x) treap_config \<Rightarrow> ('k, 's, 'v, 'w, 'y, 'ret, 'dr) updater \<Rightarrow> 'y \<Rightarrow>
   ('k, 's, 'v, 'w) entry list \<Rightarrow> ('k, 's, 'v, 'w) entry list" where
  "updated_list C u y es =
     (case update_node u y (at_key (treap_key u) es) of
        (me, y', res) \<Rightarrow>
          below C (treap_key u) es @
          mid_after (if at_key (treap_key u) es = None then None else me) res @
          above C (treap_key u) es)"

lemma at_key_append: "at_key k (xs @ ys) = (case at_key k xs of None \<Rightarrow> at_key k ys | Some e \<Rightarrow> Some e)"
  by (induction xs) (auto simp: at_key_def)

lemma at_key_Cons: "at_key k (e # es) = (if skey e = k then Some e else at_key k es)"
  by (simp add: at_key_def)

lemma below_append: "below C k (xs @ ys) = below C k xs @ below C k ys"
  by (simp add: below_def)

lemma below_Cons: "below C k (e # es) = (if klt C (skey e) k then e # below C k es else below C k es)"
  by (simp add: below_def)

lemma above_append: "above C k (xs @ ys) = above C k xs @ above C k ys"
  by (simp add: above_def)

lemma above_Cons: "above C k (e # es) = (if klt C k (skey e) then e # above C k es else above C k es)"
  by (simp add: above_def)

lemmas split_at_key = at_key_append at_key_Cons below_append below_Cons above_append above_Cons

context treap_contract
begin

lemma filter_all_klt:
  "\<forall>x\<in>set es. klt C (skey x) k \<Longrightarrow> below C k es = es \<and> above C k es = [] \<and> at_key k es = None"
  "\<forall>x\<in>set es. klt C k (skey x) \<Longrightarrow> below C k es = [] \<and> above C k es = es \<and> at_key k es = None"
  by (auto simp: below_def above_def at_key_def find_None_iff filter_empty_conv dest: klt_asym)

lemma updated_list_hit:
  assumes "ordered C (inorder l @ e # inorder r)" "skey e = treap_key u"
  shows "updated_list C u y (inorder l @ e # inorder r) =
    (case update_node u y (Some e) of (me, y', res) \<Rightarrow> inorder l @ mid_after me res @ inorder r)"
proof -
  let ?k = "treap_key u"
  have l: "below C ?k (inorder l) = inorder l" "above C ?k (inorder l) = []" "at_key ?k (inorder l) = None"
    using filter_all_klt(1) [of "inorder l" ?k] assms by (auto simp: ordered_node)
  have r: "below C ?k (inorder r) = []" "above C ?k (inorder r) = inorder r" "at_key ?k (inorder r) = None"
    using filter_all_klt(2) [of "inorder r" ?k] assms by (auto simp: ordered_node)
  from l r assms(2) show ?thesis
    by (simp add: updated_list_def split_at_key)
qed

lemma updated_list_left:
  assumes "ordered C (inorder l @ e # inorder r)" "klt C (treap_key u) (skey e)"
  shows "updated_list C u y (inorder l @ e # inorder r) = updated_list C u y (inorder l) @ e # inorder r"
proof -
  let ?k = "treap_key u"
  have "\<forall>x\<in>set (e # inorder r). klt C ?k (skey x)"
    using assms by (auto simp: ordered_node intro: klt_trans)
  from filter_all_klt(2) [OF this]
  have r: "below C ?k (e # inorder r) = []" "above C ?k (e # inorder r) = e # inorder r"
    "at_key ?k (e # inorder r) = None" by auto
  show ?thesis
    by (simp add: updated_list_def at_key_append below_append above_append r
        split: option.split prod.split)
qed

lemma updated_list_right:
  assumes "ordered C (inorder l @ e # inorder r)" "klt C (skey e) (treap_key u)"
  shows "updated_list C u y (inorder l @ e # inorder r) = inorder l @ e # updated_list C u y (inorder r)"
proof -
  let ?k = "treap_key u"
  have "\<forall>x\<in>set (inorder l @ [e]). klt C (skey x) ?k"
    using assms by (auto simp: ordered_node intro: klt_trans)
  from filter_all_klt(1) [OF this]
  have l: "below C ?k (inorder l @ [e]) = inorder l @ [e]" "above C ?k (inorder l @ [e]) = []"
    "at_key ?k (inorder l @ [e]) = None" by auto
  have "updated_list C u y ((inorder l @ [e]) @ inorder r) = (inorder l @ [e]) @ updated_list C u y (inorder r)"
    unfolding updated_list_def at_key_append [of _ "inorder l @ [e]"]
      below_append [of _ _ "inorder l @ [e]"] above_append [of _ _ "inorder l @ [e]"] l
    by (simp split: prod.split)
  then show ?thesis by simp
qed

lemma update_inner_step_ok:
  assumes "updater_ok u" "treap_ok C t" "prio_le q t"
  shows "step_ok C q t (updated_list C u y (inorder t)) (update_inner C u y t)"
  using assms(2,3)
proof (induction t arbitrary: q)
  case Empty
  have "updated_list C u y [] = (case update_node u y None of (me, y', res) \<Rightarrow> mid_after None res)"
    by (simp add: updated_list_def at_key_def below_def above_def)
  with step_ok_hit_Empty [OF assms(1), of C q y] show ?case
    by (simp only: update_inner_hit inorder.simps)
next
  case (Node e s p l r)
  from Node.prems have ord: "ordered C (inorder l @ e # inorder r)"
    and t: "sums_ok C (Node e s p l r)" "heap_ok (Node e s p l r)" "p \<le> q"
    by (auto simp: treap_ok_def)
  then have sub: "treap_ok C l" "treap_ok C r" "prio_le p l" "prio_le p r"
    by (auto simp: treap_ok_def ordered_node)
  show ?case
  proof (cases "treap_key u" "skey e" rule: dir_cases)
    case 1
    from step_ok_hit_Node [OF assms(1) 1(2) [symmetric] t, of y] 1 ord show ?thesis
      by (simp add: update_inner_hit updated_list_hit del: update_inner.simps)
  next
    case 2
    obtain l' y' ret uw up where l': "update_inner C u y l = (l', y', ret, uw, up)"
      by (cases "update_inner C u y l")
    from Node.IH(1) [OF sub(1,3)] l' have "step_ok C p l (updated_list C u y (inorder l)) (l', y', ret, uw, up)"
      by simp
    from step_ok_left [OF this t] 2 l' ord show ?thesis
      by (simp add: updated_list_left)
  next
    case 3
    obtain r' y' ret uw up where r': "update_inner C u y r = (r', y', ret, uw, up)"
      by (cases "update_inner C u y r")
    from Node.IH(2) [OF sub(2,4)] r' have "step_ok C p r (updated_list C u y (inorder r)) (r', y', ret, uw, up)"
      by simp
    from step_ok_right [OF this t] 3 r' ord show ?thesis
      by (simp add: updated_list_right)
  qed
qed

lemma ordered_filter: "ordered C es \<Longrightarrow> ordered C (filter P es)"
  by (induction es) (auto simp: ordered_def)

lemma below_less: "e \<in> set (below C k es) \<Longrightarrow> klt C (skey e) k"
  by (simp add: below_def)

lemma above_greater: "e \<in> set (above C k es) \<Longrightarrow> klt C k (skey e)"
  by (simp add: above_def)

lemma ordered_splice:
  assumes "ordered C es" "\<forall>e\<in>set mid. skey e = k" "length mid \<le> 1"
  shows "ordered C (below C k es @ mid @ above C k es)"
proof -
  have "ordered C (below C k es)" "ordered C (above C k es)"
    using assms(1) ordered_filter by (auto simp: below_def above_def)
  moreover have "klt C (skey a) (skey b)" if "a \<in> set (below C k es)" "b \<in> set (above C k es)" for a b
    using that below_less above_greater klt_trans by blast
  ultimately show ?thesis
    using assms(2,3) below_less above_greater
    by (cases mid) (auto simp: ordered_def sorted_wrt_append)
qed

lemma at_key_skey: "at_key k es = Some e \<Longrightarrow> skey e = k"
  by (auto simp: at_key_def find_Some_iff)

lemma mid_after_keys:
  assumes "updater_ok u" "update_node u y (at_key (treap_key u) es) = (me, y', res)"
  shows "(\<forall>e\<in>set (mid_after (if at_key (treap_key u) es = None then None else me) res). skey e = treap_key u) \<and>
    length (mid_after (if at_key (treap_key u) es = None then None else me) res) \<le> 1"
proof (cases "at_key (treap_key u) es")
  case None
  with assms show ?thesis
    by (cases res) (auto simp: updater_ok_def mid_after_def dest!: spec [of _ y])
next
  case (Some e)
  with at_key_skey have "skey e = treap_key u" by blast
  with assms Some show ?thesis
    by (cases res) (fastforce simp: updater_ok_def mid_after_def dest!: spec [of _ y] spec [of _ e])+
qed

lemma ordered_updated_list:
  assumes "updater_ok u" "ordered C es"
  shows "ordered C (updated_list C u y es)"
proof (cases "update_node u y (at_key (treap_key u) es)")
  case (fields me y' res)
  with mid_after_keys [OF assms(1), of y es me y' res] ordered_splice [OF assms(2)] show ?thesis
    by (auto simp: updated_list_def)
qed

lemma update_inner_inorder:
  assumes "updater_ok u" "treap_ok C t"
  shows "inorder (fst (update_inner C u y t)) = updated_list C u y (inorder t)"
proof -
  obtain q where "prio_le q t"
    by (cases t) auto
  from update_inner_step_ok [OF assms this, of y] show ?thesis
    by (auto simp: step_ok_def)
qed

lemma update_inner_treap_ok:
  assumes "updater_ok u" "treap_ok C t"
  shows "treap_ok C (fst (update_inner C u y t))"
proof -
  obtain q where "prio_le q t"
    by (cases t) auto
  from update_inner_step_ok [OF assms this, of y] assms ordered_updated_list show ?thesis
    by (auto simp: step_ok_def treap_ok_def climb_ok_def)
qed

lemma node_get_at_key:
  "ordered C (inorder t) \<Longrightarrow> node_get C t s k = map_option e_val (at_key (s, k) (inorder t))"
proof (induction t)
  case (Node e w p l r)
  then have ord: "ordered C (inorder l @ e # inorder r)" by simp
  show ?case
  proof (cases "(s, k)" "skey e" rule: dir_cases)
    case 1
    with ord filter_all_klt(1) [of "inorder l" "skey e"] show ?thesis
      by (auto simp: split_at_key ordered_node)
  next
    case 2
    then have "\<forall>x\<in>set (e # inorder r). klt C (s, k) (skey x)"
      using ord by (auto simp: ordered_node intro: klt_trans)
    with filter_all_klt(2) [OF this] 2 Node ord show ?thesis
      by (auto simp: at_key_append ordered_node split: option.split)
  next
    case 3
    then have "\<forall>x\<in>set (inorder l). klt C (skey x) (s, k)"
      using ord by (auto simp: ordered_node intro: klt_trans)
    with filter_all_klt(1) [OF this] 3 Node ord show ?thesis
      by (auto simp: split_at_key ordered_node)
  qed
qed (simp add: at_key_def)

lemma assert_consistency_of_treap_ok: "treap_ok C t \<Longrightarrow> assert_consistency C t"
proof (induction t)
  case (Node e s p l r)
  then have "treap_ok C l" "treap_ok C r" and ord: "ordered C (inorder l @ e # inorder r)"
    and "s = accure_child C (accure_child C (e_weight e) l) r" "prio_le p l" "prio_le p r"
    by (auto simp: treap_ok_def ordered_node)
  with Node.IH have "assert_consistency C l" "assert_consistency C r" by auto
  moreover have "next_node_dir C (skey (n_entry l)) (skey e) = Some Left" if "l \<noteq> Empty"
    using that ord [unfolded ordered_node] by (cases l) (auto simp: klt_def)
  moreover have "next_node_dir C (skey (n_entry r)) (skey e) = Some Right" if "r \<noteq> Empty"
    using that ord [unfolded ordered_node] by (cases r) (auto simp: klt_def dir_flip)
  ultimately show ?case
    using \<open>prio_le p l\<close> \<open>prio_le p r\<close> \<open>s = _\<close> by (cases l; cases r) auto
qed simp

end

section \<open>State and return value of an update\<close>

definition result_of ::
  "('k, 's, 'v, 'w, 'y, 'ret, 'dr) updater \<Rightarrow> ('k, 's, 'v, 'w) entry option \<Rightarrow> ('k, 's, 'v, 'w) entry option \<Rightarrow>
   ('k, 's, 'v, 'w, 'ret, 'dr) op_result \<Rightarrow> 'ret \<Rightarrow> bool" where
  "result_of u old me res ret =
     (case res of
        Noop r \<Rightarrow> ret = r
      | Updated _ r \<Rightarrow> ret = r
      | InsertOnVacant _ r \<Rightarrow> ret = r
      | Delete dr \<Rightarrow>
          (case old of
             None \<Rightarrow> ret = handle_delete u None dr
           | Some _ \<Rightarrow> (\<exists>e s p. me = Some e \<and> ret = handle_delete u (Some (Node e s p Empty Empty)) dr)))"

lemma updater_ok_Delete:
  "updater_ok u \<Longrightarrow> skey e = treap_key u \<Longrightarrow> update_node u y (Some e) = (me, y', Delete dr) \<Longrightarrow> \<exists>e'. me = Some e'"
  by (auto simp: updater_ok_def dest!: spec [of _ y] spec [of _ e])

lemma hit_inner_result:
  assumes "update_node u y (entry_of t) = (me, y', res)" "updater_ok u"
    and "\<forall>e s p l r. t = Node e s p l r \<longrightarrow> skey e = treap_key u \<and> sums_ok C t \<and> heap_ok t"
  shows "case hit_inner C u y t of (t', y'', ret, _) \<Rightarrow> y'' = y' \<and> result_of u (entry_of t) me res ret"
proof (cases t)
  case Empty
  with assms show ?thesis
    by (cases res) (auto simp: hit_inner_def process_update_result_def result_of_def entry_of_def
        write_entry_def split_beta)
next
  case (Node e s p l r)
  show ?thesis
  proof (cases res)
    case (Delete dr)
    with assms Node updater_ok_Delete [of u e y me y' dr] obtain e' where me: "me = Some e'"
      by (auto simp: entry_of_def)
    obtain s' where "snd (node_delete C (Node e' s p l r)) = Node e' s' p Empty Empty"
      using assms(3) Node node_delete_spec [of "Node e' s p l r" e' s p l r C] by auto
    with me assms Node Delete show ?thesis
      by (auto simp: hit_inner_def process_update_result_def result_of_def entry_of_def
          write_entry_def split_beta simp del: node_delete.simps intro!: exI [of _ s'])
  qed (use assms Node in \<open>auto simp: hit_inner_def process_update_result_def result_of_def entry_of_def
      write_entry_def split_beta\<close>)
qed

context treap_contract
begin

lemma update_inner_result:
  assumes "updater_ok u" "treap_ok C t"
    and "update_node u y (at_key (treap_key u) (inorder t)) = (me, y', res)"
  shows "case update_inner C u y t of (t', y'', ret, _) \<Rightarrow>
    y'' = y' \<and> result_of u (at_key (treap_key u) (inorder t)) me res ret"
  using assms(2,3)
proof (induction t)
  case Empty
  with hit_inner_result [of u y Empty me y' res C] assms(1) show ?case
    by (simp add: update_inner_hit at_key_def entry_of_def del: update_inner.simps)
next
  case (Node e s p l r)
  then have ord: "ordered C (inorder l @ e # inorder r)" and sub: "treap_ok C l" "treap_ok C r"
    by (auto simp: treap_ok_def ordered_node)
  show ?case
  proof (cases "treap_key u" "skey e" rule: dir_cases)
    case 1
    have "at_key (treap_key u) (inorder (Node e s p l r)) = Some e"
      using ord 1 filter_all_klt(1) [of "inorder l" "skey e"] by (auto simp: split_at_key ordered_node)
    with hit_inner_result [of u y "Node e s p l r" me y' res C] Node.prems assms(1) 1 show ?thesis
      by (simp add: update_inner_hit entry_of_def treap_ok_def del: update_inner.simps)
  next
    case 2
    then have "\<forall>x\<in>set (e # inorder r). klt C (treap_key u) (skey x)"
      using ord by (auto simp: ordered_node intro: klt_trans)
    from filter_all_klt(2) [OF this] have "at_key (treap_key u) (inorder (Node e s p l r)) = at_key (treap_key u) (inorder l)"
      by (auto simp: at_key_append split: option.split)
    with Node.IH(1) [OF sub(1)] Node.prems(2) 2 show ?thesis
      by (auto simp: split_beta)
  next
    case 3
    then have "\<forall>x\<in>set (inorder l). klt C (skey x) (treap_key u)"
      using ord by (auto simp: ordered_node intro: klt_trans)
    from filter_all_klt(1) [OF this] 3 have "at_key (treap_key u) (inorder (Node e s p l r)) = at_key (treap_key u) (inorder r)"
      by (auto simp: split_at_key)
    with Node.IH(2) [OF sub(2)] Node.prems(2) 3 show ?thesis
      by (auto simp: split_beta)
  qed
qed

end

section \<open>Accumulated weights\<close>

definition wsum :: "('k, 's, 'v, 'w, 'x) treap_config \<Rightarrow> 'w list \<Rightarrow> 'w" where
  "wsum C ws = (case ws of [] \<Rightarrow> weight_empty C | w # ws \<Rightarrow> foldl (consolidate C) w ws)"

context treap_contract
begin

lemma foldl_consolidate: "foldl (consolidate C) (consolidate C v w) ws = consolidate C v (foldl (consolidate C) w ws)"
  by (induction ws arbitrary: w) (simp_all add: consolidate_assoc)

lemma wsum_append: "xs \<noteq> [] \<Longrightarrow> ys \<noteq> [] \<Longrightarrow> wsum C (xs @ ys) = consolidate C (wsum C xs) (wsum C ys)"
  by (cases xs; cases ys) (auto simp: wsum_def foldl_consolidate)

lemma wsum_Cons: "ys \<noteq> [] \<Longrightarrow> wsum C (x # ys) = consolidate C x (wsum C ys)"
  using wsum_append [of "[x]" ys] by (simp add: wsum_def)

lemma inorder_eq_Nil: "inorder t = [] \<longleftrightarrow> t = Empty"
  by (cases t) auto

lemma n_sum_wsum: "sums_ok C t \<Longrightarrow> t \<noteq> Empty \<Longrightarrow> n_sum t = wsum C (map e_weight (inorder t))"
proof (induction t)
  case (Node e s p l r)
  have acc: "accure_child C v t = (if t = Empty then v else consolidate C v (n_sum t))" for v t
    by (cases t) (auto simp: accure_child_def accure_eq)
  from Node have l: "l \<noteq> Empty \<Longrightarrow> n_sum l = wsum C (map e_weight (inorder l))"
    and r: "r \<noteq> Empty \<Longrightarrow> n_sum r = wsum C (map e_weight (inorder r))"
    and s: "s = accure_child C (accure_child C (e_weight e) l) r"
    by auto
  show ?case
    using s l r
    by (cases "l = Empty"; cases "r = Empty")
      (auto simp: acc wsum_append wsum_Cons inorder_eq_Nil consolidate_commute consolidate_assoc,
       simp_all add: wsum_def, metis consolidate_assoc consolidate_commute)
qed simp

end

section \<open>The updaters satisfy their contract\<close>

lemma updater_ok_insert_op: "updater_ok (insert_op C (node_new k v s w p))"
  by (auto simp: updater_ok_def insert_op_def node_new_def skey_def Let_def)

lemma updater_ok_remove_op: "updater_ok (remove_op C sk)"
  by (auto simp: updater_ok_def remove_op_def)

text \<open>
  What the closures given to \<^verbatim>\<open>TreapMap::update\<close> have to respect: an error leaves the entry as it
  was (up to the stored value), a kept entry keeps its keys, a changed weight is reported, and
  an inserted node is a fresh leaf.
\<close>

definition update_fn_ok ::
  "(('k, 's, 'v, 'w) entry \<Rightarrow> ('k, 's, 'v, 'w) entry \<times> ('err + 't apply_outcome)) \<Rightarrow> 's \<times> 'k \<Rightarrow> bool" where
  "update_fn_ok upd sk \<longleftrightarrow>
     (\<forall>e. skey e = sk \<longrightarrow>
        (case upd e of
           (e', Inl _) \<Rightarrow> skey e' = sk \<and> e_weight e' = e_weight e
         | (e', Inr oc) \<Rightarrow>
             update_key oc \<or> delete_item oc \<or>
             skey e' = sk \<and> (update_weight_flag oc \<or> e_weight e' = e_weight e)))"

definition insert_fn_ok ::
  "('r \<Rightarrow> 'r \<times> ('err + ('k, 's, 'v, 'w) tree \<times> 't)) \<Rightarrow> bool" where
  "insert_fn_ok ins \<longleftrightarrow>
     (\<forall>rng. case ins rng of
        (_, Inl _) \<Rightarrow> True
      | (_, Inr (n, _)) \<Rightarrow> \<exists>k v s w p. n = node_new k v s w p)"

context treap_contract
begin

lemma updater_ok_apply_op:
  assumes "update_fn_ok upd sk" "insert_fn_ok ins"
  shows "updater_ok (apply_op C sk upd ins)"
proof -
  have key: "treap_key (apply_op C sk upd ins) = sk"
    by (simp add: apply_op_def)
  show ?thesis
    unfolding updater_ok_def key
  proof (intro conjI allI impI, goal_cases)
    case (1 y)
    obtain x rng where "y = (x, rng)" by (cases y)
    then show ?case
      using assms(2) [unfolded insert_fn_ok_def, rule_format, of rng]
      by (cases "ins rng") (auto simp: apply_op_def node_new_def dir_None skey_def Let_def split: sum.splits)
  next
    case (2 y e)
    then show ?case
      using assms(1) [unfolded update_fn_ok_def, rule_format, of e]
      by (cases y; cases "upd e") (auto simp: apply_op_def Let_def split: sum.splits)
  qed
qed

end

end
