(* ===== verification/Treap_Map.thy ===== *)
theory Treap_Map
  imports Treap_Node
begin

text \<open>
  \<^verbatim>\<open>crates/util/treap-map/src/map.rs\<close>: the map that couples the treap with the external key
  manager (\<^verbatim>\<open>ext_map\<close>) and the random source, its iterators, and the shared-key configuration
  with its \<^verbatim>\<open>Counter\<close> (\<^verbatim>\<open>config.rs\<close>). The generator \<^verbatim>\<open>XorShiftRng\<close> is code of another crate: its
  state type and \<^verbatim>\<open>next_u64\<close> are the parameters \<open>'r\<close> and \<open>nx\<close>.

  The contract of the key manager is the locale \<open>key_manager\<close>; its interpretation for
  \<^verbatim>\<open>Counter\<close> is here, the one for the packing pool is in \<open>Packing_Pool\<close>. Over it the map
  operations refine a finite map from search keys to value and weight.
\<close>

section \<open>The map\<close>

record ('k, 's, 'v, 'w, 'x, 'r) treap_map =
  root :: "('k, 's, 'v, 'w) tree"
  ext_map :: 'x
  rng :: 'r

definition treap_new :: "('k, 's, 'v, 'w, 'x) treap_config \<Rightarrow> 'r \<Rightarrow> ('k, 's, 'v, 'w, 'x, 'r) treap_map" where
  "treap_new C r = \<lparr>root = Empty, ext_map = ext_default C, rng = r\<rparr>"

definition treap_len :: "('k, 's, 'v, 'w, 'x) treap_config \<Rightarrow> ('k, 's, 'v, 'w, 'x, 'r) treap_map \<Rightarrow> nat" where
  "treap_len C m = ext_len C (ext_map m)"

definition treap_is_empty :: "('k, 's, 'v, 'w, 'x) treap_config \<Rightarrow> ('k, 's, 'v, 'w, 'x, 'r) treap_map \<Rightarrow> bool" where
  "treap_is_empty C m = (ext_len C (ext_map m) = 0)"

definition treap_get :: "('k, 's, 'v, 'w, 'x) treap_config \<Rightarrow> ('k, 's, 'v, 'w, 'x, 'r) treap_map \<Rightarrow> 'k \<Rightarrow> 'v option" where
  "treap_get C m k =
     (case get_sort_key C (ext_map m) k of
        None \<Rightarrow> None
      | Some s \<Rightarrow> node_get C (root m) s k)"

definition treap_contains_key :: "('k, 's, 'v, 'w, 'x) treap_config \<Rightarrow> ('k, 's, 'v, 'w, 'x, 'r) treap_map \<Rightarrow> 'k \<Rightarrow> bool" where
  "treap_contains_key C m k = (treap_get C m k \<noteq> None)"

definition treap_insert ::
  "('k, 's, 'v, 'w, 'x) treap_config \<Rightarrow> ('r \<Rightarrow> 'r \<times> u64) \<Rightarrow> ('k, 's, 'v, 'w, 'x, 'r) treap_map \<Rightarrow>
   'k \<Rightarrow> 'v \<Rightarrow> 'w \<Rightarrow> ('k, 's, 'v, 'w, 'x, 'r) treap_map \<times> 'v option" where
  "treap_insert C nx m k v w =
     (let s = make_sort_key C (ext_map m) k v;
          (r', p) = nx (rng m);
          (t, x, ret, _) = update_inner C (insert_op C (node_new k v s w p)) (ext_map m) (root m)
      in (\<lparr>root = t, ext_map = x, rng = r'\<rparr>, ret))"

definition treap_remove ::
  "('k, 's, 'v, 'w, 'x) treap_config \<Rightarrow> ('k, 's, 'v, 'w, 'x, 'r) treap_map \<Rightarrow> 'k \<Rightarrow>
   ('k, 's, 'v, 'w, 'x, 'r) treap_map \<times> 'v option" where
  "treap_remove C m k =
     (case get_sort_key C (ext_map m) k of
        None \<Rightarrow> (m, None)
      | Some s \<Rightarrow>
          (let (t, x, ret, _) = update_inner C (remove_op C (s, k)) (ext_map m) (root m)
           in (m\<lparr>root := t, ext_map := x\<rparr>, ret)))"

text \<open>The result of \<^verbatim>\<open>update\<close> is \<^verbatim>\<open>Result<T, E>\<close>; an outer \<open>None\<close> is a panic.\<close>

definition treap_update ::
  "('k, 's, 'v, 'w, 'x) treap_config \<Rightarrow> ('r \<Rightarrow> 'r \<times> u64) \<Rightarrow> ('k, 's, 'v, 'w, 'x, 'r) treap_map \<Rightarrow> 'k \<Rightarrow>
   (('k, 's, 'v, 'w) entry \<Rightarrow> ('k, 's, 'v, 'w) entry \<times> ('err + 't apply_outcome)) \<Rightarrow>
   ('r \<Rightarrow> 'r \<times> ('err + ('k, 's, 'v, 'w) tree \<times> 't)) \<Rightarrow>
   ('k, 's, 'v, 'w, 'x, 'r) treap_map \<times> ('err + 't) option" where
  "treap_update C nx m k upd ins =
     (case get_sort_key C (ext_map m) k of
        None \<Rightarrow>
          (case ins (rng m) of
             (r', Inr (n, ret)) \<Rightarrow>
               (fst (treap_insert C nx (m\<lparr>rng := r'\<rparr>)
                  (e_key (n_entry n)) (e_val (n_entry n)) (e_weight (n_entry n))), Some (Inr ret))
           | (r', Inl err) \<Rightarrow> (m\<lparr>rng := r'\<rparr>, Some (Inl err)))
      | Some s \<Rightarrow>
          (let (t, (x, r'), res, _) =
                 update_inner C (apply_op C (s, k) upd ins) (ext_map m, rng m) (root m);
               m' = \<lparr>root = t, ext_map = x, rng = r'\<rparr>
           in case res of
                None \<Rightarrow> (m', None)
              | Some (Inl err) \<Rightarrow> (m', Some (Inl err))
              | Some (Inr (ret, None)) \<Rightarrow> (m', Some (Inr ret))
              | Some (Inr (ret, Some n)) \<Rightarrow>
                  (fst (treap_insert C nx m'
                     (e_key (n_entry n)) (e_val (n_entry n)) (e_weight (n_entry n))), Some (Inr ret))))"

definition treap_sum_weight :: "('k, 's, 'v, 'w, 'x) treap_config \<Rightarrow> ('k, 's, 'v, 'w, 'x, 'r) treap_map \<Rightarrow> 'w" where
  "treap_sum_weight C m = (case root m of Empty \<Rightarrow> weight_empty C | Node _ s _ _ _ \<Rightarrow> s)"

section \<open>Iterators\<close>

text \<open>The stack \<^verbatim>\<open>nodes\<close> of an iterator, its top (the end of the \<^verbatim>\<open>Vec\<close>) first.\<close>

type_synonym ('k, 's, 'v, 'w) iter = "('k, 's, 'v, 'w) tree list"

function extend_path :: "('k, 's, 'v, 'w) iter \<Rightarrow> ('k, 's, 'v, 'w) iter" where
  "extend_path [] = []"
| "extend_path (Empty # ts) = Empty # ts"
| "extend_path (Node e s p l r # ts) =
     (if l = Empty then Node e s p l r # ts else extend_path (l # Node e s p l r # ts))"
  by pat_completeness auto
termination
  by (relation "measure (\<lambda>ts. case ts of [] \<Rightarrow> 0 | t # _ \<Rightarrow> tsize t)") auto

function extend_path_with_key ::
  "('k, 's, 'v, 'w, 'x) treap_config \<Rightarrow> 's \<times> 'k \<Rightarrow> ('k, 's, 'v, 'w) iter \<Rightarrow> ('k, 's, 'v, 'w) iter" where
  "extend_path_with_key C sk [] = []"
| "extend_path_with_key C sk (Empty # ts) = Empty # ts"
| "extend_path_with_key C sk (Node e s p l r # ts) =
     (case next_node_dir C sk (skey e) of
        Some Left \<Rightarrow>
          (if l = Empty then Node e s p l r # ts
           else extend_path_with_key C sk (l # Node e s p l r # ts))
      | None \<Rightarrow> Node e s p l r # ts
      | Some Right \<Rightarrow> (if r = Empty then ts else extend_path_with_key C sk (r # ts)))"
  by pat_completeness auto
termination
  by (relation "measure (\<lambda>(C, sk, ts). case ts of [] \<Rightarrow> 0 | t # _ \<Rightarrow> tsize t)") auto

definition treap_iter :: "('k, 's, 'v, 'w, 'x, 'r) treap_map \<Rightarrow> ('k, 's, 'v, 'w) iter" where
  "treap_iter m = (if root m = Empty then [] else extend_path [root m])"

definition treap_iter_range ::
  "('k, unit, 'v, 'w, 'x) treap_config \<Rightarrow> ('k, unit, 'v, 'w, 'x, 'r) treap_map \<Rightarrow> 'k \<Rightarrow> ('k, unit, 'v, 'w) iter" where
  "treap_iter_range C m k = (if root m = Empty then [] else extend_path_with_key C ((), k) [root m])"

fun iter_next :: "('k, 's, 'v, 'w) iter \<Rightarrow> ('k, 's, 'v, 'w) entry option \<times> ('k, 's, 'v, 'w) iter" where
  "iter_next [] = (None, [])"
| "iter_next (Empty # ts) = (None, ts)"
| "iter_next (Node e s p l r # ts) = (Some e, if r = Empty then ts else extend_path (r # ts))"

definition pending :: "('k, 's, 'v, 'w) iter \<Rightarrow> nat" where
  "pending ts = sum_list (map (\<lambda>t. case t of Empty \<Rightarrow> 0 | Node _ _ _ _ r \<Rightarrow> Suc (tsize r)) ts)"

lemma pending_simps [simp]:
  "pending [] = 0" "pending (Empty # ts) = pending ts"
  "pending (Node e s p l r # ts) = Suc (tsize r) + pending ts"
  by (simp_all add: pending_def)

lemma pending_extend_path: "t \<noteq> Empty \<Longrightarrow> pending (extend_path (t # ts)) = tsize t + pending ts"
proof (induction t arbitrary: ts)
  case (Node e s p l r)
  then show ?case by (cases "l = Empty") auto
qed simp

function iter_collect :: "('k, 's, 'v, 'w) iter \<Rightarrow> ('k, 's, 'v, 'w) entry list" where
  "iter_collect ts = (case iter_next ts of (None, _) \<Rightarrow> [] | (Some e, ts') \<Rightarrow> e # iter_collect ts')"
  by pat_completeness auto
termination
proof (relation "measure pending")
  fix ts ts' :: "('k, 's, 'v, 'w) iter" and e x
  assume "(x, ts') = iter_next ts" "x = Some e"
  then show "(ts', ts) \<in> measure pending"
    by (cases ts rule: iter_next.cases) (auto simp: pending_extend_path split: tree.splits if_splits)
qed auto

declare iter_collect.simps [simp del]

definition treap_values :: "('k, 's, 'v, 'w, 'x, 'r) treap_map \<Rightarrow> 'v list" where
  "treap_values m = map e_val (iter_collect (treap_iter m))"

definition treap_key_values :: "('k, 's, 'v, 'w, 'x, 'r) treap_map \<Rightarrow> ('k \<times> 'v) list" where
  "treap_key_values m = map (\<lambda>e. (e_key e, e_val e)) (iter_collect (treap_iter m))"

section \<open>The shared-key configuration\<close>

definition shared_next_node_dir :: "unit \<times> 'k::linorder \<Rightarrow> unit \<times> 'k \<Rightarrow> direction option" where
  "shared_next_node_dir a b =
     (if snd a < snd b then Some Left else if snd a = snd b then None else Some Right)"

definition counter_view_update :: "nat \<Rightarrow> 'k \<Rightarrow> 'v option \<Rightarrow> 'v option \<Rightarrow> nat" where
  "counter_view_update c k v old =
     (let c1 = (if v \<noteq> None then c + 1 else c) in if old \<noteq> None then c1 - 1 else c1)"

definition shared_config ::
  "'w \<Rightarrow> ('w \<Rightarrow> 'w \<Rightarrow> 'w) \<Rightarrow> ('w \<Rightarrow> 'w \<Rightarrow> 'w) \<Rightarrow> ('k::linorder, unit, 'v, 'w, nat) treap_config" where
  "shared_config w0 cons acc =
     \<lparr>next_node_dir = shared_next_node_dir, weight_empty = w0, consolidate = cons, accure = acc,
      ext_default = 0, view_update = counter_view_update, ext_len = (\<lambda>c. c),
      get_sort_key = (\<lambda>_ _. Some ()), make_sort_key = (\<lambda>_ _ _. ())\<rparr>"

section \<open>The iterators enumerate the map in key order\<close>

fun remaining :: "('k, 's, 'v, 'w) iter \<Rightarrow> ('k, 's, 'v, 'w) entry list" where
  "remaining [] = []"
| "remaining (Empty # ts) = remaining ts"
| "remaining (Node e s p l r # ts) = e # inorder r @ remaining ts"

lemma remaining_extend_path: "t \<noteq> Empty \<Longrightarrow> remaining (extend_path (t # ts)) = inorder t @ remaining ts"
proof (induction t arbitrary: ts)
  case (Node e s p l r)
  then show ?case by (cases "l = Empty") auto
qed simp

lemma extend_path_no_Empty:
  "t \<noteq> Empty \<Longrightarrow> Empty \<notin> set ts \<Longrightarrow> Empty \<notin> set (extend_path (t # ts))"
proof (induction t arbitrary: ts)
  case (Node e s p l r)
  then show ?case by (cases "l = Empty") auto
qed simp

lemma iter_collect_remaining: "Empty \<notin> set ts \<Longrightarrow> iter_collect ts = remaining ts"
proof (induction ts rule: iter_collect.induct)
  case (1 ts)
  show ?case
  proof (cases ts)
    case Nil
    then show ?thesis by (simp add: iter_collect.simps)
  next
    case (Cons t us)
    with "1.prems" obtain e s p l r where t: "t = Node e s p l r" by (cases t) auto
    let ?us = "if r = Empty then us else extend_path (r # us)"
    have "Empty \<notin> set ?us"
      using "1.prems" Cons extend_path_no_Empty [of r us] by auto
    then have "iter_collect ?us = remaining ?us"
      by (intro "1.IH") (auto simp: Cons t)
    then show ?thesis
      by (subst iter_collect.simps) (auto simp: Cons t remaining_extend_path)
  qed
qed

lemma iter_collect_treap_iter: "iter_collect (treap_iter m) = inorder (root m)"
  using extend_path_no_Empty [of "root m" "[]"] remaining_extend_path [of "root m" "[]"]
  by (auto simp: treap_iter_def iter_collect_remaining)

lemma extend_path_with_key_no_Empty:
  "t \<noteq> Empty \<Longrightarrow> Empty \<notin> set ts \<Longrightarrow> Empty \<notin> set (extend_path_with_key C sk (t # ts))"
proof (induction t arbitrary: ts)
  case (Node e s p l r)
  then show ?case
    by (cases "l = Empty"; cases "r = Empty") (auto split: option.splits direction.splits)
qed simp

context treap_contract
begin

lemma remaining_extend_path_with_key:
  assumes "t \<noteq> Empty" "ordered C (inorder t)"
  shows "remaining (extend_path_with_key C sk (t # ts)) =
    filter (\<lambda>e. \<not> klt C (skey e) sk) (inorder t) @ remaining ts"
  using assms
proof (induction t arbitrary: ts)
  case (Node e s p l r)
  have ord: "ordered C (inorder l)" "ordered C (inorder r)"
    "\<forall>x\<in>set (inorder l). klt C (skey x) (skey e)" "\<forall>x\<in>set (inorder r). klt C (skey e) (skey x)"
    using Node.prems(2) by (auto simp: ordered_node)
  have right: "filter (\<lambda>e. \<not> klt C (skey e) sk) (inorder r) = inorder r" if "\<not> klt C (skey e) sk"
    using that ord(4) by (auto simp: filter_id_conv dest: klt_trans)
  show ?case
  proof (cases sk "skey e" rule: dir_cases)
    case 1
    then have "next_node_dir C sk (skey e) = None" by simp
    moreover have "filter (\<lambda>x. \<not> klt C (skey x) sk) (inorder l) = []"
      using 1 ord(3) by (auto simp: filter_empty_conv)
    ultimately show ?thesis using 1 right by simp
  next
    case 2
    with klt_asym have "\<not> klt C (skey e) sk" by blast
    with 2 Node.IH(1) [of "Node e s p l r # ts"] ord right show ?thesis
      by (cases "l = Empty") auto
  next
    case 3
    then have "klt C (skey e) sk" by (simp add: klt_def dir_flip)
    moreover have "filter (\<lambda>e. \<not> klt C (skey e) sk) (inorder l) = []"
      using ord(3) \<open>klt C (skey e) sk\<close> by (auto simp: filter_empty_conv intro: klt_trans)
    ultimately show ?thesis
      using 3 Node.IH(2) [of ts] ord by (cases "r = Empty") auto
  qed
qed simp

end

section \<open>The contract of the key manager\<close>

text \<open>
  \<open>K\<close> is the map from the search keys present in the treap to their sort keys;
  \<open>ext_ok x K\<close> says that the external map \<open>x\<close> agrees with it.
\<close>

locale key_manager = treap_contract C
  for C :: "('k, 's, 'v, 'w, 'x) treap_config" +
  fixes ext_ok :: "'x \<Rightarrow> ('k \<rightharpoonup> 's) \<Rightarrow> bool"
  assumes ext_new: "ext_ok (ext_default C) Map.empty"
    and ext_get: "ext_ok x K \<Longrightarrow> K k = Some s \<Longrightarrow> get_sort_key C x k = Some s"
    and ext_card: "ext_ok x K \<Longrightarrow> finite (dom K) \<Longrightarrow> ext_len C x = card (dom K)"
    and ext_insert: "ext_ok x K \<Longrightarrow> finite (dom K) \<Longrightarrow> K k = None \<Longrightarrow>
      ext_ok (view_update C x k (Some v) None) (K(k \<mapsto> make_sort_key C x k v))"
    and ext_keep: "ext_ok x K \<Longrightarrow> finite (dom K) \<Longrightarrow> K k = Some (make_sort_key C x k v) \<Longrightarrow>
      ext_ok (view_update C x k (Some v) (Some v')) K"
    and ext_remove: "ext_ok x K \<Longrightarrow> finite (dom K) \<Longrightarrow> K k = Some s \<Longrightarrow>
      ext_ok (view_update C x k None (Some v)) (K(k := None))"
    and ext_absent: "ext_ok x K \<Longrightarrow> K k = None \<Longrightarrow> ext_ok (view_update C x k None None) K"
    and ext_vacant: "ext_ok x K \<Longrightarrow> K k = None \<Longrightarrow> get_sort_key C x k = Some s \<Longrightarrow> make_sort_key C x k v = s"
    and sort_key_pure: "make_sort_key C x k v = make_sort_key C y k v"

text \<open>
  The stronger contract of a manager that survives the re-insertion made by \<^verbatim>\<open>update\<close> when the
  sort key changes (\<^verbatim>\<open>update_key\<close>): there \<^verbatim>\<open>view_update\<close> runs twice, first as an update of the old
  value, then as an insertion.
\<close>

locale rekey_manager = key_manager +
  assumes ext_rekey: "ext_ok x K \<Longrightarrow> finite (dom K) \<Longrightarrow> K k = Some s \<Longrightarrow>
    ext_ok (view_update C (view_update C x k (Some v) (Some v')) k (Some v) None)
      (K(k \<mapsto> make_sort_key C x k v))"

definition sort_keys :: "('k, 's, 'v, 'w) entry list \<Rightarrow> ('k \<rightharpoonup> 's)" where
  "sort_keys es = map_of (map (\<lambda>e. (e_key e, e_sort e)) es)"

definition contents_of :: "('k, 's, 'v, 'w) entry list \<Rightarrow> ('k \<rightharpoonup> 'v \<times> 'w)" where
  "contents_of es = map_of (map (\<lambda>e. (e_key e, e_val e, e_weight e)) es)"

definition contents :: "('k, 's, 'v, 'w, 'x, 'r) treap_map \<Rightarrow> ('k \<rightharpoonup> 'v \<times> 'w)" where
  "contents m = contents_of (inorder (root m))"

definition entries_ok :: "('k, 's, 'v, 'w, 'x) treap_config \<Rightarrow> 'x \<Rightarrow> ('k, 's, 'v, 'w) entry list \<Rightarrow> bool" where
  "entries_ok C x es \<longleftrightarrow>
     distinct (map e_key es) \<and> (\<forall>e\<in>set es. e_sort e = make_sort_key C x (e_key e) (e_val e))"

definition core_ok :: "('k, 's, 'v, 'w, 'x) treap_config \<Rightarrow> ('k, 's, 'v, 'w, 'x, 'r) treap_map \<Rightarrow> bool" where
  "core_ok C m \<longleftrightarrow> treap_ok C (root m) \<and> entries_ok C (ext_map m) (inorder (root m))"

definition map_ok ::
  "('k, 's, 'v, 'w, 'x) treap_config \<Rightarrow> ('x \<Rightarrow> ('k \<rightharpoonup> 's) \<Rightarrow> bool) \<Rightarrow>
   ('k, 's, 'v, 'w, 'x, 'r) treap_map \<Rightarrow> bool" where
  "map_ok C ext_ok m \<longleftrightarrow> core_ok C m \<and> ext_ok (ext_map m) (sort_keys (inorder (root m)))"

text \<open>Replacing the entry of one key in a list with distinct keys.\<close>

definition replaced :: "'k \<Rightarrow> ('k, 's, 'v, 'w) entry list \<Rightarrow> ('k, 's, 'v, 'w) entry option \<Rightarrow>
    ('k, 's, 'v, 'w) entry list \<Rightarrow> bool" where
  "replaced k es me es' \<longleftrightarrow>
     distinct (map e_key es') \<and> set es' = {e \<in> set es. e_key e \<noteq> k} \<union> set_option me \<and>
     (\<forall>e\<in>set_option me. e_key e = k)"

lemma option_eqI: "(\<And>v. a = Some v \<longleftrightarrow> b = Some v) \<Longrightarrow> a = b"
  by (cases a; cases b) auto

lemma map_of_entries_replaced:
  assumes "distinct (map e_key es)" "replaced k es me es'"
  shows "map_of (map (\<lambda>e. (e_key e, f e)) es') =
    (map_of (map (\<lambda>e. (e_key e, f e)) es))(k := map_option f me)"
proof (rule ext)
  fix j
  let ?m = "\<lambda>es. map_of (map (\<lambda>e. (e_key e, f e)) es)"
  have eq: "?m xs j = Some v \<longleftrightarrow> (\<exists>e\<in>set xs. e_key e = j \<and> f e = v)" if "distinct (map e_key xs)"
    for xs :: "('a, 'b, 'c, 'd) entry list" and v
    using that by (subst map_of_eq_Some_iff) (auto simp: comp_def)
  have "?m es' j = Some v \<longleftrightarrow> ((?m es)(k := map_option f me)) j = Some v" for v
    using assms eq [of es v] eq [of es' v] by (cases me) (auto simp: replaced_def)
  then show "?m es' j = ((?m es)(k := map_option f me)) j"
    by (rule option_eqI)
qed

lemma contents_replaced:
  "distinct (map e_key es) \<Longrightarrow> replaced k es me es' \<Longrightarrow>
   contents_of es' = (contents_of es)(k := map_option (\<lambda>e. (e_val e, e_weight e)) me)"
  unfolding contents_of_def by (rule map_of_entries_replaced)

lemma sort_keys_replaced:
  "distinct (map e_key es) \<Longrightarrow> replaced k es me es' \<Longrightarrow>
   sort_keys es' = (sort_keys es)(k := map_option e_sort me)"
  unfolding sort_keys_def by (rule map_of_entries_replaced)

lemma finite_dom_sort_keys [simp]: "finite (dom (sort_keys es))"
  by (simp add: sort_keys_def finite_dom_map_of)

lemma dom_sort_keys: "dom (sort_keys es) = e_key ` set es"
  by (simp add: sort_keys_def dom_map_of_conv_image_fst image_image)

lemma dom_contents_of: "dom (contents_of es) = e_key ` set es"
  by (simp add: contents_of_def dom_map_of_conv_image_fst image_image)

lemma sort_keys_Some: "distinct (map e_key es) \<Longrightarrow>
  sort_keys es k = Some s \<longleftrightarrow> (\<exists>e\<in>set es. e_key e = k \<and> e_sort e = s)"
  unfolding sort_keys_def by (subst map_of_eq_Some_iff) (auto simp: comp_def)

lemma contents_of_Some: "distinct (map e_key es) \<Longrightarrow>
  contents_of es k = Some (v, w) \<longleftrightarrow> (\<exists>e\<in>set es. e_key e = k \<and> e_val e = v \<and> e_weight e = w)"
  unfolding contents_of_def by (subst map_of_eq_Some_iff) (auto simp: comp_def)

lemma at_key_None: "at_key sk es = None \<longleftrightarrow> (\<forall>e\<in>set es. skey e \<noteq> sk)"
  by (auto simp: at_key_def find_None_iff)

lemma at_key_Some:
  "distinct (map e_key es) \<Longrightarrow> at_key (s, k) es = Some e \<longleftrightarrow> e \<in> set es \<and> skey e = (s, k)"
  by (induction es) (auto simp: at_key_Cons at_key_def skey_def image_iff)

section \<open>The operations refine a finite map\<close>

context key_manager
begin

lemma replaced_splice:
  assumes "distinct (map e_key es)" "\<forall>e\<in>set es. e_key e = k \<longrightarrow> e_sort e = s"
    and "mid = (case me of None \<Rightarrow> [] | Some e \<Rightarrow> [e])" "\<forall>e\<in>set_option me. e_key e = k"
  shows "replaced k es me (below C (s, k) es @ mid @ above C (s, k) es)"
proof -
  have "klt C (skey e) (s, k) \<or> klt C (s, k) (skey e) \<longleftrightarrow> e_key e \<noteq> k" if "e \<in> set es" for e
    using that assms(2) klt_irrefl by (cases "skey e" "(s, k)" rule: dir_cases) (auto simp: skey_def)
  then have sets: "set (below C (s, k) es) \<union> set (above C (s, k) es) = {e \<in> set es. e_key e \<noteq> k}"
    by (auto simp: below_def above_def)
  have disj: "e_key ` set (below C (s, k) es) \<inter> e_key ` set (above C (s, k) es) = {}"
  proof (rule ccontr)
    assume "\<not> ?thesis"
    then obtain e f where "e \<in> set es" "f \<in> set es" "e_key e = e_key f" "klt C (skey e) (s, k)" "klt C (s, k) (skey f)"
      by (auto simp: below_def above_def)
    moreover from this have "e = f" using assms(1) by (auto simp: distinct_map dest: inj_onD)
    ultimately show False using klt_asym by blast
  qed
  have "distinct (map e_key (below C (s, k) es @ above C (s, k) es))"
    using assms(1) disj by (auto simp: below_def above_def distinct_map_filter)
  moreover have "k \<notin> e_key ` (set (below C (s, k) es) \<union> set (above C (s, k) es))"
    using sets by auto
  ultimately show ?thesis
    using assms(3,4) sets by (cases me) (auto simp: replaced_def)
qed

lemma core_ok_keys:
  assumes "core_ok C m"
  shows "distinct (map e_key (inorder (root m)))" "ordered C (inorder (root m))"
    "e \<in> set (inorder (root m)) \<Longrightarrow> e_sort e = make_sort_key C x (e_key e) (e_val e)"
  using assms sort_key_pure by (auto simp: core_ok_def entries_ok_def treap_ok_def)

lemma map_ok_core [intro]: "map_ok C ext_ok m \<Longrightarrow> core_ok C m"
  by (simp add: map_ok_def)

lemma map_ok_sort_key:
  assumes "map_ok C ext_ok m" "e \<in> set (inorder (root m))"
  shows "get_sort_key C (ext_map m) (e_key e) = Some (e_sort e)"
proof -
  have "sort_keys (inorder (root m)) (e_key e) = Some (e_sort e)"
    using assms(2) sort_keys_Some [OF core_ok_keys(1) [OF map_ok_core [OF assms(1)]]] by blast
  with assms(1) show ?thesis by (auto simp: map_ok_def intro: ext_get)
qed

lemma map_lookup_cases [consumes 1, case_names absent present]:
  assumes "map_ok C ext_ok m"
  obtains "contents m k = None" "sort_keys (inorder (root m)) k = None" "k \<notin> e_key ` set (inorder (root m))"
      "\<And>s. at_key (s, k) (inorder (root m)) = None"
  | e where "e \<in> set (inorder (root m))" "e_key e = k" "contents m k = Some (e_val e, e_weight e)"
      "sort_keys (inorder (root m)) k = Some (e_sort e)"
      "get_sort_key C (ext_map m) k = Some (e_sort e)" "at_key (e_sort e, k) (inorder (root m)) = Some e"
      "{e' \<in> set (inorder (root m)). e_key e' = k} = {e}"
proof (cases "k \<in> e_key ` set (inorder (root m))")
  case False
  moreover from this have "contents m k = None" "sort_keys (inorder (root m)) k = None"
    unfolding contents_def by (metis dom_contents_of domIff, metis dom_sort_keys domIff)
  moreover have "at_key (s, k) (inorder (root m)) = None" for s
    using calculation(1) by (auto simp: at_key_None skey_def)
  ultimately show ?thesis using that(1) by blast
next
  case True
  then obtain e where e: "e \<in> set (inorder (root m))" "e_key e = k" by auto
  note ks = core_ok_keys [OF map_ok_core [OF assms]]
  have "{e' \<in> set (inorder (root m)). e_key e' = k} = {e}"
    using ks(1) e by (auto simp: distinct_map dest: inj_onD)
  moreover have "contents m k = Some (e_val e, e_weight e)" "sort_keys (inorder (root m)) k = Some (e_sort e)"
    using e by (auto simp: contents_def contents_of_Some [OF ks(1)] sort_keys_Some [OF ks(1)])
  moreover have "at_key (e_sort e, k) (inorder (root m)) = Some e"
    using e by (simp add: at_key_Some [OF ks(1)] skey_def)
  moreover have "get_sort_key C (ext_map m) k = Some (e_sort e)"
    using map_ok_sort_key [OF assms, of e] e by simp
  ultimately show ?thesis using that(2) [of e] e by blast
qed

lemma treap_get_contents:
  assumes "map_ok C ext_ok m"
  shows "treap_get C m k = map_option fst (contents m k)"
proof -
  have get: "node_get C (root m) s k = map_option e_val (at_key (s, k) (inorder (root m)))" for s
    using core_ok_keys(2) [OF map_ok_core [OF assms]] by (rule node_get_at_key)
  show ?thesis
    using assms
  proof (cases rule: map_lookup_cases [where k = k])
    case absent
    then show ?thesis by (simp add: treap_get_def get split: option.split)
  next
    case (present e)
    show ?thesis by (simp add: treap_get_def get present(3,5,6))
  qed
qed

lemma treap_len_contents:
  assumes "map_ok C ext_ok m"
  shows "treap_len C m = card (dom (contents m))"
  using assms ext_card [of "ext_map m" "sort_keys (inorder (root m))"]
  by (simp add: treap_len_def map_ok_def contents_def dom_contents_of dom_sort_keys [symmetric])

lemma treap_new_ok: "map_ok C ext_ok (treap_new C r)" "contents (treap_new C r) = Map.empty"
  by (simp_all add: map_ok_def core_ok_def treap_new_def treap_ok_def entries_ok_def sort_keys_def ext_new
      contents_def contents_of_def ordered_def)

text \<open>Every update ends in a tree whose entries are a replacement of one key.\<close>

lemma map_ok_replaced:
  assumes "core_ok C m" "replaced k (inorder (root m)) me (inorder t)" "treap_ok C t"
    and "\<forall>e\<in>set_option me. e_sort e = make_sort_key C x (e_key e) (e_val e)"
  shows "core_ok C \<lparr>root = t, ext_map = x, rng = r\<rparr>"
    "contents \<lparr>root = t, ext_map = x, rng = r\<rparr> =
       (contents m)(k := map_option (\<lambda>e. (e_val e, e_weight e)) me)"
    "ext_ok x ((sort_keys (inorder (root m)))(k := map_option e_sort me)) \<Longrightarrow>
       map_ok C ext_ok \<lparr>root = t, ext_map = x, rng = r\<rparr>"
  using assms core_ok_keys(3) [OF assms(1)] sort_keys_replaced [OF core_ok_keys(1) [OF assms(1)] assms(2)]
    contents_replaced [OF core_ok_keys(1) [OF assms(1)] assms(2)]
  by (auto simp: map_ok_def core_ok_def entries_ok_def replaced_def contents_def)

lemma update_inner_replaced:
  assumes "core_ok C m" "updater_ok u" "treap_key u = (s, k)"
    and "\<forall>e\<in>set (inorder (root m)). e_key e = k \<longrightarrow> e_sort e = s"
    and "update_node u y (at_key (s, k) (inorder (root m))) = (me, y', res)"
    and "update_inner C u y (root m) = (t, y'', ret, fl)"
    and "mid_after (if at_key (s, k) (inorder (root m)) = None then None else me) res =
           (case ne of None \<Rightarrow> [] | Some e \<Rightarrow> [e])"
    and "\<forall>e\<in>set_option ne. e_key e = k"
  shows "treap_ok C t" "y'' = y'" "result_of u (at_key (s, k) (inorder (root m))) me res ret"
    "replaced k (inorder (root m)) ne (inorder t)"
proof -
  have tok: "treap_ok C (root m)" using assms(1) by (simp add: core_ok_def)
  show "treap_ok C t"
    using update_inner_treap_ok [OF assms(2) tok, of y] assms(6) by simp
  show "y'' = y'" "result_of u (at_key (s, k) (inorder (root m))) me res ret"
    using update_inner_result [OF assms(2) tok, of y] assms(3,5,6) by simp_all
  have "inorder t = updated_list C u y (inorder (root m))"
    using update_inner_inorder [OF assms(2) tok, of y] assms(6) by simp
  then show "replaced k (inorder (root m)) ne (inorder t)"
    using replaced_splice [OF core_ok_keys(1) [OF assms(1)] assms(4) refl assms(8)] assms(3,5,7)
    by (simp add: updated_list_def)
qed

lemma treap_insert_unfold:
  assumes "treap_insert C nx m k v w = (m', ret)"
  obtains t x r' p fl where "nx (rng m) = (r', p)"
    "update_inner C (insert_op C (node_new k v (make_sort_key C (ext_map m) k v) w p)) (ext_map m) (root m) =
       (t, x, ret, fl)"
    "m' = \<lparr>root = t, ext_map = x, rng = r'\<rparr>"
  using assms by (auto simp: treap_insert_def Let_def split: prod.splits)

lemma treap_insert_vacant_core:
  assumes "core_ok C m" "k \<notin> e_key ` set (inorder (root m))" "treap_insert C nx m k v w = (m', ret)"
  shows "core_ok C m' \<and> contents m' = (contents m)(k \<mapsto> (v, w)) \<and> ret = None \<and>
    ext_map m' = view_update C (ext_map m) k (Some v) None \<and>
    sort_keys (inorder (root m')) = (sort_keys (inorder (root m)))(k \<mapsto> make_sort_key C (ext_map m) k v)"
proof -
  let ?s = "make_sort_key C (ext_map m) k v" and ?es = "inorder (root m)"
  let ?e = "\<lparr>e_key = k, e_val = v, e_sort = ?s, e_weight = w\<rparr>"
  let ?u = "\<lambda>p. insert_op C (node_new k v ?s w p)"
  from assms(3) obtain t x r' p fl where
    ui: "update_inner C (?u p) (ext_map m) (root m) = (t, x, ret, fl)" and
    m': "m' = \<lparr>root = t, ext_map = x, rng = r'\<rparr>"
    by (rule treap_insert_unfold)
  have at: "at_key (?s, k) ?es = None"
    using assms(2) by (auto simp: at_key_None skey_def)
  have un: "update_node (?u p) (ext_map m) (at_key (?s, k) ?es) =
      (None, view_update C (ext_map m) k (Some v) None, InsertOnVacant (node_new k v ?s w p) None)"
    "treap_key (?u p) = (?s, k)"
    using at by (simp_all add: insert_op_def node_new_def Let_def skey_def)
  have keys: "\<forall>e\<in>set ?es. e_key e = k \<longrightarrow> e_sort e = ?s"
    using assms(2) by blast
  note r = update_inner_replaced [OF assms(1) updater_ok_insert_op un(2) keys un(1) ui, of "Some ?e"]
  have "treap_ok C t" "x = view_update C (ext_map m) k (Some v) None" "replaced k ?es (Some ?e) (inorder t)"
    "ret = None"
    using r by (simp_all add: mid_after_def node_new_def result_of_def at)
  moreover have "?s = make_sort_key C x k v" by (rule sort_key_pure)
  ultimately show ?thesis
    using map_ok_replaced(1,2) [OF assms(1), of k "Some ?e" t x r']
      sort_keys_replaced [OF core_ok_keys(1) [OF assms(1)], of k "Some ?e" "inorder t"]
    by (simp add: m')
qed

lemma treap_insert_vacant:
  assumes "core_ok C m" "k \<notin> e_key ` set (inorder (root m))" "treap_insert C nx m k v w = (m', ret)"
    and "ext_ok (view_update C (ext_map m) k (Some v) None)
      ((sort_keys (inorder (root m)))(k \<mapsto> make_sort_key C (ext_map m) k v))"
  shows "map_ok C ext_ok m' \<and> contents m' = (contents m)(k \<mapsto> (v, w)) \<and> ret = None"
  using treap_insert_vacant_core [OF assms(1-3)] assms(4) by (simp add: map_ok_def)

lemma treap_insert_absent:
  assumes "map_ok C ext_ok m" "contents m k = None" "treap_insert C nx m k v w = (m', ret)"
  shows "map_ok C ext_ok m' \<and> contents m' = (contents m)(k \<mapsto> (v, w)) \<and> ret = None"
  using assms(1)
proof (cases rule: map_lookup_cases [where k = k])
  case absent
  show ?thesis
    using treap_insert_vacant [OF map_ok_core [OF assms(1)] absent(3) assms(3)] assms(1)
      ext_insert [of "ext_map m" "sort_keys (inorder (root m))" k v] absent(2)
    by (simp add: map_ok_def)
qed (use assms in simp)

lemma treap_insert_present:
  assumes "map_ok C ext_ok m" "contents m k = Some (v', w')" "treap_insert C nx m k v w = (m', ret)"
    and "make_sort_key C (ext_map m) k v' = make_sort_key C (ext_map m) k v"
  shows "map_ok C ext_ok m' \<and> contents m' = (contents m)(k \<mapsto> (v, w)) \<and> ret = Some v'"
  using assms(1)
proof (cases rule: map_lookup_cases [where k = k])
  case (present e)
  let ?s = "make_sort_key C (ext_map m) k v" and ?es = "inorder (root m)"
  let ?e = "e\<lparr>e_val := v, e_weight := w\<rparr>"
  let ?u = "\<lambda>p. insert_op C (node_new k v ?s w p)"
  have s: "e_sort e = ?s" and ev: "e_val e = v'"
    using assms(2,4) present(1,2,3) core_ok_keys(3) [OF map_ok_core [OF assms(1)], of e "ext_map m"] by auto
  from assms(3) obtain t x r' p fl where
    ui: "update_inner C (?u p) (ext_map m) (root m) = (t, x, ret, fl)" and
    m': "m' = \<lparr>root = t, ext_map = x, rng = r'\<rparr>"
    by (rule treap_insert_unfold)
  have un: "update_node (?u p) (ext_map m) (at_key (?s, k) ?es) =
      (Some ?e, view_update C (ext_map m) k (Some v) (Some v'), Updated (e_weight e \<noteq> w) (Some v'))"
    "treap_key (?u p) = (?s, k)"
    using present(6) s ev by (simp_all add: insert_op_def node_new_def Let_def skey_def)
  have keys: "\<forall>e\<in>set ?es. e_key e = k \<longrightarrow> e_sort e = ?s" and at: "at_key (?s, k) ?es = Some e"
    using present(6,7) s by auto
  note r = update_inner_replaced [OF map_ok_core [OF assms(1)] updater_ok_insert_op un(2) keys un(1) ui, of "Some ?e"]
  have "treap_ok C t" "x = view_update C (ext_map m) k (Some v) (Some v')"
    "replaced k ?es (Some ?e) (inorder t)" "ret = Some v'"
    using r present(2) at by (simp_all add: mid_after_def result_of_def)
  moreover from this have "ext_ok x ((sort_keys ?es)(k := map_option e_sort (Some ?e)))"
    using ext_keep [of "ext_map m" "sort_keys ?es" k v v'] present(4) s assms(1)
    by (simp add: map_ok_def fun_upd_idem)
  moreover have "?s = make_sort_key C x k v" by (rule sort_key_pure)
  ultimately show ?thesis
    using map_ok_replaced [OF map_ok_core [OF assms(1)], of k "Some ?e" t x r'] present(2) s by (simp add: m')
qed (use assms in simp)

lemma treap_insert_spec:
  assumes "map_ok C ext_ok m" "treap_insert C nx m k v w = (m', ret)"
    and "\<And>v' w'. contents m k = Some (v', w') \<Longrightarrow>
           make_sort_key C (ext_map m) k v' = make_sort_key C (ext_map m) k v"
  shows "map_ok C ext_ok m' \<and> contents m' = (contents m)(k \<mapsto> (v, w)) \<and> ret = map_option fst (contents m k)"
proof (cases "contents m k")
  case None
  with treap_insert_absent [OF assms(1) _ assms(2)] show ?thesis by simp
next
  case (Some vw)
  then obtain v' w' where "contents m k = Some (v', w')" by (cases vw) auto
  with treap_insert_present [OF assms(1) _ assms(2)] assms(3) show ?thesis by simp
qed

lemma treap_remove_spec:
  assumes "map_ok C ext_ok m" "treap_remove C m k = (m', ret)"
  shows "map_ok C ext_ok m' \<and> contents m' = (contents m)(k := None) \<and> ret = map_option fst (contents m k)"
proof (cases "get_sort_key C (ext_map m) k")
  case None
  with assms have "m' = m" "ret = None" by (auto simp: treap_remove_def)
  moreover from assms(1) None have "contents m k = None"
    by (cases rule: map_lookup_cases [where k = k]) auto
  ultimately show ?thesis using assms(1) by (auto simp: fun_upd_idem)
next
  case (Some s)
  let ?es = "inorder (root m)" and ?u = "remove_op C (s, k)" and ?x = "ext_map m"
  obtain t x fl where ui: "update_inner C ?u ?x (root m) = (t, x, ret, fl)"
    and m': "m' = \<lparr>root = t, ext_map = x, rng = rng m\<rparr>"
    using assms(2) Some by (cases m) (auto simp: treap_remove_def Let_def split: prod.splits)
  let ?old = "at_key (s, k) ?es"
  have un: "update_node ?u ?x ?old = (?old, view_update C ?x k None (map_option e_val ?old), Delete ())"
    "treap_key ?u = (s, k)"
    by (simp_all add: remove_op_def)
  have "map_option e_val ?old = map_option fst (contents m k) \<and>
    (\<forall>e\<in>set ?es. e_key e = k \<longrightarrow> e_sort e = s) \<and>
    ext_ok (view_update C ?x k None (map_option e_val ?old)) ((sort_keys ?es)(k := None))"
    using assms(1)
  proof (cases rule: map_lookup_cases [where k = k])
    case absent
    have "(sort_keys ?es)(k := None) = sort_keys ?es" using absent(2) by (auto simp: fun_upd_idem)
    then show ?thesis
      using absent(1,3,4) ext_absent [of ?x "sort_keys ?es" k] assms(1) absent(2)
      by (auto simp: map_ok_def)
  next
    case (present e)
    have s: "e_sort e = s" using present(5) Some by simp
    then have "\<forall>e\<in>set ?es. e_key e = k \<longrightarrow> e_sort e = s" using present(7) by auto
    then show ?thesis
      using present(3,4,6) s assms(1) ext_remove [of ?x "sort_keys ?es" k s "e_val e"]
      by (simp add: map_ok_def)
  qed
  then have old: "map_option e_val ?old = map_option fst (contents m k)"
    "\<forall>e\<in>set ?es. e_key e = k \<longrightarrow> e_sort e = s"
    "ext_ok (view_update C ?x k None (map_option e_val ?old)) ((sort_keys ?es)(k := None))"
    by blast+
  note r = update_inner_replaced [OF map_ok_core [OF assms(1)] updater_ok_remove_op un(2) old(2) un(1) ui, of None]
  have "treap_ok C t" "x = view_update C ?x k None (map_option e_val ?old)" "replaced k ?es None (inorder t)"
    and ret: "result_of ?u ?old ?old (Delete ()) ret"
    using r by (simp_all add: mid_after_def)
  moreover have "ret = map_option e_val ?old"
    using ret by (cases ?old) (auto simp: result_of_def remove_op_def)
  ultimately show ?thesis
    using map_ok_replaced [OF map_ok_core [OF assms(1)], of k None t x "rng m"] old(1,3) by (simp add: m')
qed

text \<open>The entry stored for a key with contents \<open>(v, w)\<close>.\<close>

abbreviation entry_at :: "'x \<Rightarrow> 'k \<Rightarrow> 'v \<Rightarrow> 'w \<Rightarrow> ('k, 's, 'v, 'w) entry" where
  "entry_at x k v w \<equiv> \<lparr>e_key = k, e_val = v, e_sort = make_sort_key C x k v, e_weight = w\<rparr>"

lemma present_entry:
  assumes "map_ok C ext_ok m" "contents m k = Some (v, w)"
  defines "s \<equiv> make_sort_key C (ext_map m) k v"
  shows "at_key (s, k) (inorder (root m)) = Some (entry_at (ext_map m) k v w)"
    "get_sort_key C (ext_map m) k = Some s" "sort_keys (inorder (root m)) k = Some s"
    "\<forall>e\<in>set (inorder (root m)). e_key e = k \<longrightarrow> e_sort e = s"
  using assms(1)
proof (atomize (full), cases rule: map_lookup_cases [where k = k])
  case (present e)
  have "e_sort e = s"
    using core_ok_keys(3) [OF map_ok_core [OF assms(1)] present(1), of "ext_map m"] present(2,3) assms(2)
    by (simp add: s_def)
  moreover from this have "e = entry_at (ext_map m) k v w"
    using present(2,3) assms(2) by (cases e) (simp add: s_def)
  moreover have "\<forall>e'\<in>set (inorder (root m)). e_key e' = k \<longrightarrow> e_sort e' = e_sort e"
    using present(7) by auto
  ultimately show "(at_key (s, k) (inorder (root m)) = Some (entry_at (ext_map m) k v w) \<and>
      get_sort_key C (ext_map m) k = Some s) \<and> sort_keys (inorder (root m)) k = Some s \<and>
      (\<forall>e\<in>set (inorder (root m)). e_key e = k \<longrightarrow> e_sort e = s)"
    using present(4,5,6) by simp
qed (use assms in simp)

lemma treap_update_present:
  assumes "map_ok C ext_ok m" "contents m k = Some (v, w)"
    and "update_fn_ok upd (make_sort_key C (ext_map m) k v, k)" "insert_fn_ok ins"
    and upd: "upd (entry_at (ext_map m) k v w) = (e', r)"
    and "treap_update C nx m k upd ins = (m', res)"
  shows "r = Inl err \<Longrightarrow> e' = entry_at (ext_map m) k v w \<Longrightarrow>
      map_ok C ext_ok m' \<and> contents m' = contents m \<and> res = Some (Inl err)"
    and "r = Inr oc \<Longrightarrow> \<not> update_key oc \<Longrightarrow> \<not> delete_item oc \<Longrightarrow>
      make_sort_key C (ext_map m) k (e_val e') = make_sort_key C (ext_map m) k v \<Longrightarrow>
      map_ok C ext_ok m' \<and> contents m' = (contents m)(k \<mapsto> (e_val e', e_weight e')) \<and> res = Some (Inr (out oc))"
    and "r = Inr oc \<Longrightarrow> delete_item oc \<Longrightarrow>
      map_ok C ext_ok m' \<and> contents m' = (contents m)(k := None) \<and> res = Some (Inr (out oc))"
proof -
  let ?x = "ext_map m" and ?es = "inorder (root m)" and ?e = "entry_at (ext_map m) k v w"
  define s where "s = make_sort_key C ?x k v"
  let ?u = "apply_op C (s, k) upd ins"
  note pe = present_entry [OF assms(1,2), folded s_def]
  have uok: "updater_ok ?u"
    using updater_ok_apply_op [OF assms(3,4)] by (simp add: s_def)
  have key: "treap_key ?u = (s, k)" by (simp add: apply_op_def)
  obtain t x r' rv fl where ui: "update_inner C ?u (?x, rng m) (root m) = (t, (x, r'), rv, fl)"
    by (metis prod_cases4 prod.exhaust)
  note core = map_ok_core [OF assms(1)]
  note rep = update_inner_replaced [OF core uok key pe(4) _ ui]
  note fin = map_ok_replaced [OF core]
  have kk: "skey ?e = (make_sort_key C (ext_map m) k v, k)" by (simp add: skey_def)
  note ufn = assms(3) [unfolded update_fn_ok_def, rule_format, OF kk, unfolded upd]
  note pure = sort_key_pure [of ?x]
  have ext: "ext_ok ?x (sort_keys ?es)" using assms(1) by (simp add: map_ok_def)
  {
    assume r: "r = Inl err" and e': "e' = ?e"
    have un: "update_node ?u (?x, rng m) (at_key (s, k) ?es) = (Some ?e, (?x, rng m), Noop (Some (Inl err)))"
      using upd r e' pe(1) by (simp add: apply_op_def s_def)
    have "treap_ok C t" "x = ?x" "rv = Some (Inl err)" "replaced k ?es (Some ?e) (inorder t)"
      using rep [OF un, of "Some ?e"] pe(1) by (auto simp: mid_after_def result_of_def s_def)
    then show "map_ok C ext_ok m' \<and> contents m' = contents m \<and> res = Some (Inl err)"
      using fin [of k "Some ?e" t x r'] ui assms(2,6) pe(2,3) ext
      by (auto simp: treap_update_def Let_def fun_upd_idem s_def)
  next
    assume r: "r = Inr oc" and fl: "\<not> update_key oc" "\<not> delete_item oc"
      and sk: "make_sort_key C ?x k (e_val e') = make_sort_key C ?x k v"
    have e': "e_key e' = k" "e_sort e' = s" using ufn r fl by (auto simp: skey_def s_def)
    have un: "update_node ?u (?x, rng m) (at_key (s, k) ?es) =
        (Some e', (view_update C ?x k (Some (e_val e')) (Some v), rng m),
         Updated (update_weight_flag oc) (Some (Inr (out oc, None))))"
      using upd r fl pe(1) by (simp add: apply_op_def s_def)
    have "treap_ok C t" "x = view_update C ?x k (Some (e_val e')) (Some v)" "rv = Some (Inr (out oc, None))"
      "replaced k ?es (Some e') (inorder t)"
      using rep [OF un, of "Some e'"] pe(1) e' by (auto simp: mid_after_def result_of_def s_def)
    moreover from this have "ext_ok x (sort_keys ?es)"
      using ext_keep [OF ext, of k "e_val e'" v] pe(3) sk by (simp add: s_def)
    moreover have "e_sort e' = make_sort_key C x k (e_val e')"
      using e' sk pure [of k "e_val e'" x] by (simp add: s_def)
    ultimately show "map_ok C ext_ok m' \<and> contents m' = (contents m)(k \<mapsto> (e_val e', e_weight e')) \<and>
        res = Some (Inr (out oc))"
      using fin [of k "Some e'" t x r'] ui assms(6) pe(2,3) e'
      by (auto simp: treap_update_def Let_def fun_upd_idem)
  next
    assume r: "r = Inr oc" and fl: "delete_item oc"
    have un: "update_node ?u (?x, rng m) (at_key (s, k) ?es) =
        (Some e', (view_update C ?x k None (Some v), rng m), Delete (out oc, True))"
      using upd r fl pe(1) by (simp add: apply_op_def s_def)
    have hd: "handle_delete ?u d (ret, True) = Some (Inr (ret, None))" for d ret
      by (simp add: apply_op_def)
    have "treap_ok C t" "x = view_update C ?x k None (Some v)" "rv = Some (Inr (out oc, None))"
      "replaced k ?es None (inorder t)"
      using rep [OF un, of None] pe(1) by (auto simp: mid_after_def result_of_def hd)
    moreover from this have "ext_ok x ((sort_keys ?es)(k := None))"
      using ext_remove [OF ext, of k s v] pe(3) by simp
    ultimately show "map_ok C ext_ok m' \<and> contents m' = (contents m)(k := None) \<and> res = Some (Inr (out oc))"
      using fin [of k None t x r'] ui assms(6) pe(2)
      by (auto simp: treap_update_def Let_def)
  }
qed

lemma treap_update_absent:
  assumes "map_ok C ext_ok m" "contents m k = None"
    and "\<And>s. update_fn_ok upd (s, k)" "insert_fn_ok ins"
    and ins: "ins (rng m) = (r1, ri)"
    and "treap_update C nx m k upd ins = (m', res)"
  shows "ri = Inl err \<Longrightarrow> map_ok C ext_ok m' \<and> contents m' = contents m \<and> res = Some (Inl err)"
    and "ri = Inr (node_new k v (make_sort_key C (ext_map m) k v) w p, rt) \<Longrightarrow>
      map_ok C ext_ok m' \<and> contents m' = (contents m)(k \<mapsto> (v, w)) \<and> res = Some (Inr rt)"
proof -
  let ?x = "ext_map m" and ?es = "inorder (root m)"
  note core = map_ok_core [OF assms(1)]
  have vac: "sort_keys ?es k = None" "k \<notin> e_key ` set ?es" "\<And>s. at_key (s, k) ?es = None"
    using assms(1,2) by (cases rule: map_lookup_cases [where k = k]; simp)+
  have rng: "map_ok C ext_ok (m\<lparr>rng := r1\<rparr>)" "contents (m\<lparr>rng := r1\<rparr>) = contents m"
    using assms(1) by (simp_all add: map_ok_def core_ok_def contents_def)
  have ext: "ext_ok ?x (sort_keys ?es)" using assms(1) by (simp add: map_ok_def)
  {
    assume ri: "ri = Inl err"
    show "map_ok C ext_ok m' \<and> contents m' = contents m \<and> res = Some (Inl err)"
    proof (cases "get_sort_key C ?x k")
      case None
      with assms(6) ins ri have "m' = m\<lparr>rng := r1\<rparr>" "res = Some (Inl err)"
        by (simp_all add: treap_update_def)
      with rng show ?thesis by simp
    next
      case (Some s)
      let ?u = "apply_op C (s, k) upd ins"
      obtain t x r' rv fl where ui: "update_inner C ?u (?x, rng m) (root m) = (t, (x, r'), rv, fl)"
        by (metis prod_cases4 prod.exhaust)
      have un: "update_node ?u (?x, rng m) (at_key (s, k) ?es) = (None, (?x, r1), Noop (Some (Inl err)))"
        using ins ri vac by (simp add: apply_op_def)
      have key: "treap_key ?u = (s, k)" by (simp add: apply_op_def)
      have "\<forall>e\<in>set ?es. e_key e = k \<longrightarrow> e_sort e = s" using vac(2) by blast
      note rep = update_inner_replaced [OF core updater_ok_apply_op [OF assms(3,4)] key this un ui, of None]
      have "treap_ok C t" "x = ?x" "rv = Some (Inl err)" "replaced k ?es None (inorder t)"
        using rep vac(3) by (auto simp: mid_after_def result_of_def)
      then show ?thesis
        using map_ok_replaced [OF core, of k None t x r'] ui assms(2,6) Some vac(1) ext
        by (auto simp: treap_update_def Let_def fun_upd_idem)
    qed
  next
    let ?s = "make_sort_key C ?x k v"
    let ?n = "node_new k v ?s w p" and ?e = "entry_at ?x k v w"
    assume ri: "ri = Inr (?n, rt)"
    show "map_ok C ext_ok m' \<and> contents m' = (contents m)(k \<mapsto> (v, w)) \<and> res = Some (Inr rt)"
    proof (cases "get_sort_key C ?x k")
      case None
      with assms(6) ins ri have "m' = fst (treap_insert C nx (m\<lparr>rng := r1\<rparr>) k v w)" "res = Some (Inr rt)"
        by (simp_all add: treap_update_def node_new_def)
      with treap_insert_absent [OF rng(1), of k nx v w m'] rng(2) assms(2) show ?thesis
        by (cases "treap_insert C nx (m\<lparr>rng := r1\<rparr>) k v w") simp
    next
      case (Some s)
      have s: "s = ?s" using ext_vacant [OF ext vac(1) Some] by simp
      let ?u = "apply_op C (?s, k) upd ins"
      obtain t x r' rv fl where ui: "update_inner C ?u (?x, rng m) (root m) = (t, (x, r'), rv, fl)"
        by (metis prod_cases4 prod.exhaust)
      have un: "update_node ?u (?x, rng m) (at_key (?s, k) ?es) =
          (None, (view_update C ?x k (Some v) None, r1), InsertOnVacant ?n (Some (Inr (rt, None))))"
        using ins ri vac(3) by (simp add: apply_op_def node_new_def skey_def dir_None Let_def)
      have key: "treap_key ?u = (?s, k)" by (simp add: apply_op_def)
      have "\<forall>e\<in>set ?es. e_key e = k \<longrightarrow> e_sort e = ?s" using vac(2) by blast
      note rep = update_inner_replaced [OF core updater_ok_apply_op [OF assms(3,4)] key this un ui, of "Some ?e"]
      have "treap_ok C t" "x = view_update C ?x k (Some v) None" "rv = Some (Inr (rt, None))"
        "replaced k ?es (Some ?e) (inorder t)"
        using rep vac(3) by (auto simp: mid_after_def result_of_def node_new_def)
      moreover from this have "ext_ok x ((sort_keys ?es)(k \<mapsto> ?s))"
        using ext_insert [OF ext, of k v] vac(1) by simp
      moreover have "?s = make_sort_key C x k v" by (rule sort_key_pure)
      ultimately show ?thesis
        using map_ok_replaced [OF core, of k "Some ?e" t x r'] ui assms(6) Some s
        by (auto simp: treap_update_def Let_def)
    qed
  }
qed

text \<open>
  A changed sort key: the entry leaves the tree and is inserted under its new key, whatever the
  external map makes of the two calls of \<^verbatim>\<open>view_update\<close>.
\<close>

lemma treap_update_rekey_core:
  assumes "map_ok C ext_ok m" "contents m k = Some (v, w)"
    and "update_fn_ok upd (make_sort_key C (ext_map m) k v, k)" "insert_fn_ok ins"
    and upd: "upd (entry_at (ext_map m) k v w) = (e', Inr oc)"
    and oc: "update_key oc" "\<not> delete_item oc" "e_key e' = k"
    and "treap_update C nx m k upd ins = (m', res)"
  shows "core_ok C m' \<and> contents m' = (contents m)(k \<mapsto> (e_val e', e_weight e')) \<and> res = Some (Inr (out oc)) \<and>
    ext_map m' = view_update C (view_update C (ext_map m) k (Some (e_val e')) (Some v)) k (Some (e_val e')) None \<and>
    sort_keys (inorder (root m')) =
      (sort_keys (inorder (root m)))(k \<mapsto> make_sort_key C (ext_map m) k (e_val e'))"
proof -
  let ?x = "ext_map m" and ?es = "inorder (root m)" and ?v = "e_val e'"
  define s where "s = make_sort_key C ?x k v"
  let ?u = "apply_op C (s, k) upd ins"
  note pe = present_entry [OF assms(1,2), folded s_def]
  note core = map_ok_core [OF assms(1)]
  have uok: "updater_ok ?u"
    using updater_ok_apply_op [OF assms(3,4)] by (simp add: s_def)
  have key: "treap_key ?u = (s, k)" by (simp add: apply_op_def)
  obtain t x r' rv fl where ui: "update_inner C ?u (?x, rng m) (root m) = (t, (x, r'), rv, fl)"
    by (metis prod_cases4 prod.exhaust)
  have un: "update_node ?u (?x, rng m) (at_key (s, k) ?es) =
      (Some e', (view_update C ?x k (Some ?v) (Some v), rng m), Delete (out oc, False))"
    using upd oc pe(1) by (simp add: apply_op_def s_def)
  have hd: "handle_delete ?u (Some n) (ret, False) = Some (Inr (ret, Some n))" for n ret
    by (simp add: apply_op_def)
  note rep = update_inner_replaced [OF core uok key pe(4) un ui, of None]
  obtain n where n: "rv = Some (Inr (out oc, Some n))" "n_entry n = e'"
    using rep(3) pe(1) by (auto simp: mid_after_def result_of_def hd)
  have t: "treap_ok C t" "x = view_update C ?x k (Some ?v) (Some v)" "replaced k ?es None (inorder t)"
    using rep(1,2,4) by (auto simp: mid_after_def)
  let ?m1 = "\<lparr>root = t, ext_map = x, rng = r'\<rparr>"
  have m1: "core_ok C ?m1" "contents ?m1 = (contents m)(k := None)"
    using map_ok_replaced(1,2) [OF core t(3,1), of x r'] by simp_all
  have res: "m' = fst (treap_insert C nx ?m1 k ?v (e_weight e'))" "res = Some (Inr (out oc))"
    using assms(9) ui n pe(2) oc(3) by (simp_all add: treap_update_def s_def)
  have "sort_keys (inorder t) = (sort_keys ?es)(k := None)"
    using sort_keys_replaced [OF core_ok_keys(1) [OF core] t(3)] by simp
  moreover have "k \<notin> e_key ` set (inorder t)"
    using t(3) by (auto simp: replaced_def)
  moreover have "make_sort_key C x k ?v = make_sort_key C ?x k ?v" by (rule sort_key_pure)
  ultimately show ?thesis
    using treap_insert_vacant_core [OF m1(1), of k nx ?v "e_weight e'" m' "snd (treap_insert C nx ?m1 k ?v (e_weight e'))"]
      m1(2) res
    unfolding t(2) by simp
qed

end

context rekey_manager
begin

lemma treap_update_rekey:
  assumes "map_ok C ext_ok m" "contents m k = Some (v, w)"
    and "update_fn_ok upd (make_sort_key C (ext_map m) k v, k)" "insert_fn_ok ins"
    and "upd (entry_at (ext_map m) k v w) = (e', Inr oc)"
    and "update_key oc" "\<not> delete_item oc" "e_key e' = k"
    and "treap_update C nx m k upd ins = (m', res)"
  shows "map_ok C ext_ok m' \<and> contents m' = (contents m)(k \<mapsto> (e_val e', e_weight e')) \<and>
    res = Some (Inr (out oc))"
proof -
  note core = treap_update_rekey_core [OF assms]
  have "ext_ok (ext_map m) (sort_keys (inorder (root m)))"
    using assms(1) by (simp add: map_ok_def)
  from ext_rekey [OF this finite_dom_sort_keys present_entry(3) [OF assms(1,2)], of "e_val e'" v] core
  have "ext_ok (ext_map m') (sort_keys (inorder (root m')))" by simp
  with core show ?thesis by (simp add: map_ok_def)
qed

end

section \<open>The counter as a key manager\<close>

definition counter_ok :: "nat \<Rightarrow> ('k \<rightharpoonup> unit) \<Rightarrow> bool" where
  "counter_ok c K \<longleftrightarrow> c = card (dom K)"

lemma shared_treap_contract:
  assumes "\<And>v w. acc v w = cons v w" "\<And>u v w. cons (cons u v) w = cons u (cons v w)"
    and "\<And>v w. cons v w = cons w v"
  shows "treap_contract (shared_config w0 cons acc)"
  using assms
  by unfold_locales (auto simp: shared_config_def shared_next_node_dir_def prod_eq_iff split: if_splits)

lemma shared_key_manager:
  assumes "C = shared_config w0 cons acc" "treap_contract C"
  shows "key_manager C counter_ok"
  by (rule key_manager.intro [OF assms(2)])
    (auto simp: key_manager_axioms_def assms(1) shared_config_def counter_ok_def counter_view_update_def
      domIff card_Diff_singleton)

end
