(* ===== verification/Treap_Search.thy ===== *)
theory Treap_Search
  imports Treap_Map
begin

text \<open>
  \<^verbatim>\<open>crates/util/treap-map/src/search.rs\<close> and the search methods of \<^verbatim>\<open>map.rs\<close>: the binary search that
  carries the weight accumulated from the leftmost entry. The closure sees a node only through
  its key, value and own weight, so it is a function of the entry.

  The lemmas reduce the search on a tree to a scan of its in-order list for the three patterns
  of closures the pools use: one accepted position, the first accepted one, the last accepted one.
\<close>

section \<open>Definitions\<close>

datatype 'u search_direction = SAbort | SLeft | SStop | SRight 'u | SLeftOrStop | SRightOrStop 'u

fun sd_map_into :: "('u \<Rightarrow> 't) \<Rightarrow> 'u search_direction \<Rightarrow> 't search_direction" where
  "sd_map_into g SAbort = SAbort"
| "sd_map_into g SLeft = SLeft"
| "sd_map_into g SStop = SStop"
| "sd_map_into g (SRight v) = SRight (g v)"
| "sd_map_into g SLeftOrStop = SLeftOrStop"
| "sd_map_into g (SRightOrStop v) = SRightOrStop (g v)"

datatype ('k, 's, 'v, 'w, 'u) search_result =
    Abort | LeftMost | Found 'u "('k, 's, 'v, 'w) entry" | RightMost 'u

fun maybe_value :: "('k, 's, 'v, 'w, 'u) search_result \<Rightarrow> 'v option" where
  "maybe_value (Found _ e) = Some (e_val e)"
| "maybe_value _ = None"

text \<open>
  One iteration of the loop per recursive call. A left move clears \<open>all_right\<close>, a right move
  clears \<open>all_left\<close>; \<open>cand\<close> is \<^verbatim>\<open>candidate_result\<close>.
\<close>

fun weight_search ::
  "('u \<Rightarrow> 'u \<Rightarrow> 'u) \<Rightarrow> ('w \<Rightarrow> 'u) \<Rightarrow> ('u \<Rightarrow> ('k, 's, 'v, 'w) entry \<Rightarrow> 'u search_direction) \<Rightarrow>
   ('k, 's, 'v, 'w) tree \<Rightarrow> 'u \<Rightarrow> ('k, 's, 'v, 'w, 'u) search_result option \<Rightarrow> bool \<Rightarrow> bool \<Rightarrow>
   ('k, 's, 'v, 'w, 'u) search_result" where
  "weight_search cons ex f Empty base cand al ar =
     (case cand of Some res \<Rightarrow> res | None \<Rightarrow> Abort)"
| "weight_search cons ex f (Node e s p l r) base cand al ar =
     (let left_weight = (case l of Empty \<Rightarrow> base | Node _ ls _ _ _ \<Rightarrow> cons base (ex ls));
          found = Found left_weight e;
          go_left = (\<lambda>cand.
            if l \<noteq> Empty then weight_search cons ex f l base cand al False
            else case cand of
                   Some res \<Rightarrow> res
                 | None \<Rightarrow> (if al then LeftMost else Abort));
          go_right = (\<lambda>w cand.
            if r \<noteq> Empty then weight_search cons ex f r w cand False ar
            else case cand of
                   Some res \<Rightarrow> res
                 | None \<Rightarrow> (if ar then RightMost w else Abort))
      in case f left_weight e of
           SAbort \<Rightarrow> (case cand of Some res \<Rightarrow> res | None \<Rightarrow> Abort)
         | SStop \<Rightarrow> found
         | SLeft \<Rightarrow> go_left cand
         | SLeftOrStop \<Rightarrow> go_left (Some found)
         | SRight w \<Rightarrow> go_right w cand
         | SRightOrStop w \<Rightarrow> go_right w (Some found))"

definition accumulate_weight_search ::
  "'u \<Rightarrow> ('u \<Rightarrow> 'u \<Rightarrow> 'u) \<Rightarrow> ('k, 's, 'v, 'w) tree \<Rightarrow>
   ('u \<Rightarrow> ('k, 's, 'v, 'w) entry \<Rightarrow> 'u search_direction) \<Rightarrow> ('w \<Rightarrow> 'u) \<Rightarrow> ('k, 's, 'v, 'w, 'u) search_result" where
  "accumulate_weight_search w0 cons t f ex = weight_search cons ex f t w0 None True True"

definition treap_search ::
  "('k, 's, 'v, 'w, 'x) treap_config \<Rightarrow> ('k, 's, 'v, 'w, 'x, 'r) treap_map \<Rightarrow>
   ('w \<Rightarrow> ('k, 's, 'v, 'w) entry \<Rightarrow> 'w search_direction) \<Rightarrow> ('k, 's, 'v, 'w, 'w) search_result option" where
  "treap_search C m f =
     (if root m = Empty then None
      else Some (accumulate_weight_search (weight_empty C) (consolidate C) (root m) f (\<lambda>w. w)))"

definition treap_search_no_weight ::
  "('k, 's, 'v, 'w, 'x, 'r) treap_map \<Rightarrow> (('k, 's, 'v, 'w) entry \<Rightarrow> unit search_direction) \<Rightarrow>
   ('k, 's, 'v, 'w, unit) search_result option" where
  "treap_search_no_weight m f =
     (if root m = Empty then None
      else Some (accumulate_weight_search () (\<lambda>_ _. ()) (root m)
             (\<lambda>_ e. sd_map_into (\<lambda>_. ()) (f e)) (\<lambda>_. ())))"

definition by_weight ::
  "('k, 's, 'v, 'w::linorder, 'x) treap_config \<Rightarrow> 'w \<Rightarrow> 'w \<Rightarrow> ('k, 's, 'v, 'w) entry \<Rightarrow> 'w search_direction" where
  "by_weight C weight base mid =
     (if weight < base then SLeft
      else let right_base = consolidate C base (e_weight mid)
           in if weight < right_base then SStop else SRight right_base)"

definition treap_get_by_weight ::
  "('k, 's, 'v, 'w::linorder, 'x) treap_config \<Rightarrow> ('k, 's, 'v, 'w, 'x, 'r) treap_map \<Rightarrow> 'w \<Rightarrow> 'v option" where
  "treap_get_by_weight C m weight =
     (case treap_search C m (by_weight C weight) of
        None \<Rightarrow> None
      | Some res \<Rightarrow> maybe_value res)"

section \<open>The search as a scan\<close>

text \<open>Every entry with the weight accumulated before it and the direction the closure answers.\<close>

fun scan :: "('u \<Rightarrow> 'u \<Rightarrow> 'u) \<Rightarrow> ('w \<Rightarrow> 'u) \<Rightarrow> ('u \<Rightarrow> ('k, 's, 'v, 'w) entry \<Rightarrow> 'u search_direction) \<Rightarrow>
    'u \<Rightarrow> ('k, 's, 'v, 'w) entry list \<Rightarrow> (('k, 's, 'v, 'w) entry \<times> 'u \<times> 'u search_direction) list" where
  "scan cons ex f base [] = []"
| "scan cons ex f base (e # es) = (e, base, f base e) # scan cons ex f (cons base (ex (e_weight e))) es"

definition acc_weight :: "('u \<Rightarrow> 'u \<Rightarrow> 'u) \<Rightarrow> ('w \<Rightarrow> 'u) \<Rightarrow> 'u \<Rightarrow> ('k, 's, 'v, 'w) entry list \<Rightarrow> 'u" where
  "acc_weight cons ex base es = foldl cons base (map (\<lambda>e. ex (e_weight e)) es)"

lemma acc_weight_simps [simp]:
  "acc_weight cons ex base [] = base"
  "acc_weight cons ex base (e # es) = acc_weight cons ex (cons base (ex (e_weight e))) es"
  "acc_weight cons ex base (es @ es') = acc_weight cons ex (acc_weight cons ex base es) es'"
  by (simp_all add: acc_weight_def)

lemma scan_append:
  "scan cons ex f base (es @ es') = scan cons ex f base es @ scan cons ex f (acc_weight cons ex base es) es'"
  by (induction es arbitrary: base) simp_all

lemma map_fst_scan [simp]: "map fst (scan cons ex f base es) = es"
  by (induction es arbitrary: base) simp_all

lemma scan_eq_Nil [simp]: "scan cons ex f base es = [] \<longleftrightarrow> es = []"
  by (cases es) simp_all

lemma scan_nth:
  "i < length es \<Longrightarrow> scan cons ex f base es ! i =
     (es ! i, acc_weight cons ex base (take i es), f (acc_weight cons ex base (take i es)) (es ! i))"
proof (induction es arbitrary: base i)
  case (Cons e es)
  then show ?case by (cases i) auto
qed simp

lemma length_scan [simp]: "length (scan cons ex f base es) = length es"
  by (induction es arbitrary: base) simp_all

text \<open>The closures move right with exactly the weight of the prefix that ends at the entry.\<close>

definition carries :: "('u \<Rightarrow> 'u \<Rightarrow> 'u) \<Rightarrow> ('w \<Rightarrow> 'u) \<Rightarrow>
    ('u \<Rightarrow> ('k, 's, 'v, 'w) entry \<Rightarrow> 'u search_direction) \<Rightarrow> bool" where
  "carries cons ex f \<longleftrightarrow>
     (\<forall>b e w. f b e = SRight w \<or> f b e = SRightOrStop w \<longrightarrow> w = cons b (ex (e_weight e)))"

fun goes_right :: "'e \<times> 'u \<times> 'u search_direction \<Rightarrow> bool" where
  "goes_right (_, _, SRight _) = True"
| "goes_right (_, _, SRightOrStop _) = True"
| "goes_right _ = False"

fun goes_left :: "'e \<times> 'u \<times> 'u search_direction \<Rightarrow> bool" where
  "goes_left (_, _, SLeft) = True"
| "goes_left (_, _, SLeftOrStop) = True"
| "goes_left _ = False"

abbreviation "only_right \<equiv> \<lambda>(e, b, d). \<exists>w. d = SRight w"
abbreviation "right_or_stop \<equiv> \<lambda>(e, b, d). \<exists>w. d = SRightOrStop w"
abbreviation "only_left \<equiv> \<lambda>(e, b, d). d = SLeft"
abbreviation "left_or_stop \<equiv> \<lambda>(e, b, d). d = SLeftOrStop"

fun found_at :: "('k, 's, 'v, 'w) entry \<times> 'u \<times> 'u search_direction \<Rightarrow> ('k, 's, 'v, 'w, 'u) search_result" where
  "found_at (e, b, _) = Found b e"

lemma mid_split2:
  assumes "A @ x # B = rs @ ls"
  obtains (left) rs' where "rs = A @ x # rs'" "B = rs' @ ls"
  | (right) ls' where "ls = ls' @ x # B" "A = rs @ ls'"
  using assms by (auto simp: append_eq_append_conv2 append_eq_Cons_conv Cons_eq_append_conv)

text \<open>The answer of the closure at position \<open>i\<close>, given the weight of the prefix before it.\<close>

abbreviation prefix_weight where
  "prefix_weight cons ex w0 es i \<equiv> acc_weight cons ex w0 (take i es)"

abbreviation answer where
  "answer cons ex w0 f es i \<equiv> f (prefix_weight cons ex w0 es i) (es ! i)"

lemma list_all_take_scan:
  "list_all P (take i (scan cons ex f b es)) \<longleftrightarrow> (\<forall>j < min i (length es). P (scan cons ex f b es ! j))"
  by (auto simp: list_all_length)

lemma list_all_drop_scan:
  "list_all P (drop i (scan cons ex f b es)) \<longleftrightarrow> (\<forall>j. i \<le> j \<and> j < length es \<longrightarrow> P (scan cons ex f b es ! j))"
  by (auto simp: list_all_length) (metis add_diff_inverse_nat diff_less_mono not_le)

locale weight_view = treap_contract C
  for C :: "('k, 's, 'v, 'w, 'x) treap_config" +
  fixes cons :: "'u \<Rightarrow> 'u \<Rightarrow> 'u" and ex :: "'w \<Rightarrow> 'u"
  assumes cons_assoc: "cons (cons a b) c = cons a (cons b c)"
    and ex_consolidate: "ex (consolidate C v w) = cons (ex v) (ex w)"
begin

lemma acc_wsum: "es \<noteq> [] \<Longrightarrow> acc_weight cons ex base es = cons base (ex (wsum C (map e_weight es)))"
proof (induction es arbitrary: base rule: rev_induct)
  case (snoc e es)
  show ?case
  proof (cases "es = []")
    case False
    then have "wsum C (map e_weight es @ [e_weight e]) = consolidate C (wsum C (map e_weight es)) (e_weight e)"
      using wsum_append [of "map e_weight es" "[e_weight e]"] by (simp add: wsum_def)
    with snoc.IH [OF False] show ?thesis by (simp add: ex_consolidate cons_assoc)
  qed (simp add: wsum_def)
qed simp

lemma left_weight:
  assumes "sums_ok C l"
  shows "(case l of Empty \<Rightarrow> base | Node _ ls _ _ _ \<Rightarrow> cons base (ex ls)) = acc_weight cons ex base (inorder l)"
proof (cases l)
  case (Node e s p l' r')
  with n_sum_wsum [OF assms] acc_wsum [of "inorder l" base] show ?thesis by simp
qed simp

text \<open>One accepted position: everything before it points right, everything after it left.\<close>

lemma search_stop:
  assumes "carries cons ex f" "sums_ok C t"
    and "scan cons ex f base (inorder t) = rs @ y # ls" "snd (snd y) = SStop"
    and "list_all goes_right rs" "list_all goes_left ls"
  shows "weight_search cons ex f t base cand al ar = found_at y"
  using assms(2-6)
proof (induction t arbitrary: base cand al ar rs ls)
  case (Node e s p l r)
  let ?b = "acc_weight cons ex base (inorder l)"
  let ?x = "(e, ?b, f ?b e)" and ?A = "scan cons ex f base (inorder l)"
    and ?B = "scan cons ex f (cons ?b (ex (e_weight e))) (inorder r)"
  have carry: "w = cons ?b (ex (e_weight e))" if "f ?b e = SRight w \<or> f ?b e = SRightOrStop w" for w
    using assms(1) that by (auto simp: carries_def)
  note lw = left_weight [of l base]
  from Node.prems(2) have eq: "?A @ ?x # ?B = rs @ y # ls" by (simp add: scan_append)
  then show ?case
  proof (cases rule: mid_split2)
    case (left rs')
    then have "goes_right ?x" using Node.prems(4) by simp
    moreover have "r \<noteq> Empty" using left by (cases r) auto
    moreover have "weight_search cons ex f r (cons ?b (ex (e_weight e))) cand' False ar = found_at y" for cand'
      using Node.IH(2) left Node.prems by simp
    ultimately show ?thesis
      using lw Node.prems(1) carry by (auto simp: Let_def elim!: goes_right.elims)
  next
    case (right ls')
    show ?thesis
    proof (cases ls')
      case Nil
      with right have "y = ?x" by simp
      with Node.prems(1,3) lw show ?thesis by (simp add: Let_def)
    next
      case (Cons z zs)
      with right have ls: "ls = zs @ ?x # ?B" "?A = rs @ y # zs" by auto
      then have "goes_left ?x" using Node.prems(5) by simp
      moreover have "l \<noteq> Empty" using ls by (cases l) auto
      moreover have "weight_search cons ex f l base cand' al False = found_at y" for cand'
        using Node.IH(1) ls Node.prems by simp
      ultimately show ?thesis
        using lw Node.prems(1) by (auto simp: Let_def elim!: goes_left.elims)
    qed
  qed
qed simp

text \<open>The first accepted position.\<close>

lemma search_first:
  assumes "carries cons ex f" "sums_ok C t" "t \<noteq> Empty"
    and "scan cons ex f base (inorder t) = rs @ ls"
    and "list_all only_right rs" "list_all left_or_stop ls"
  shows "weight_search cons ex f t base cand al ar =
    (if ls \<noteq> [] then found_at (hd ls)
     else case cand of
            Some res \<Rightarrow> res
          | None \<Rightarrow> (if ar then RightMost (acc_weight cons ex base (inorder t)) else Abort))"
  using assms(2-6)
proof (induction t arbitrary: base cand al ar rs ls)
  case (Node e s p l r)
  let ?b = "acc_weight cons ex base (inorder l)"
  let ?x = "(e, ?b, f ?b e)" and ?A = "scan cons ex f base (inorder l)"
    and ?B = "scan cons ex f (cons ?b (ex (e_weight e))) (inorder r)"
  have carry: "w = cons ?b (ex (e_weight e))" if "f ?b e = SRight w" for w
    using assms(1) that by (auto simp: carries_def)
  note lw = left_weight [of l base]
  from Node.prems(3) have eq: "?A @ ?x # ?B = rs @ ls" by (simp add: scan_append)
  then show ?case
  proof (cases rule: mid_split2)
    case (left rs')
    then obtain w where "f ?b e = SRight w" using Node.prems(4) by auto
    with carry have fx: "f ?b e = SRight (cons ?b (ex (e_weight e)))" by simp
    show ?thesis
    proof (cases "r = Empty")
      case True
      with left have "ls = []" by simp
      with fx True lw Node.prems(1) show ?thesis by (simp add: Let_def split: option.split)
    next
      case False
      with Node.IH(2) [of "cons ?b (ex (e_weight e))" rs' ls cand False ar] left Node.prems fx lw
      show ?thesis by (simp add: Let_def split: option.split)
    qed
  next
    case (right ls')
    then have fx: "f ?b e = SLeftOrStop" using Node.prems(5) by simp
    show ?thesis
    proof (cases "l = Empty")
      case True
      with right have "ls' = []" by simp
      with right fx True lw Node.prems(1) show ?thesis by (simp add: Let_def split: option.split)
    next
      case False
      with Node.IH(1) [of base rs ls' "Some (Found ?b e)" al False] right Node.prems fx lw
      show ?thesis by (cases ls') (simp_all add: Let_def split: option.split)
    qed
  qed
qed simp

text \<open>The last accepted position, behind a prefix that is only passed over.\<close>

lemma search_last:
  assumes "carries cons ex f" "sums_ok C t" "t \<noteq> Empty"
    and "scan cons ex f base (inorder t) = xs @ ys @ ls"
    and "list_all only_right xs" "list_all right_or_stop ys" "list_all only_left ls"
  shows "weight_search cons ex f t base cand al ar =
    (if ys \<noteq> [] then found_at (last ys)
     else case cand of
            Some res \<Rightarrow> res
          | None \<Rightarrow>
              (if xs = [] \<and> al then LeftMost
               else if ls = [] \<and> ar then RightMost (acc_weight cons ex base (inorder t))
               else Abort))"
  using assms(2-7)
proof (induction t arbitrary: base cand al ar xs ys ls)
  case (Node e s p l r)
  let ?b = "acc_weight cons ex base (inorder l)"
  let ?x = "(e, ?b, f ?b e)" and ?A = "scan cons ex f base (inorder l)"
    and ?b' = "cons (acc_weight cons ex base (inorder l)) (ex (e_weight e))"
  let ?B = "scan cons ex f ?b' (inorder r)"
  have carry: "w = ?b'" if "f ?b e = SRight w \<or> f ?b e = SRightOrStop w" for w
    using assms(1) that by (auto simp: carries_def)
  note lw = left_weight [of l base]
  from Node.prems(3) have eq: "?A @ ?x # ?B = xs @ (ys @ ls)" by (simp add: scan_append)
  then show ?case
  proof (cases rule: mid_split2)
    case (left xs')
    then obtain w where "f ?b e = SRight w" using Node.prems(4) by auto
    with carry have fx: "f ?b e = SRight ?b'" by simp
    show ?thesis
    proof (cases "r = Empty")
      case True
      with left have "ys = []" "ls = []" by simp_all
      with fx True lw left Node.prems(1) show ?thesis by (simp add: Let_def split: option.split)
    next
      case False
      with Node.IH(2) [of ?b' xs' ys ls cand False ar] left Node.prems fx lw
      show ?thesis by (cases "ys = []"; cases cand) (simp_all add: Let_def)
    qed
  next
    case (right zs)
    from right(1) [symmetric] show ?thesis
    proof (cases rule: mid_split2)
      case (left ys')
      then obtain w where "f ?b e = SRightOrStop w" using Node.prems(5) by auto
      with carry have fx: "f ?b e = SRightOrStop ?b'" by simp
      show ?thesis
      proof (cases "r = Empty")
        case True
        with left have "ys' = []" "ls = []" by simp_all
        with fx True lw left Node.prems(1) show ?thesis by (simp add: Let_def split: option.split)
      next
        case False
        with Node.IH(2) [of ?b' "[]" ys' ls "Some (Found ?b e)" False ar] left Node.prems fx lw
        show ?thesis by (cases "ys' = []") (simp_all add: Let_def split: option.split)
      qed
    next
      case (right ls')
      then have fx: "f ?b e = SLeft" using Node.prems(6) by simp
      show ?thesis
      proof (cases "l = Empty")
        case True
        with right \<open>?A = xs @ zs\<close> have "xs = []" "ys = []" "ls' = []" by simp_all
        with right fx True lw Node.prems(1) show ?thesis by (simp add: Let_def split: option.split)
      next
        case False
        with Node.IH(1) [of base xs ys ls' cand al False] right \<open>?A = xs @ zs\<close> Node.prems fx lw
        show ?thesis by (cases "ys = []"; cases cand) (simp_all add: Let_def)
      qed
    qed
  qed
qed simp

lemma search_stop_nth:
  assumes "carries cons ex f" "sums_ok C t" and es: "es = inorder t" and i: "i < length es"
    and "answer cons ex w0 f es i = SStop"
    and "\<And>j. j < i \<Longrightarrow> goes_right ((), w0, answer cons ex w0 f es j)"
    and "\<And>j. i < j \<Longrightarrow> j < length es \<Longrightarrow> goes_left ((), w0, answer cons ex w0 f es j)"
  shows "accumulate_weight_search w0 cons t f ex = Found (prefix_weight cons ex w0 es i) (es ! i)"
proof -
  let ?sc = "scan cons ex f w0 es"
  have "goes_right x = goes_right ((), w0, snd (snd x))" "goes_left x = goes_left ((), w0, snd (snd x))"
    for x :: "('k, 's, 'v, 'w) entry \<times> 'u \<times> 'u search_direction"
    by (cases x; cases "snd (snd x)"; simp)+
  then have "list_all goes_right (take i ?sc)" "list_all goes_left (drop (Suc i) ?sc)"
    using assms(6,7) i by (auto simp: list_all_take_scan list_all_drop_scan scan_nth)
  moreover have "?sc = take i ?sc @ ?sc ! i # drop (Suc i) ?sc"
    using i by (simp add: id_take_nth_drop)
  ultimately have "weight_search cons ex f t w0 None True True = found_at (?sc ! i)"
    using assms(1,2,5) es i by (intro search_stop) (auto simp: scan_nth)
  then show ?thesis
    using i by (simp add: accumulate_weight_search_def scan_nth)
qed

lemma search_first_nth:
  assumes "carries cons ex f" "sums_ok C t" "t \<noteq> Empty" and es: "es = inorder t" and i: "i \<le> length es"
    and "\<And>j. j < i \<Longrightarrow> \<exists>w. answer cons ex w0 f es j = SRight w"
    and "\<And>j. i \<le> j \<Longrightarrow> j < length es \<Longrightarrow> answer cons ex w0 f es j = SLeftOrStop"
  shows "accumulate_weight_search w0 cons t f ex =
    (if i < length es then Found (prefix_weight cons ex w0 es i) (es ! i)
     else RightMost (acc_weight cons ex w0 es))"
proof -
  let ?sc = "scan cons ex f w0 es"
  have "list_all only_right (take i ?sc)" "list_all left_or_stop (drop i ?sc)"
    using assms(6,7) i by (auto simp: list_all_take_scan list_all_drop_scan scan_nth)
  then have "weight_search cons ex f t w0 None True True =
      (if drop i ?sc \<noteq> [] then found_at (hd (drop i ?sc)) else RightMost (acc_weight cons ex w0 es))"
    using assms(1,2,3) es by (subst search_first [of f t w0 "take i ?sc" "drop i ?sc"]) auto
  then show ?thesis
    using i by (auto simp: accumulate_weight_search_def hd_drop_conv_nth scan_nth)
qed

lemma search_last_nth:
  assumes "carries cons ex f" "sums_ok C t" "t \<noteq> Empty" and es: "es = inorder t" and i: "a \<le> i" "i \<le> length es"
    and "\<And>j. j < a \<Longrightarrow> \<exists>w. answer cons ex w0 f es j = SRight w"
    and "\<And>j. a \<le> j \<Longrightarrow> j < i \<Longrightarrow> \<exists>w. answer cons ex w0 f es j = SRightOrStop w"
    and "\<And>j. i \<le> j \<Longrightarrow> j < length es \<Longrightarrow> answer cons ex w0 f es j = SLeft"
  shows "accumulate_weight_search w0 cons t f ex =
    (if a < i then Found (prefix_weight cons ex w0 es (i - 1)) (es ! (i - 1))
     else if i = 0 then LeftMost
     else if i = length es then RightMost (acc_weight cons ex w0 es)
     else Abort)"
proof -
  let ?sc = "scan cons ex f w0 es"
  let ?xs = "take a ?sc" and ?ys = "drop a (take i ?sc)" and ?ls = "drop i ?sc"
  have es0: "es \<noteq> []" using assms(3) es inorder_eq_Nil by auto
  have "list_all right_or_stop ?ys"
    using assms(8) i by (auto simp: list_all_length scan_nth)
  moreover have "list_all only_right ?xs" "list_all only_left ?ls"
    using assms(7,9) i by (auto simp: list_all_take_scan list_all_drop_scan scan_nth)
  moreover have "?sc = ?xs @ ?ys @ ?ls"
    using i by (metis append.assoc append_take_drop_id min.absorb1 take_take)
  ultimately have "weight_search cons ex f t w0 None True True =
      (if ?ys \<noteq> [] then found_at (last ?ys)
       else if ?xs = [] then LeftMost else if ?ls = [] then RightMost (acc_weight cons ex w0 es) else Abort)"
    using assms(1,2,3) es by (subst search_last [of f t w0 ?xs ?ys ?ls]) auto
  moreover have "last ?ys = ?sc ! (i - 1)" if "a < i"
    using that i by (simp add: last_conv_nth)
  ultimately show ?thesis
    using i es0 by (auto simp: accumulate_weight_search_def scan_nth)
qed

end

text \<open>The two views the map itself uses: the whole weight, and no weight at all.\<close>

sublocale treap_contract \<subseteq> self_view: weight_view C "consolidate C" "\<lambda>w. w"
  by unfold_locales (simp_all add: consolidate_assoc)

sublocale treap_contract \<subseteq> unit_view: weight_view C "\<lambda>_ _. ()" "\<lambda>_. ()"
  by unfold_locales simp_all

section \<open>Lookup by accumulated weight\<close>

text \<open>The weight of the first \<open>i\<close> entries of a map, accumulated from the left.\<close>

definition weight_before :: "('k, 's, 'v, 'w, 'x) treap_config \<Rightarrow> ('k, 's, 'v, 'w, 'x, 'r) treap_map \<Rightarrow> nat \<Rightarrow> 'w" where
  "weight_before C m i = prefix_weight (consolidate C) (\<lambda>w. w) (weight_empty C) (inorder (root m)) i"

lemma weight_before_Suc:
  "i < length (inorder (root m)) \<Longrightarrow>
   weight_before C m (Suc i) = consolidate C (weight_before C m i) (e_weight (inorder (root m) ! i))"
  by (simp add: weight_before_def take_Suc_conv_app_nth)

lemma weight_before_0 [simp]: "weight_before C m 0 = weight_empty C"
  by (simp add: weight_before_def)

locale monotone_weights = treap_contract C
  for C :: "('k, 's, 'v, 'w::linorder, 'x) treap_config" +
  assumes grows: "a \<le> consolidate C a b"
begin

lemma weight_before_mono:
  assumes "i \<le> j" "j \<le> length (inorder (root m))"
  shows "weight_before C m i \<le> weight_before C m j"
  using assms
proof (induction j)
  case (Suc j)
  then show ?case
    using grows order_trans by (cases "i = Suc j") (fastforce simp: weight_before_Suc)+
qed simp

lemma by_weight_answer:
  assumes "j < length (inorder (root m))"
  shows "by_weight C q (weight_before C m j) (inorder (root m) ! j) =
    (if q < weight_before C m j then SLeft
     else if q < weight_before C m (Suc j) then SStop else SRight (weight_before C m (Suc j)))"
  using assms by (simp add: by_weight_def weight_before_Suc Let_def)

lemma get_by_weight_unfold:
  "treap_get_by_weight C m q =
     (if root m = Empty then None
      else maybe_value (accumulate_weight_search (weight_empty C) (consolidate C) (root m) (by_weight C q) (\<lambda>w. w)))"
  by (simp add: treap_get_by_weight_def treap_search_def)

lemma carries_by_weight: "carries (consolidate C) (\<lambda>w. w) (by_weight C q)"
  by (auto simp: carries_def by_weight_def Let_def split: if_splits)

lemma get_by_weight_hit:
  assumes "sums_ok C (root m)" "i < length (inorder (root m))"
    and "weight_before C m i \<le> q" "q < weight_before C m (Suc i)"
  shows "treap_get_by_weight C m q = Some (e_val (inorder (root m) ! i))"
proof -
  let ?es = "inorder (root m)"
  note ans = by_weight_answer [of _ m q, unfolded weight_before_def]
  have mono: "weight_before C m j \<le> q" if "j \<le> i" for j
    using weight_before_mono [of j i m] that assms by simp
  have mono': "q < weight_before C m j" if "i < j" "j \<le> length ?es" for j
    using weight_before_mono [of "Suc i" j m] that assms by simp
  have "accumulate_weight_search (weight_empty C) (consolidate C) (root m) (by_weight C q) (\<lambda>w. w) =
      Found (weight_before C m i) (?es ! i)"
    unfolding weight_before_def
  proof (rule self_view.search_stop_nth [OF carries_by_weight assms(1) refl assms(2)])
    show "by_weight C q (prefix_weight (consolidate C) (\<lambda>w. w) (weight_empty C) ?es i) (?es ! i) = SStop"
      using assms(2,3,4) ans [of i] by (simp add: weight_before_def)
  next
    fix j assume "j < i"
    then show "goes_right ((), weight_empty C,
        by_weight C q (prefix_weight (consolidate C) (\<lambda>w. w) (weight_empty C) ?es j) (?es ! j))"
      using ans [of j] assms(2) mono [of j] mono [of "Suc j"] by (simp add: weight_before_def leD)
  next
    fix j assume "i < j" "j < length ?es"
    then show "goes_left ((), weight_empty C,
        by_weight C q (prefix_weight (consolidate C) (\<lambda>w. w) (weight_empty C) ?es j) (?es ! j))"
      using ans [of j] mono' [of j] by (simp add: weight_before_def)
  qed
  moreover have "root m \<noteq> Empty" using assms(2) by auto
  ultimately show ?thesis by (simp add: get_by_weight_unfold)
qed

lemma get_by_weight_beyond:
  assumes "sums_ok C (root m)" "weight_before C m (length (inorder (root m))) \<le> q"
  shows "treap_get_by_weight C m q = None"
proof (cases "root m = Empty")
  case False
  let ?es = "inorder (root m)"
  note ans = by_weight_answer [of _ m q, unfolded weight_before_def]
  have mono: "weight_before C m j \<le> q" if "j \<le> length ?es" for j
    using weight_before_mono [of j "length ?es" m] that assms by simp
  have "accumulate_weight_search (weight_empty C) (consolidate C) (root m) (by_weight C q) (\<lambda>w. w) =
      RightMost (acc_weight (consolidate C) (\<lambda>w. w) (weight_empty C) ?es)"
  proof (subst self_view.search_first_nth [OF carries_by_weight assms(1) False refl, of "length ?es"])
    fix j assume "j < length ?es"
    then show "\<exists>w. by_weight C q (prefix_weight (consolidate C) (\<lambda>w. w) (weight_empty C) ?es j) (?es ! j) = SRight w"
      using ans [of j] mono [of j] mono [of "Suc j"] by (simp add: weight_before_def leD)
  qed simp_all
  then show ?thesis by (simp add: get_by_weight_unfold)
qed (simp add: get_by_weight_unfold)

end

text \<open>The blanket implementation of \<^verbatim>\<open>ConsoliableWeight\<close> for types with \<^verbatim>\<open>Add\<close> and \<^verbatim>\<open>AddAssign\<close>.\<close>

definition add_config :: "('k::linorder, unit, 'v, nat, nat) treap_config" where
  "add_config = shared_config 0 (+) (+)"

lemma add_treap_contract: "treap_contract add_config"
  unfolding add_config_def by (rule shared_treap_contract) simp_all

interpretation add_map: key_manager add_config counter_ok
  by (rule shared_key_manager [OF add_config_def add_treap_contract])

interpretation add_weights: monotone_weights add_config
  by unfold_locales (simp add: add_config_def shared_config_def)

end
