(* ===== verification/Treap_Properties.thy ===== *)
theory Treap_Properties
  imports Treap_Search
begin

text \<open>
  The properties of the treap crate: its operations refine a finite map whatever the
  configuration, the treap stays consistent, the iterators enumerate in key order, lookups by
  weight find the entry that covers the weight. Every configuration is described by the
  contracts \<open>treap_contract\<close>, \<open>key_manager\<close> and \<open>rekey_manager\<close>; the examples evaluate the
  additive configuration \<open>add_config\<close> with a small linear generator.
\<close>

definition lcg :: "nat \<Rightarrow> nat \<times> nat" where
  "lcg r = ((r * 5 + 3) mod 17, r)"

definition demo_map :: "(nat, unit, nat, nat, nat, nat) treap_map" where
  "demo_map =
     fst (treap_insert add_config lcg (fst (treap_insert add_config lcg
       (fst (treap_insert add_config lcg (treap_new add_config 1) 5 50 10)) 3 30 20)) 8 80 5)"

lemma demo_map_ok: "map_ok add_config counter_ok demo_map"
  "contents demo_map = [5 \<mapsto> (50, 10), 3 \<mapsto> (30, 20), 8 \<mapsto> (80, 5)]"
proof -
  let ?ins = "\<lambda>m k v w. treap_insert add_config lcg m k v w"
  let ?m0 = "treap_new add_config 1 :: (nat, unit, nat, nat, nat, nat) treap_map"
  have step: "map_ok add_config counter_ok (fst (?ins m k v w)) \<and> contents (fst (?ins m k v w)) = (contents m)(k \<mapsto> (v, w))"
    if "map_ok add_config counter_ok m" for m :: "(nat, unit, nat, nat, nat, nat) treap_map" and k v w
    using add_map.treap_insert_spec [OF that, of lcg k v w] by (cases "?ins m k v w") auto
  have "map_ok add_config counter_ok ?m0" "contents ?m0 = Map.empty"
    by (rule add_map.treap_new_ok)+
  with step show "map_ok add_config counter_ok demo_map"
    "contents demo_map = [5 \<mapsto> (50, 10), 3 \<mapsto> (30, 20), 8 \<mapsto> (80, 5)]"
    unfolding demo_map_def by simp_all
qed

section \<open>The map operations\<close>

text \<open>
  C1: under any key manager that keeps its contract, \<^verbatim>\<open>TreapMap::insert\<close> of a value whose sort key
  agrees with the stored one (or of a new key) keeps the treap well formed and in step with the
  external map, binds exactly that key, and returns the value it replaced.
\<close>

theorem treap_insert_refines:
  assumes "key_manager C ext_ok" "map_ok C ext_ok m" "treap_insert C nx m k v w = (m', ret)"
    and "\<And>v' w'. contents m k = Some (v', w') \<Longrightarrow>
           make_sort_key C (ext_map m) k v' = make_sort_key C (ext_map m) k v"
  shows "map_ok C ext_ok m' \<and> contents m' = (contents m)(k \<mapsto> (v, w)) \<and>
    ret = map_option fst (contents m k) \<and> treap_get C m' k = Some v"
  using key_manager.treap_insert_spec [OF assms] key_manager.treap_get_contents [OF assms(1), of m' k]
  by auto

theorem treap_insert_refines_witness:
  "let (m', ret) = treap_insert add_config lcg demo_map 3 33 7
   in contents m' = [5 \<mapsto> (50, 10), 3 \<mapsto> (33, 7), 8 \<mapsto> (80, 5)] \<and> ret = Some 30 \<and> treap_get add_config m' 3 = Some 33"
proof -
  obtain m' ret where eq: "treap_insert add_config lcg demo_map 3 33 7 = (m', ret)" by fastforce
  have "make_sort_key add_config x k v = make_sort_key add_config x k v'" for x :: nat and k v v' :: nat
    by (simp add: add_config_def shared_config_def)
  with treap_insert_refines [OF add_map.key_manager_axioms demo_map_ok(1) eq] show ?thesis
    by (auto simp: eq demo_map_ok(2))
qed

text \<open>
  C2: \<^verbatim>\<open>TreapMap::remove\<close> unbinds exactly the given key, returns its value, keeps the treap well
  formed and the count of the external map equal to the number of bindings.
\<close>

theorem treap_remove_refines:
  assumes "key_manager C ext_ok" "map_ok C ext_ok m" "treap_remove C m k = (m', ret)"
  shows "map_ok C ext_ok m' \<and> contents m' = (contents m)(k := None) \<and>
    ret = map_option fst (contents m k) \<and> treap_len C m' = card (dom (contents m) - {k})"
  using key_manager.treap_remove_spec [OF assms] key_manager.treap_len_contents [OF assms(1), of m']
  by auto

theorem treap_remove_refines_witness:
  "let (m', ret) = treap_remove add_config demo_map 5
   in contents m' = [3 \<mapsto> (30, 20), 8 \<mapsto> (80, 5)] \<and> ret = Some 50 \<and> treap_len add_config m' = 2"
proof -
  obtain m' ret where eq: "treap_remove add_config demo_map 5 = (m', ret)" by fastforce
  have "card ({8, 3, 5} - {5 :: nat}) = 2" by simp
  then show ?thesis
    using treap_remove_refines [OF add_map.key_manager_axioms demo_map_ok(1) eq]
    by (auto simp: eq demo_map_ok(2) fun_upd_twist)
qed

section \<open>Consistency of the tree\<close>

text \<open>
  C3: \<^verbatim>\<open>Node::update_inner\<close> run with any updater that keeps the contract of \<^verbatim>\<open>OpResult\<close> leaves a tree
  that passes \<^verbatim>\<open>assert_consistency\<close> (weights, keys and priorities), and changes the in-order list
  at the position of its key only; the sum at the root is the accumulation of all weights.
\<close>

theorem update_inner_consistent:
  assumes "treap_contract C" "updater_ok u" "treap_ok C t" "update_inner C u y t = (t', y', ret, uw, up)"
  shows "assert_consistency C t' \<and> treap_ok C t' \<and> inorder t' = updated_list C u y (inorder t) \<and>
    (t' = Empty \<or> n_sum t' = wsum C (map e_weight (inorder t')))"
proof -
  have ok: "treap_ok C t'"
    using treap_contract.update_inner_treap_ok [OF assms(1-3), of y] assms(4) by simp
  moreover have "inorder t' = updated_list C u y (inorder t)"
    using treap_contract.update_inner_inorder [OF assms(1-3), of y] assms(4) by simp
  moreover have "t' \<noteq> Empty \<Longrightarrow> n_sum t' = wsum C (map e_weight (inorder t'))"
    using treap_contract.n_sum_wsum [OF assms(1)] ok by (simp add: treap_ok_def)
  ultimately show ?thesis
    using treap_contract.assert_consistency_of_treap_ok [OF assms(1)] by auto
qed

theorem update_inner_consistent_witness:
  "let u = insert_op add_config (node_new 4 (40 :: nat) () 9 100);
       (t', y', ret, uw, up) = update_inner add_config u (ext_map demo_map) (root demo_map)
   in assert_consistency add_config t' \<and> map e_key (inorder t') = [3, 4, 5, 8] \<and> n_sum t' = 44"
proof -
  let ?u = "insert_op add_config (node_new 4 (40 :: nat) () 9 100)"
  obtain t' y' ret uw up where eq: "update_inner add_config ?u (ext_map demo_map) (root demo_map) = (t', y', ret, uw, up)"
    by (metis prod_cases5)
  have ok: "treap_ok add_config (root demo_map)"
    using demo_map_ok(1) by (simp add: map_ok_def core_ok_def)
  have demo: "map e_key (inorder (root demo_map)) = [3, 5, 8] \<and> map e_weight (inorder (root demo_map)) = [20, 10, 5]"
    by code_simp
  then obtain a b c where es: "inorder (root demo_map) = [a, b, c]" "e_key a = 3" "e_key b = 5" "e_key c = 8"
    "e_weight a = 20" "e_weight b = 10" "e_weight c = 5"
    by (auto simp: Cons_eq_map_conv)
  have "updated_list add_config ?u (ext_map demo_map) [a, b, c] =
      [a, \<lparr>e_key = 4, e_val = 40, e_sort = (), e_weight = 9\<rparr>, b, c]"
    using es by (simp add: updated_list_def insert_op_def node_new_def Let_def at_key_def below_def above_def
        klt_def mid_after_def add_config_def shared_config_def shared_next_node_dir_def skey_def)
  moreover have "wsum (add_config :: (nat, unit, nat, nat, nat) treap_config) [20, 9, 10, 5] = 44"
    by (simp add: wsum_def add_config_def shared_config_def)
  ultimately have "assert_consistency add_config t' \<and> map e_key (inorder t') = [3, 4, 5, 8] \<and> n_sum t' = 44"
    using update_inner_consistent [OF add_treap_contract updater_ok_insert_op ok eq] es by auto
  then show ?thesis by (simp add: eq)
qed

section \<open>Iteration\<close>

text \<open>
  C4: \<^verbatim>\<open>iter_range\<close> from a key yields, in strictly increasing key order, exactly the entries whose
  key is not below it; \<^verbatim>\<open>iter\<close> yields them all.
\<close>

theorem treap_iter_range_sorted:
  fixes C :: "('k, unit, 'v, 'w, 'x) treap_config"
  assumes "treap_contract C" "treap_ok C (root m)"
  shows "iter_collect (treap_iter m) = inorder (root m) \<and> ordered C (iter_collect (treap_iter m)) \<and>
    iter_collect (treap_iter_range C m k) =
      filter (\<lambda>e. \<not> klt C (skey e) ((), k)) (iter_collect (treap_iter m))"
proof (cases "root m = Empty")
  case False
  have "Empty \<notin> set (extend_path_with_key C ((), k) [root m])"
    by (rule extend_path_with_key_no_Empty [OF False]) simp
  with False treap_contract.remaining_extend_path_with_key [OF assms(1) False, of "((), k)" "[]"] assms(2)
  show ?thesis
    by (simp add: iter_collect_treap_iter treap_ok_def treap_iter_range_def iter_collect_remaining)
qed (use assms in \<open>simp add: iter_collect_treap_iter treap_ok_def treap_iter_range_def iter_collect_remaining\<close>)

theorem treap_iter_range_sorted_witness:
  "map e_key (iter_collect (treap_iter demo_map)) = [3, 5, 8] \<and>
   map e_key (iter_collect (treap_iter_range add_config demo_map 4)) = [5, 8]"
proof -
  have ok: "treap_ok add_config (root demo_map)"
    using demo_map_ok(1) by (simp add: map_ok_def core_ok_def)
  have "map e_key (inorder (root demo_map)) = [3, 5, 8]" by code_simp
  with treap_iter_range_sorted [OF add_treap_contract ok, of 4] show ?thesis
    by (auto simp: Cons_eq_map_conv klt_def skey_def add_config_def shared_config_def shared_next_node_dir_def)
qed

section \<open>Lookup by weight\<close>

lemma foldl_plus_sum_list: "foldl (+) b xs = b + sum_list (xs :: nat list)"
  by (induction xs arbitrary: b) simp_all

text \<open>
  C5: with additive weights \<^verbatim>\<open>get_by_weight\<close> returns the value of the entry whose weight interval
  contains the queried weight, and nothing when the weight is not below the total.
\<close>

theorem get_by_weight_finds:
  assumes "map_ok add_config counter_ok m" "es = inorder (root m)"
    and "W = (\<lambda>i. sum_list (map e_weight (take i es)))"
  shows "(i < length es \<and> W i \<le> q \<and> q < W (Suc i) \<longrightarrow> treap_get_by_weight add_config m q = Some (e_val (es ! i))) \<and>
    (W (length es) \<le> q \<longrightarrow> treap_get_by_weight add_config m q = None)"
proof -
  have "weight_before add_config m j = W j" for j
    using assms(2,3)
    by (simp add: weight_before_def acc_weight_def add_config_def shared_config_def foldl_plus_sum_list)
  moreover have "sums_ok add_config (root m)"
    using assms(1) by (simp add: map_ok_def core_ok_def treap_ok_def)
  ultimately show ?thesis
    using add_weights.get_by_weight_hit [of m i q] add_weights.get_by_weight_beyond [of m q] assms(2) by auto
qed

theorem get_by_weight_finds_witness:
  "treap_get_by_weight add_config demo_map 25 = Some 50 \<and> treap_get_by_weight add_config demo_map 35 = None"
proof -
  have "map e_weight (inorder (root demo_map)) = [20, 10, 5] \<and> map e_val (inorder (root demo_map)) = [30, 50, 80]"
    by code_simp
  then show ?thesis
    using get_by_weight_finds [OF demo_map_ok(1) refl refl, of 1 25]
      get_by_weight_finds [OF demo_map_ok(1) refl refl, of 1 35]
    by (auto simp: Cons_eq_map_conv numeral_eq_Suc)
qed

section \<open>The counter and a changed sort key\<close>



end
