(* ===== verification/Transaction.thy ===== *)
theory Transaction
  imports Mazze_Prelude "HOL-Library.Word"
begin

text \<open>
  \<^verbatim>\<open>crates/primitives/src/transaction\<close>: the six kinds of transactions of the two spaces, the common
  accessors, prices and replay protection. 256-bit numbers are \<open>nat\<close> with checked operations,
  addresses and hashes are byte lists. The wire encoding (RLP) is not modelled.
\<close>

section \<open>Data\<close>

type_synonym byte = "8 word"
type_synonym address = "byte list"
type_synonym h256 = "byte list"

datatype space = SpaceNative | SpaceEthereum

datatype action = Create | Call address

record access_list_item =
  al_address :: address
  al_storage_keys :: "h256 list"

type_synonym access_list = "access_list_item list"

record native_transaction =
  nt_nonce :: u256
  nt_gas_price :: u256
  nt_gas :: u256
  nt_action :: action
  nt_value :: u256
  nt_storage_limit :: u64
  nt_epoch_height :: u64
  nt_chain_id :: u32
  nt_data :: "byte list"

record mip2930_transaction =
  m29_nonce :: u256
  m29_gas_price :: u256
  m29_gas :: u256
  m29_action :: action
  m29_value :: u256
  m29_storage_limit :: u64
  m29_epoch_height :: u64
  m29_chain_id :: u32
  m29_data :: "byte list"
  m29_access_list :: access_list

record mip1559_transaction =
  m15_nonce :: u256
  m15_max_priority_fee_per_gas :: u256
  m15_max_fee_per_gas :: u256
  m15_gas :: u256
  m15_action :: action
  m15_value :: u256
  m15_storage_limit :: u64
  m15_epoch_height :: u64
  m15_chain_id :: u32
  m15_data :: "byte list"
  m15_access_list :: access_list

datatype typed_native_transaction =
    Mip155 native_transaction
  | Mip2930 mip2930_transaction
  | Mip1559 mip1559_transaction

record eip155_transaction =
  e155_nonce :: u256
  e155_gas_price :: u256
  e155_gas :: u256
  e155_action :: action
  e155_value :: u256
  e155_chain_id :: "u32 option"
  e155_data :: "byte list"

record eip2930_transaction =
  e29_chain_id :: u32
  e29_nonce :: u256
  e29_gas_price :: u256
  e29_gas :: u256
  e29_action :: action
  e29_value :: u256
  e29_data :: "byte list"
  e29_access_list :: access_list

record eip1559_transaction =
  e15_chain_id :: u32
  e15_nonce :: u256
  e15_max_priority_fee_per_gas :: u256
  e15_max_fee_per_gas :: u256
  e15_gas :: u256
  e15_action :: action
  e15_value :: u256
  e15_data :: "byte list"
  e15_access_list :: access_list

datatype ethereum_transaction =
    Eip155 eip155_transaction
  | Eip1559 eip1559_transaction
  | Eip2930 eip2930_transaction

datatype transaction = Native typed_native_transaction | Ethereum ethereum_transaction

section \<open>Accessors of the native kinds\<close>

fun native_gas :: "typed_native_transaction \<Rightarrow> u256" where
  "native_gas (Mip155 t) = nt_gas t"
| "native_gas (Mip2930 t) = m29_gas t"
| "native_gas (Mip1559 t) = m15_gas t"

fun native_data :: "typed_native_transaction \<Rightarrow> byte list" where
  "native_data (Mip155 t) = nt_data t"
| "native_data (Mip2930 t) = m29_data t"
| "native_data (Mip1559 t) = m15_data t"

fun native_nonce :: "typed_native_transaction \<Rightarrow> u256" where
  "native_nonce (Mip155 t) = nt_nonce t"
| "native_nonce (Mip2930 t) = m29_nonce t"
| "native_nonce (Mip1559 t) = m15_nonce t"

fun native_action :: "typed_native_transaction \<Rightarrow> action" where
  "native_action (Mip155 t) = nt_action t"
| "native_action (Mip2930 t) = m29_action t"
| "native_action (Mip1559 t) = m15_action t"

fun native_value :: "typed_native_transaction \<Rightarrow> u256" where
  "native_value (Mip155 t) = nt_value t"
| "native_value (Mip2930 t) = m29_value t"
| "native_value (Mip1559 t) = m15_value t"

fun native_chain_id :: "typed_native_transaction \<Rightarrow> u32" where
  "native_chain_id (Mip155 t) = nt_chain_id t"
| "native_chain_id (Mip2930 t) = m29_chain_id t"
| "native_chain_id (Mip1559 t) = m15_chain_id t"

fun native_epoch_height :: "typed_native_transaction \<Rightarrow> u64" where
  "native_epoch_height (Mip155 t) = nt_epoch_height t"
| "native_epoch_height (Mip2930 t) = m29_epoch_height t"
| "native_epoch_height (Mip1559 t) = m15_epoch_height t"

fun native_storage_limit :: "typed_native_transaction \<Rightarrow> u64" where
  "native_storage_limit (Mip155 t) = nt_storage_limit t"
| "native_storage_limit (Mip2930 t) = m29_storage_limit t"
| "native_storage_limit (Mip1559 t) = m15_storage_limit t"

fun native_gas_price :: "typed_native_transaction \<Rightarrow> u256" where
  "native_gas_price (Mip155 t) = nt_gas_price t"
| "native_gas_price (Mip1559 t) = m15_max_fee_per_gas t"
| "native_gas_price (Mip2930 t) = m29_gas_price t"

fun native_max_priority_gas_price :: "typed_native_transaction \<Rightarrow> u256" where
  "native_max_priority_gas_price (Mip155 t) = nt_gas_price t"
| "native_max_priority_gas_price (Mip1559 t) = m15_max_priority_fee_per_gas t"
| "native_max_priority_gas_price (Mip2930 t) = m29_gas_price t"

fun native_access_list :: "typed_native_transaction \<Rightarrow> access_list option" where
  "native_access_list (Mip155 t) = None"
| "native_access_list (Mip2930 t) = Some (m29_access_list t)"
| "native_access_list (Mip1559 t) = Some (m15_access_list t)"

section \<open>Accessors of the Ethereum kinds\<close>

fun eth_gas :: "ethereum_transaction \<Rightarrow> u256" where
  "eth_gas (Eip155 t) = e155_gas t"
| "eth_gas (Eip2930 t) = e29_gas t"
| "eth_gas (Eip1559 t) = e15_gas t"

fun eth_data :: "ethereum_transaction \<Rightarrow> byte list" where
  "eth_data (Eip155 t) = e155_data t"
| "eth_data (Eip2930 t) = e29_data t"
| "eth_data (Eip1559 t) = e15_data t"

fun eth_nonce :: "ethereum_transaction \<Rightarrow> u256" where
  "eth_nonce (Eip155 t) = e155_nonce t"
| "eth_nonce (Eip2930 t) = e29_nonce t"
| "eth_nonce (Eip1559 t) = e15_nonce t"

fun eth_action :: "ethereum_transaction \<Rightarrow> action" where
  "eth_action (Eip155 t) = e155_action t"
| "eth_action (Eip2930 t) = e29_action t"
| "eth_action (Eip1559 t) = e15_action t"

fun eth_value :: "ethereum_transaction \<Rightarrow> u256" where
  "eth_value (Eip155 t) = e155_value t"
| "eth_value (Eip2930 t) = e29_value t"
| "eth_value (Eip1559 t) = e15_value t"

fun eth_gas_price :: "ethereum_transaction \<Rightarrow> u256" where
  "eth_gas_price (Eip155 t) = e155_gas_price t"
| "eth_gas_price (Eip1559 t) = e15_max_fee_per_gas t"
| "eth_gas_price (Eip2930 t) = e29_gas_price t"

fun eth_max_priority_gas_price :: "ethereum_transaction \<Rightarrow> u256" where
  "eth_max_priority_gas_price (Eip155 t) = e155_gas_price t"
| "eth_max_priority_gas_price (Eip1559 t) = e15_max_priority_fee_per_gas t"
| "eth_max_priority_gas_price (Eip2930 t) = e29_gas_price t"

fun eth_chain_id :: "ethereum_transaction \<Rightarrow> u32 option" where
  "eth_chain_id (Eip155 t) = e155_chain_id t"
| "eth_chain_id (Eip1559 t) = Some (e15_chain_id t)"
| "eth_chain_id (Eip2930 t) = Some (e29_chain_id t)"

fun eth_access_list :: "ethereum_transaction \<Rightarrow> access_list option" where
  "eth_access_list (Eip155 t) = None"
| "eth_access_list (Eip2930 t) = Some (e29_access_list t)"
| "eth_access_list (Eip1559 t) = Some (e15_access_list t)"

section \<open>Transactions of either space\<close>

fun tx_gas :: "transaction \<Rightarrow> u256" where
  "tx_gas (Native t) = native_gas t" | "tx_gas (Ethereum t) = eth_gas t"

fun tx_gas_price :: "transaction \<Rightarrow> u256" where
  "tx_gas_price (Native t) = native_gas_price t" | "tx_gas_price (Ethereum t) = eth_gas_price t"

fun tx_max_priority_gas_price :: "transaction \<Rightarrow> u256" where
  "tx_max_priority_gas_price (Native t) = native_max_priority_gas_price t"
| "tx_max_priority_gas_price (Ethereum t) = eth_max_priority_gas_price t"

fun tx_data :: "transaction \<Rightarrow> byte list" where
  "tx_data (Native t) = native_data t" | "tx_data (Ethereum t) = eth_data t"

fun tx_nonce :: "transaction \<Rightarrow> u256" where
  "tx_nonce (Native t) = native_nonce t" | "tx_nonce (Ethereum t) = eth_nonce t"

fun tx_action :: "transaction \<Rightarrow> action" where
  "tx_action (Native t) = native_action t" | "tx_action (Ethereum t) = eth_action t"

fun tx_value :: "transaction \<Rightarrow> u256" where
  "tx_value (Native t) = native_value t" | "tx_value (Ethereum t) = eth_value t"

fun tx_chain_id :: "transaction \<Rightarrow> u32 option" where
  "tx_chain_id (Native t) = Some (native_chain_id t)" | "tx_chain_id (Ethereum t) = eth_chain_id t"

fun tx_storage_limit :: "transaction \<Rightarrow> u64 option" where
  "tx_storage_limit (Native t) = Some (native_storage_limit t)" | "tx_storage_limit (Ethereum t) = None"

fun tx_access_list :: "transaction \<Rightarrow> access_list option" where
  "tx_access_list (Native t) = native_access_list t" | "tx_access_list (Ethereum t) = eth_access_list t"

fun tx_type_id :: "transaction \<Rightarrow> nat" where
  "tx_type_id (Native (Mip155 _)) = 0" | "tx_type_id (Ethereum (Eip155 _)) = 0"
| "tx_type_id (Native (Mip2930 _)) = 1" | "tx_type_id (Ethereum (Eip2930 _)) = 1"
| "tx_type_id (Native (Mip1559 _)) = 2" | "tx_type_id (Ethereum (Eip1559 _)) = 2"

fun tx_is_legacy :: "transaction \<Rightarrow> bool" where
  "tx_is_legacy (Native (Mip155 _)) = True" | "tx_is_legacy (Ethereum (Eip155 _)) = True"
| "tx_is_legacy _ = False"

definition tx_is_2718 :: "transaction \<Rightarrow> bool" where
  "tx_is_2718 t = (\<not> tx_is_legacy t)"

fun tx_after_1559 :: "transaction \<Rightarrow> bool" where
  "tx_after_1559 (Native (Mip1559 _)) = True" | "tx_after_1559 (Ethereum (Eip1559 _)) = True"
| "tx_after_1559 _ = False"

fun tx_space :: "transaction \<Rightarrow> space" where
  "tx_space (Native _) = SpaceNative" | "tx_space (Ethereum _) = SpaceEthereum"

text \<open>Both panic when the base price is above the gas price (checked subtraction of \<^verbatim>\<open>U256\<close>).\<close>

definition priority_gas_price :: "transaction \<Rightarrow> u256 \<Rightarrow> u256 option" where
  "priority_gas_price t base_price =
     do {d \<leftarrow> csub (tx_gas_price t) base_price; Some (min (tx_max_priority_gas_price t) d)}"

definition effective_gas_price :: "transaction \<Rightarrow> u256 \<Rightarrow> u256 option" where
  "effective_gas_price t base_price =
     do {p \<leftarrow> priority_gas_price t base_price; cadd 256 base_price p}"

section \<open>Replay protection in the signature\<close>

definition add_chain_replay_protection :: "nat \<Rightarrow> u64 option \<Rightarrow> u64 option" where
  "add_chain_replay_protection v chain_id =
     (case chain_id of
        Some n \<Rightarrow> do {d \<leftarrow> cmul 64 n 2; c \<leftarrow> cadd 64 35 d; cadd 64 v c}
      | None \<Rightarrow> cadd 64 v 27)"

definition extract_standard_v :: "u64 \<Rightarrow> nat" where
  "extract_standard_v v = (if v = 27 then 0 else if v = 28 then 1 else if v \<ge> 35 then (v - 1) mod 2 else 4)"

definition extract_chain_id_from_legacy_v :: "u64 \<Rightarrow> u64 option" where
  "extract_chain_id_from_legacy_v v = (if v \<ge> 35 then Some ((v - 35) div 2) else None)"

section \<open>Signed transactions\<close>

record serialize_part =
  unsigned :: transaction
  sig_v :: nat
  sig_r :: u256
  sig_s :: u256

record tx_with_signature =
  ts_transaction :: serialize_part
  ts_hash :: h256
  ts_rlp_size :: "nat option"

record signed_transaction =
  st_transaction :: tx_with_signature
  st_sender :: address
  st_public :: "byte list option"

abbreviation st_unsigned :: "signed_transaction \<Rightarrow> transaction" where
  "st_unsigned t \<equiv> unsigned (ts_transaction (st_transaction t))"

definition is_unsigned :: "tx_with_signature \<Rightarrow> bool" where
  "is_unsigned t = (sig_r (ts_transaction t) = 0 \<and> sig_s (ts_transaction t) = 0)"

definition check_y_parity :: "tx_with_signature \<Rightarrow> bool" where
  "check_y_parity t = (\<not> (tx_is_2718 (unsigned (ts_transaction t)) \<and> sig_v (ts_transaction t) > 1))"

definition tx_new_unsigned :: "transaction \<Rightarrow> tx_with_signature" where
  "tx_new_unsigned t =
     \<lparr>ts_transaction = \<lparr>unsigned = t, sig_v = 0, sig_r = 0, sig_s = 0\<rparr>, ts_hash = replicate 32 0, ts_rlp_size = None\<rparr>"

definition UNSIGNED_SENDER :: address where
  "UNSIGNED_SENDER = replicate 20 255"

text \<open>\<open>to_address\<close> is \<^verbatim>\<open>public_to_address\<close> of the key library.\<close>

definition signed_new :: "(byte list \<Rightarrow> bool \<Rightarrow> address) \<Rightarrow> byte list \<Rightarrow> tx_with_signature \<Rightarrow> signed_transaction" where
  "signed_new to_address public t =
     (if is_unsigned t then \<lparr>st_transaction = t, st_sender = UNSIGNED_SENDER, st_public = None\<rparr>
      else \<lparr>st_transaction = t,
            st_sender = to_address public (tx_space (unsigned (ts_transaction t)) = SpaceNative),
            st_public = Some public\<rparr>)"

definition signed_new_unsigned :: "tx_with_signature \<Rightarrow> signed_transaction" where
  "signed_new_unsigned t = \<lparr>st_transaction = t, st_sender = UNSIGNED_SENDER, st_public = None\<rparr>"

definition set_public :: "(byte list \<Rightarrow> bool \<Rightarrow> address) \<Rightarrow> signed_transaction \<Rightarrow> byte list \<Rightarrow> signed_transaction" where
  "set_public to_address t public =
     t\<lparr>st_sender := to_address public (tx_space (st_unsigned t) = SpaceNative), st_public := Some public\<rparr>"

definition st_sender_with_space :: "signed_transaction \<Rightarrow> address \<times> space" where
  "st_sender_with_space t = (st_sender t, tx_space (st_unsigned t))"

definition st_nonce :: "signed_transaction \<Rightarrow> u256" where "st_nonce t = tx_nonce (st_unsigned t)"
definition st_gas :: "signed_transaction \<Rightarrow> u256" where "st_gas t = tx_gas (st_unsigned t)"
definition st_gas_price :: "signed_transaction \<Rightarrow> u256" where "st_gas_price t = tx_gas_price (st_unsigned t)"
definition st_gas_limit :: "signed_transaction \<Rightarrow> u256" where "st_gas_limit t = tx_gas (st_unsigned t)"
definition st_value :: "signed_transaction \<Rightarrow> u256" where "st_value t = tx_value (st_unsigned t)"
definition st_hash :: "signed_transaction \<Rightarrow> h256" where "st_hash t = ts_hash (st_transaction t)"

section \<open>Prices and replay protection\<close>

lemma effective_gas_price_bounds:
  assumes "tx_gas_price t < 2 ^ 256"
  shows "effective_gas_price t base =
    (if base \<le> tx_gas_price t then Some (min (base + tx_max_priority_gas_price t) (tx_gas_price t)) else None)"
  using assms by (auto simp: effective_gas_price_def priority_gas_price_def csub_def cadd_def min_def bind_eq_None_conv)

lemma replay_protection_inverse:
  assumes "v \<le> 1" "case chain_id of None \<Rightarrow> True | Some n \<Rightarrow> n < 2 ^ 32"
  obtains w where "add_chain_replay_protection v chain_id = Some w" "extract_standard_v w = v"
    "extract_chain_id_from_legacy_v w = chain_id" "w < 2 ^ 64"
proof (cases chain_id)
  case None
  with assms that [of "v + 27"] show ?thesis
    by (auto simp: add_chain_replay_protection_def cadd_def extract_standard_v_def extract_chain_id_from_legacy_v_def le_Suc_eq)
next
  case (Some n)
  with assms(2) have n: "n < 4294967296" by simp
  have "extract_standard_v (v + (35 + n * 2)) = v" "extract_chain_id_from_legacy_v (v + (35 + n * 2)) = Some n"
    using assms(1) by (auto simp: extract_standard_v_def extract_chain_id_from_legacy_v_def le_Suc_eq)
  moreover have "add_chain_replay_protection v (Some n) = Some (v + (35 + n * 2))"
    using n assms(1) by (simp add: add_chain_replay_protection_def cadd_def cmul_def)
  ultimately show ?thesis
    using that [of "v + (35 + n * 2)"] Some n assms(1) by simp
qed

end
