(* ===== verification/Nonce_Map.thy ===== *)
theory Nonce_Map
  imports Treap_Search Transaction
begin

text \<open>
  \<^verbatim>\<open>transaction_pool/nonce_pool/weight.rs\<close>, \<^verbatim>\<open>nonce_pool_map.rs\<close> and the part of \<^verbatim>\<open>mod.rs\<close> about
  \<^verbatim>\<open>TxWithReadyInfo\<close>: the transactions of one sender, kept in a treap keyed by nonce whose weights
  count entries, unpacked entries and cost.

  The map is tied to \<open>shared_config\<close> by an interpretation of the treap contracts; its queries
  are shown equal to plain functions of the sorted list of transactions.
\<close>

section \<open>Transactions with readiness information\<close>

record tx_info =
  ti_transaction :: signed_transaction
  ti_packed :: bool
  ti_sponsored_gas :: u256
  ti_sponsored_storage :: u64
  ti_tx_cost :: u256

abbreviation ti_nonce :: "tx_info \<Rightarrow> u256" where "ti_nonce t \<equiv> st_nonce (ti_transaction t)"
abbreviation ti_gas_price :: "tx_info \<Rightarrow> u256" where "ti_gas_price t \<equiv> st_gas_price (ti_transaction t)"

definition TRANSACTION_DEFAULT_EPOCH_BOUND :: u64 where
  "TRANSACTION_DEFAULT_EPOCH_BOUND = 100000"

definition MAZZIES_PER_STORAGE_COLLATERAL_UNIT :: u256 where
  "MAZZIES_PER_STORAGE_COLLATERAL_UNIT = 10 ^ 18 div 1024"

definition make_tx_cost :: "signed_transaction \<Rightarrow> u256 \<Rightarrow> u64 \<Rightarrow> u256 option" where
  "make_tx_cost t sponsored_gas sponsored_storage =
     do {
       gas_paid \<leftarrow> csub (st_gas t) sponsored_gas;
       estimate_gas \<leftarrow>
         (if gas_paid * st_gas_price t > u128_max then Some u128_max
          else cmul 256 gas_paid (st_gas_price t));
       storage_collateral_requirement \<leftarrow>
         (case st_unsigned t of
            Native tx \<Rightarrow>
              do {units \<leftarrow> csub (native_storage_limit tx) sponsored_storage;
                  cmul 256 units MAZZIES_PER_STORAGE_COLLATERAL_UNIT}
          | Ethereum _ \<Rightarrow> Some 0);
       capped \<leftarrow> cmul 256 u64_max u128_max;
       s \<leftarrow> cadd 256 (if st_value t > capped then capped else st_value t) estimate_gas;
       cadd 256 s storage_collateral_requirement
     }"

definition tx_info_new :: "signed_transaction \<Rightarrow> bool \<Rightarrow> u256 \<Rightarrow> u64 \<Rightarrow> tx_info option" where
  "tx_info_new t packed sponsored_gas sponsored_storage =
     do {
       tx_cost \<leftarrow> make_tx_cost t sponsored_gas sponsored_storage;
       Some \<lparr>ti_transaction = t, ti_packed = packed, ti_sponsored_gas = sponsored_gas,
             ti_sponsored_storage = sponsored_storage, ti_tx_cost = tx_cost\<rparr>
     }"

definition replace_price :: "u256 \<Rightarrow> u256 option" where
  "replace_price price =
     (if price < 100 then cadd 256 price 1
      else do {d \<leftarrow> cmul 256 (price div 100) 2; cadd 256 price d})"

text \<open>The result is \<open>None\<close> when the price to beat overflows.\<close>

definition should_replace :: "tx_info \<Rightarrow> tx_info \<Rightarrow> bool \<Rightarrow> bool option" where
  "should_replace self x force =
     (if force then Some True
      else if ti_packed x then Some False
      else if ti_packed self then Some True
      else
        let by_price = (\<lambda>higher_epoch_height.
          do {
            next \<leftarrow> replace_price (ti_gas_price x);
            Some (ti_gas_price self \<ge> next \<or> ti_gas_price self \<ge> ti_gas_price x \<and> higher_epoch_height)
          })
        in case (st_unsigned (ti_transaction self), st_unsigned (ti_transaction x)) of
             (Native tx, Native other) \<Rightarrow>
               (if native_epoch_height tx >
                   sat_add 64 (native_epoch_height other) (sat_mul 64 TRANSACTION_DEFAULT_EPOCH_BOUND 2)
                then Some True
                else by_price (native_epoch_height tx > native_epoch_height other))
           | _ \<Rightarrow> by_price False)"

section \<open>Weights\<close>

record np_weight =
  unpacked_size :: u32
  cost :: u256
  np_size :: u32
  max_unpackd_nonce :: "u256 option"

definition np_empty :: np_weight where
  "np_empty = \<lparr>unpacked_size = 0, cost = 0, np_size = 0, max_unpackd_nonce = None\<rparr>"

fun consolidate_max_nonce :: "u256 option \<Rightarrow> u256 option \<Rightarrow> u256 option" where
  "consolidate_max_nonce None None = None"
| "consolidate_max_nonce None (Some b) = Some b"
| "consolidate_max_nonce (Some a) None = Some a"
| "consolidate_max_nonce (Some a) (Some b) = Some (max a b)"

definition np_accure :: "np_weight \<Rightarrow> np_weight \<Rightarrow> np_weight" where
  "np_accure a b =
     \<lparr>unpacked_size = unpacked_size a + unpacked_size b, cost = cost a + cost b,
      np_size = np_size a + np_size b,
      max_unpackd_nonce = consolidate_max_nonce (max_unpackd_nonce a) (max_unpackd_nonce b)\<rparr>"

definition np_consolidate :: "np_weight \<Rightarrow> np_weight \<Rightarrow> np_weight" where
  "np_consolidate a b =
     (if a = np_empty then b
      else
        \<lparr>unpacked_size = unpacked_size a + unpacked_size b, cost = cost a + cost b,
         np_size = np_size a + np_size b,
         max_unpackd_nonce = consolidate_max_nonce (max_unpackd_nonce a) (max_unpackd_nonce b)\<rparr>)"

definition from_tx_info :: "tx_info \<Rightarrow> np_weight" where
  "from_tx_info t =
     (if ti_packed t
      then \<lparr>unpacked_size = 0, cost = ti_tx_cost t, np_size = 1, max_unpackd_nonce = None\<rparr>
      else \<lparr>unpacked_size = 1, cost = ti_tx_cost t, np_size = 1, max_unpackd_nonce = Some (ti_nonce t)\<rparr>)"

section \<open>The map\<close>

type_synonym np_config = "(u256, unit, tx_info, np_weight, nat) treap_config"
type_synonym np_entry = "(u256, unit, tx_info, np_weight) entry"
type_synonym 'r nonce_map = "(u256, unit, tx_info, np_weight, nat, 'r) treap_map"

definition nonce_config :: np_config where
  "nonce_config = shared_config np_empty np_consolidate np_accure"

datatype insert_result = NewAdded | Failed u256 | Updated tx_info

definition nmap_new :: "'r \<Rightarrow> 'r nonce_map" where
  "nmap_new r = treap_new nonce_config r"

definition nmap_len :: "'r nonce_map \<Rightarrow> nat" where
  "nmap_len m = treap_len nonce_config m"

definition nmap_get :: "'r nonce_map \<Rightarrow> u256 \<Rightarrow> tx_info option" where
  "nmap_get m nonce = treap_get nonce_config m nonce"

definition nmap_remove :: "'r nonce_map \<Rightarrow> u256 \<Rightarrow> 'r nonce_map \<times> tx_info option" where
  "nmap_remove m nonce = treap_remove nonce_config m nonce"

definition nmap_iter_range :: "'r nonce_map \<Rightarrow> u256 \<Rightarrow> tx_info list" where
  "nmap_iter_range m nonce = map e_val (iter_collect (treap_iter_range nonce_config m nonce))"

text \<open>
  The closures of \<^verbatim>\<open>insert\<close>. Their error type is \<^verbatim>\<open>Infallible\<close>, so the error value of the model
  stands for the panic of \<^verbatim>\<open>should_replace\<close>. The text of \<open>Failed\<close> is the price it names.
\<close>

definition insert_update ::
  "tx_info \<Rightarrow> bool \<Rightarrow> np_entry \<Rightarrow> np_entry \<times> (unit + insert_result apply_outcome)" where
  "insert_update tx force e =
     (case should_replace tx (e_val e) force of
        None \<Rightarrow> (e, Inl ())
      | Some True \<Rightarrow>
          (e\<lparr>e_val := tx, e_weight := from_tx_info tx\<rparr>,
           Inr \<lparr>out = Updated (e_val e), update_weight_flag = True, update_key = False, delete_item = False\<rparr>)
      | Some False \<Rightarrow>
          (e, Inr \<lparr>out = Failed (ti_gas_price (e_val e)), update_weight_flag = False,
                   update_key = False, delete_item = False\<rparr>))"

definition insert_fresh ::
  "('r \<Rightarrow> 'r \<times> u64) \<Rightarrow> tx_info \<Rightarrow> 'r \<Rightarrow>
   'r \<times> (unit + (u256, unit, tx_info, np_weight) tree \<times> insert_result)" where
  "insert_fresh nx tx r =
     (case nx r of (r', p) \<Rightarrow> (r', Inr (node_new (ti_nonce tx) tx () (from_tx_info tx) p, NewAdded)))"

definition nmap_insert ::
  "('r \<Rightarrow> 'r \<times> u64) \<Rightarrow> 'r nonce_map \<Rightarrow> tx_info \<Rightarrow> bool \<Rightarrow> ('r nonce_map \<times> insert_result) option" where
  "nmap_insert nx m tx force =
     (case treap_update nonce_config nx m (ti_nonce tx) (insert_update tx force) (insert_fresh nx tx) of
        (m', Some (Inr res)) \<Rightarrow> Some (m', res)
      | _ \<Rightarrow> None)"

definition packed_update :: "bool \<Rightarrow> np_entry \<Rightarrow> np_entry \<times> (unit + unit apply_outcome)" where
  "packed_update packed e =
     (if packed = ti_packed (e_val e) then (e, Inl ())
      else
        let v = (e_val e)\<lparr>ti_packed := packed\<rparr>
        in (e\<lparr>e_val := v, e_weight := from_tx_info v\<rparr>,
            Inr \<lparr>out = (), update_weight_flag = True, update_key = False, delete_item = False\<rparr>))"

definition nmap_mark_packed ::
  "('r \<Rightarrow> 'r \<times> u64) \<Rightarrow> 'r nonce_map \<Rightarrow> u256 \<Rightarrow> bool \<Rightarrow> 'r nonce_map \<times> bool" where
  "nmap_mark_packed nx m nonce packed =
     (case treap_update nonce_config nx m nonce (packed_update packed) (\<lambda>r. (r, Inl ())) of
        (m', res) \<Rightarrow> (m', case res of Some (Inr _) \<Rightarrow> True | _ \<Rightarrow> False))"

definition found_value :: "(u256, unit, tx_info, np_weight, 'u) search_result option \<Rightarrow> tx_info option" where
  "found_value res = (case res of Some (Found _ e) \<Rightarrow> Some (e_val e) | _ \<Rightarrow> None)"

definition query_dir :: "u256 \<Rightarrow> np_weight \<Rightarrow> np_entry \<Rightarrow> np_weight search_direction" where
  "query_dir nonce left_weight e =
     (if (case max_unpackd_nonce left_weight of None \<Rightarrow> False | Some x \<Rightarrow> x \<ge> nonce) then SLeft
      else if (case max_unpackd_nonce (e_weight e) of None \<Rightarrow> False | Some x \<Rightarrow> x \<ge> nonce) then SStop
      else SRight (np_consolidate left_weight (e_weight e)))"

definition nmap_query :: "'r nonce_map \<Rightarrow> u256 \<Rightarrow> tx_info option" where
  "nmap_query m nonce = found_value (treap_search nonce_config m (query_dir nonce))"

definition weight_dir :: "u256 \<Rightarrow> np_weight \<Rightarrow> np_entry \<Rightarrow> np_weight search_direction" where
  "weight_dir nonce left_weight e =
     (if nonce < e_key e then SLeft
      else if nonce = e_key e then SStop
      else SRightOrStop (np_consolidate left_weight (e_weight e)))"

definition nmap_weight :: "'r nonce_map \<Rightarrow> u256 \<Rightarrow> np_weight" where
  "nmap_weight m nonce =
     (case treap_search nonce_config m (weight_dir nonce) of
        Some (Found base_weight e) \<Rightarrow> np_consolidate base_weight (e_weight e)
      | _ \<Rightarrow> np_empty)"

text \<open>
  The differences below are checked subtractions in the code; under the documented precondition
  that \<open>start_weight\<close> is the weight of \<open>start_nonce\<close> none of them underflows
  (\<open>ready_no_underflow\<close>).
\<close>

definition ready_dir :: "u256 \<Rightarrow> np_weight \<Rightarrow> u256 \<Rightarrow> np_weight \<Rightarrow> np_entry \<Rightarrow> np_weight search_direction" where
  "ready_dir start_nonce start_weight rest_balance left_weight e =
     (let weight = np_consolidate left_weight (e_weight e) in
      if start_nonce > e_key e then SRight weight
      else if start_nonce = e_key e then SRightOrStop weight
      else
        let nonce_elapsed = ti_nonce (e_val e) - start_nonce in
        if nonce_elapsed > u32_max then SLeft
        else
          let item_elapsed = np_size weight - np_size start_weight;
              unpacked_elapsed = unpacked_size weight - unpacked_size start_weight;
              cost_elapsed = cost weight - cost start_weight
          in if item_elapsed \<noteq> unpacked_elapsed \<or> nonce_elapsed \<noteq> unpacked_elapsed then SLeft
             else if cost_elapsed > rest_balance then SLeft
             else SRightOrStop weight)"

definition continous_ready_nonce :: "'r nonce_map \<Rightarrow> u256 \<Rightarrow> np_weight \<Rightarrow> u256 \<Rightarrow> u256" where
  "continous_ready_nonce m start_nonce start_weight rest_balance =
     (case found_value (treap_search nonce_config m (ready_dir start_nonce start_weight rest_balance)) of
        Some t \<Rightarrow> ti_nonce t
      | None \<Rightarrow> start_nonce)"

definition nmap_succ :: "'r nonce_map \<Rightarrow> u256 \<Rightarrow> tx_info option" where
  "nmap_succ m nonce =
     found_value (treap_search_no_weight m (\<lambda>e. if nonce \<le> e_key e then SLeftOrStop else SRight ()))"

definition nmap_leftmost :: "'r nonce_map \<Rightarrow> tx_info option" where
  "nmap_leftmost m = found_value (treap_search_no_weight m (\<lambda>_. SLeftOrStop))"

section \<open>The weights form a commutative semigroup\<close>

lemma np_consolidate_accure: "np_consolidate a b = np_accure a b"
  by (cases "max_unpackd_nonce b")
    (simp_all add: np_consolidate_def np_accure_def np_empty_def)

lemma consolidate_max_nonce_assoc:
  "consolidate_max_nonce (consolidate_max_nonce a b) c = consolidate_max_nonce a (consolidate_max_nonce b c)"
  by (cases a; cases b; cases c) simp_all

lemma consolidate_max_nonce_commute: "consolidate_max_nonce a b = consolidate_max_nonce b a"
  by (cases a; cases b) simp_all

lemma np_accure_assoc: "np_accure (np_accure a b) c = np_accure a (np_accure b c)"
  by (simp add: np_accure_def consolidate_max_nonce_assoc)

lemma np_accure_commute: "np_accure a b = np_accure b a"
  by (simp add: np_accure_def consolidate_max_nonce_commute)

interpretation nmap: key_manager nonce_config counter_ok
proof (rule shared_key_manager [OF nonce_config_def])
  show "treap_contract nonce_config"
    unfolding nonce_config_def np_consolidate_accure [abs_def]
    by (rule shared_treap_contract) (rule refl np_accure_assoc np_accure_commute)+
qed

lemma nonce_config_simps [simp]:
  "weight_empty nonce_config = np_empty" "consolidate nonce_config = np_accure"
  "make_sort_key nonce_config x k v = ()" "get_sort_key nonce_config x k = Some ()"
  by (simp_all add: nonce_config_def shared_config_def np_consolidate_accure fun_eq_iff)

lemma klt_nonce [simp]: "klt nonce_config a b \<longleftrightarrow> snd a < snd b"
  by (simp add: klt_def nonce_config_def shared_config_def shared_next_node_dir_def)

section \<open>Sorted lists of entries\<close>

definition np_entry_ok :: "np_entry \<Rightarrow> bool" where
  "np_entry_ok e \<longleftrightarrow> e_key e = ti_nonce (e_val e) \<and> e_weight e = from_tx_info (e_val e)"

definition nmap_ok :: "'r nonce_map \<Rightarrow> bool" where
  "nmap_ok m \<longleftrightarrow> map_ok nonce_config counter_ok m \<and> list_all np_entry_ok (inorder (root m))"

text \<open>What a nonce map stores: the transaction of every nonce.\<close>

definition pool_of :: "'r nonce_map \<Rightarrow> u256 \<rightharpoonup> tx_info" where
  "pool_of m n = map_option fst (contents m n)"

definition np_total :: "np_entry list \<Rightarrow> np_weight" where
  "np_total es = foldl np_accure np_empty (map e_weight es)"

definition below_count :: "u256 \<Rightarrow> np_entry list \<Rightarrow> nat" where
  "below_count n es = length (filter (\<lambda>e. e_key e < n) es)"

abbreviation nonce_sorted :: "np_entry list \<Rightarrow> bool" where
  "nonce_sorted es \<equiv> sorted_wrt (<) (map e_key es)"

lemma ordered_nonce: "ordered nonce_config es \<longleftrightarrow> nonce_sorted es"
  by (simp add: ordered_def sorted_wrt_map skey_def)

lemma nmap_ok_sorted: "nmap_ok m \<Longrightarrow> nonce_sorted (inorder (root m))"
  by (simp add: nmap_ok_def map_ok_def core_ok_def treap_ok_def ordered_nonce)

lemma nmap_ok_sums: "nmap_ok m \<Longrightarrow> sums_ok nonce_config (root m)"
  by (simp add: nmap_ok_def map_ok_def core_ok_def treap_ok_def)

lemma below_count_le: "below_count n es \<le> length es"
  by (simp add: below_count_def)

lemma nonce_sorted_tail:
  assumes "nonce_sorted (e # es)" "\<not> e_key e < n"
  shows "filter (\<lambda>e. e_key e < n) es = []" "filter (\<lambda>e. \<not> e_key e < n) es = es"
  using assms by (auto simp: filter_empty_conv filter_id_conv)

lemma nth_below_count:
  assumes "nonce_sorted es" "j < length es"
  shows "e_key (es ! j) < n \<longleftrightarrow> j < below_count n es"
  using assms
proof (induction es arbitrary: j)
  case (Cons e es)
  from Cons nonce_sorted_tail [OF Cons.prems(1), of n] show ?case
    by (cases j) (auto simp: below_count_def)
qed simp

lemma nth_key_less: "nonce_sorted es \<Longrightarrow> i < j \<Longrightarrow> j < length es \<Longrightarrow> e_key (es ! i) < e_key (es ! j)"
  by (auto simp: sorted_wrt_iff_nth_less)

lemma nth_key_inj: "nonce_sorted es \<Longrightarrow> i < length es \<Longrightarrow> j < length es \<Longrightarrow> e_key (es ! i) = e_key (es ! j) \<Longrightarrow> i = j"
  using nth_key_less by (metis linorder_neqE_nat less_irrefl)

lemma below_count_nth:
  assumes "nonce_sorted es" "i < length es"
  shows "below_count (e_key (es ! i)) es = i"
proof -
  let ?c = "below_count (e_key (es ! i)) es"
  have "\<not> i < ?c" using nth_below_count [OF assms, of "e_key (es ! i)"] by simp
  moreover have "\<not> ?c < i"
    using nth_below_count [OF assms(1), of ?c "e_key (es ! i)"] nth_key_less [OF assms(1), of ?c i] assms(2) by auto
  ultimately show ?thesis by simp
qed

lemma filter_less_take:
  assumes "nonce_sorted es"
  shows "filter (\<lambda>e. e_key e < n) es = take (below_count n es) es"
  using assms
proof (induction es)
  case (Cons e es)
  from Cons nonce_sorted_tail [OF Cons.prems, of n] show ?case by (auto simp: below_count_def)
qed (simp add: below_count_def)

lemma filter_not_less_drop:
  assumes "nonce_sorted es"
  shows "filter (\<lambda>e. \<not> e_key e < n) es = drop (below_count n es) es"
  using assms
proof (induction es)
  case (Cons e es)
  from Cons nonce_sorted_tail [OF Cons.prems, of n] show ?case
    by (auto simp: below_count_def simp del: not_less)
qed simp

section \<open>Totals\<close>

lemma np_total_simps [simp]:
  "np_total [] = np_empty"
  "np_total (es @ [e]) = np_accure (np_total es) (e_weight e)"
  by (simp_all add: np_total_def)

lemma bex_set_take: "(\<exists>x\<in>set (take j xs). P x) \<longleftrightarrow> (\<exists>i<j. i < length xs \<and> P (xs ! i))"
proof
  assume "\<exists>x\<in>set (take j xs). P x"
  then show "\<exists>i<j. i < length xs \<and> P (xs ! i)"
    by (fastforce simp: in_set_conv_nth)
next
  assume "\<exists>i<j. i < length xs \<and> P (xs ! i)"
  then obtain i where i: "i < j" "i < length xs" "P (xs ! i)" by blast
  then have "take j xs ! i \<in> set (take j xs)" by (intro nth_mem) simp
  with i show "\<exists>x\<in>set (take j xs). P x" by auto
qed

lemma np_total_take_Suc:
  "i < length es \<Longrightarrow> np_total (take (Suc i) es) = np_accure (np_total (take i es)) (e_weight (es ! i))"
  by (simp add: take_Suc_conv_app_nth)

lemma prefix_np_total: "prefix_weight np_accure (\<lambda>w. w) np_empty es i = np_total (take i es)"
  by (simp add: np_total_def acc_weight_def)

abbreviation tx_cost_of :: "np_entry \<Rightarrow> u256" where "tx_cost_of e \<equiv> ti_tx_cost (e_val e)"
abbreviation unpacked :: "np_entry \<Rightarrow> bool" where "unpacked e \<equiv> \<not> ti_packed (e_val e)"

lemma np_total_fields:
  assumes "list_all np_entry_ok es"
  shows "np_size (np_total es) = length es"
    "unpacked_size (np_total es) = length (filter unpacked es)"
    "cost (np_total es) = sum_list (map tx_cost_of es)"
    "(case max_unpackd_nonce (np_total es) of None \<Rightarrow> False | Some x \<Rightarrow> x \<ge> n) \<longleftrightarrow>
      (\<exists>e\<in>set es. unpacked e \<and> n \<le> e_key e)"
proof -
  have "np_size (np_total es) = length es \<and> unpacked_size (np_total es) = length (filter unpacked es) \<and>
    cost (np_total es) = sum_list (map tx_cost_of es) \<and>
    ((case max_unpackd_nonce (np_total es) of None \<Rightarrow> False | Some x \<Rightarrow> x \<ge> n) \<longleftrightarrow>
      (\<exists>e\<in>set es. unpacked e \<and> n \<le> e_key e))"
    using assms
  proof (induction es rule: rev_induct)
    case (snoc e es)
    then show ?case
      by (cases "max_unpackd_nonce (np_total es)")
        (auto simp: np_accure_def np_entry_ok_def from_tx_info_def le_max_iff_disj)
  qed (simp add: np_empty_def)
  then show "np_size (np_total es) = length es"
    "unpacked_size (np_total es) = length (filter unpacked es)"
    "cost (np_total es) = sum_list (map tx_cost_of es)"
    "(case max_unpackd_nonce (np_total es) of None \<Rightarrow> False | Some x \<Rightarrow> x \<ge> n) \<longleftrightarrow>
      (\<exists>e\<in>set es. unpacked e \<and> n \<le> e_key e)" by auto
qed

section \<open>The searches as list functions\<close>

lemmas nsearch_stop = nmap.self_view.search_stop_nth [where ?w0.0 = np_empty, unfolded nonce_config_simps prefix_np_total]
lemmas nsearch_first = nmap.self_view.search_first_nth [where ?w0.0 = np_empty, unfolded nonce_config_simps prefix_np_total]
lemmas nsearch_last = nmap.self_view.search_last_nth [where ?w0.0 = np_empty, unfolded nonce_config_simps prefix_np_total]

lemma nsearch:
  "treap_search nonce_config m f =
     (if root m = Empty then None else Some (accumulate_weight_search np_empty np_accure (root m) f (\<lambda>w. w)))"
  by (simp add: treap_search_def)

lemma below_count_Suc:
  assumes "nonce_sorted es"
  shows "below_count (Suc n) es =
    (if \<exists>e\<in>set es. e_key e = n then Suc (below_count n es) else below_count n es)"
proof (cases "\<exists>e\<in>set es. e_key e = n")
  case True
  then obtain i where i: "i < length es" "e_key (es ! i) = n" by (auto simp: in_set_conv_nth)
  let ?c = "below_count (Suc n) es"
  have "i < ?c" using nth_below_count [OF assms i(1), of "Suc n"] i by simp
  moreover have "\<not> Suc i < ?c"
    using nth_below_count [OF assms, of "Suc i" "Suc n"] nth_key_less [OF assms, of i "Suc i"] i
      below_count_le [of "Suc n" es] by fastforce
  ultimately show ?thesis using below_count_nth [OF assms i(1)] i(2) True by simp
next
  case False
  then have "filter (\<lambda>e. e_key e < Suc n) es = filter (\<lambda>e. e_key e < n) es"
    by (intro filter_cong) (auto simp: less_Suc_eq)
  with False show ?thesis by (simp add: below_count_def)
qed

lemma nth_at_nonce:
  assumes "nonce_sorted es" "e \<in> set es" "e_key e = n"
  shows "below_count n es < length es" "es ! below_count n es = e"
  using assms below_count_nth [OF assms(1)] by (auto simp: in_set_conv_nth)

lemma carries_dirs:
  "carries np_accure (\<lambda>w. w) (weight_dir n)" "carries np_accure (\<lambda>w. w) (query_dir n)"
  "carries np_accure (\<lambda>w. w) (ready_dir n sw rest)"
  by (auto simp: carries_def weight_dir_def query_dir_def ready_dir_def np_consolidate_accure Let_def split: if_splits)

text \<open>The weight of a nonce is the total over all transactions up to it.\<close>

lemma nmap_weight_total:
  assumes "nmap_ok m"
  shows "nmap_weight m n = np_total (filter (\<lambda>e. e_key e \<le> n) (inorder (root m)))"
proof (cases "root m = Empty")
  case True
  then show ?thesis by (simp add: nmap_weight_def nsearch)
next
  case False
  let ?es = "inorder (root m)" and ?i = "below_count n (inorder (root m))"
  note srt = nmap_ok_sorted [OF assms] and sums = nmap_ok_sums [OF assms]
  have tk: "filter (\<lambda>e. e_key e \<le> n) ?es = take (below_count (Suc n) ?es) ?es"
    using filter_less_take [OF srt, of "Suc n"] by (simp add: less_Suc_eq_le)
  have lt: "j < ?i \<Longrightarrow> \<not> n < e_key (?es ! j) \<and> n \<noteq> e_key (?es ! j)" for j
    using nth_below_count [OF srt, of j n] below_count_le [of n ?es] by auto
  show ?thesis
  proof (cases "\<exists>e\<in>set ?es. e_key e = n")
    case True
    then have i: "?i < length ?es" "e_key (?es ! ?i) = n"
      using nth_at_nonce [OF srt] by auto
    have gt: "?i < j \<Longrightarrow> j < length ?es \<Longrightarrow> n < e_key (?es ! j)" for j
      using nth_key_less [OF srt, of ?i j] i(2) by simp
    have "accumulate_weight_search np_empty np_accure (root m) (weight_dir n) (\<lambda>w. w) =
        Found (np_total (take ?i ?es)) (?es ! ?i)"
      by (rule nsearch_stop [OF carries_dirs(1) sums refl i(1)])
        (use i lt gt in \<open>auto simp: weight_dir_def\<close>)
    then show ?thesis
      using i(1) by (simp add: nmap_weight_def nsearch False tk below_count_Suc [OF srt] True
          np_consolidate_accure np_total_take_Suc)
  next
    case absent: False
    have ge: "?i \<le> j \<Longrightarrow> j < length ?es \<Longrightarrow> n < e_key (?es ! j)" for j
      using nth_below_count [OF srt, of j n] absent by (metis linorder_neqE_nat not_le nth_mem)
    have "accumulate_weight_search np_empty np_accure (root m) (weight_dir n) (\<lambda>w. w) =
        (if 0 < ?i then Found (np_total (take (?i - 1) ?es)) (?es ! (?i - 1))
         else LeftMost)"
      by (subst nsearch_last [OF carries_dirs(1) sums False refl, of 0 ?i])
        (use lt ge below_count_le in \<open>auto simp: weight_dir_def\<close>)
    then show ?thesis
      using below_count_le [of n ?es] np_total_take_Suc [of "?i - 1" ?es]
      by (auto simp: nmap_weight_def nsearch False tk below_count_Suc [OF srt] absent np_consolidate_accure)
  qed
qed

text \<open>\<^verbatim>\<open>query\<close> finds the first unpacked transaction from a nonce on.\<close>

lemma nmap_query_find:
  assumes "nmap_ok m"
  shows "nmap_query m n = map_option e_val (find (\<lambda>e. unpacked e \<and> n \<le> e_key e) (inorder (root m)))"
proof (cases "root m = Empty")
  case True
  then show ?thesis by (simp add: nmap_query_def nsearch found_value_def)
next
  case False
  let ?es = "inorder (root m)" and ?P = "\<lambda>e. unpacked e \<and> n \<le> e_key e"
  note srt = nmap_ok_sorted [OF assms] and sums = nmap_ok_sums [OF assms]
  have ok: "list_all np_entry_ok ?es" using assms by (simp add: nmap_ok_def)
  define E where "E j \<longleftrightarrow> (\<exists>i<j. ?P (?es ! i))" for j
  have pre: "(case max_unpackd_nonce (np_total (take j ?es)) of None \<Rightarrow> False | Some x \<Rightarrow> x \<ge> n) \<longleftrightarrow> E j"
    if "j < length ?es" for j
  proof -
    have "list_all np_entry_ok (take j ?es)" using ok by (auto simp: list_all_iff dest: in_set_takeD)
    from np_total_fields(4) [OF this] that show ?thesis
      unfolding E_def bex_set_take by (metis (no_types, lifting) less_trans)
  qed
  have own: "(case max_unpackd_nonce (e_weight (?es ! j)) of None \<Rightarrow> False | Some x \<Rightarrow> x \<ge> n) \<longleftrightarrow> ?P (?es ! j)"
    if "j < length ?es" for j
    using ok that by (auto simp: list_all_length np_entry_ok_def from_tx_info_def)
  have ans: "query_dir n (np_total (take j ?es)) (?es ! j) =
      (if E j then SLeft
       else if ?P (?es ! j) then SStop else SRight (np_total (take (Suc j) ?es)))" if "j < length ?es" for j
    using that by (simp add: query_dir_def pre own np_consolidate_accure np_total_take_Suc)
  show ?thesis
  proof (cases "\<exists>e\<in>set ?es. ?P e")
    case True
    then have "find ?P ?es \<noteq> None" by (auto simp: find_None_iff)
    then obtain e where "find ?P ?es = Some e" by blast
    then obtain i where i: "i < length ?es" "?P (?es ! i)" "\<forall>j<i. \<not> ?P (?es ! j)"
      unfolding find_Some_iff by blast
    have "accumulate_weight_search np_empty np_accure (root m) (query_dir n) (\<lambda>w. w) =
        Found (np_total (take i ?es)) (?es ! i)"
      by (rule nsearch_stop [OF carries_dirs(2) sums refl i(1)]) (use i ans in \<open>auto simp: E_def\<close>)
    moreover have "find ?P ?es = Some (?es ! i)"
      using i by (auto simp: find_Some_iff)
    ultimately show ?thesis by (simp add: nmap_query_def nsearch False found_value_def)
  next
    case none: False
    then have np: "\<not> ?P (?es ! j)" if "j < length ?es" for j using that nth_mem by blast
    have "accumulate_weight_search np_empty np_accure (root m) (query_dir n) (\<lambda>w. w) =
        RightMost (acc_weight np_accure (\<lambda>w. w) np_empty ?es)"
      by (subst nsearch_first [OF carries_dirs(2) sums False refl, of "length ?es"]) (use ans np in \<open>auto simp: E_def\<close>)
    moreover have "find ?P ?es = None" using none by (auto simp: find_None_iff)
    ultimately show ?thesis by (simp add: nmap_query_def nsearch False found_value_def)
  qed
qed

lemma find_from_nonce:
  assumes "nonce_sorted es"
  shows "find (\<lambda>e. n \<le> e_key e) es =
    (if below_count n es < length es then Some (es ! below_count n es) else None)"
proof (cases "below_count n es < length es")
  case True
  then have "\<not> e_key (es ! below_count n es) < n" "\<forall>j<below_count n es. e_key (es ! j) < n"
    using nth_below_count [OF assms] by auto
  with True show ?thesis
    by (auto simp: find_Some_iff not_less intro!: exI [of _ "below_count n es"])
next
  case False
  then have "\<forall>j<length es. e_key (es ! j) < n"
    using nth_below_count [OF assms] by auto
  with False show ?thesis by (auto simp: find_None_iff in_set_conv_nth)
qed

lemma nmap_succ_find:
  assumes "nmap_ok m"
  shows "nmap_succ m n = map_option e_val (find (\<lambda>e. n \<le> e_key e) (inorder (root m)))"
proof (cases "root m = Empty")
  case True
  then show ?thesis by (simp add: nmap_succ_def treap_search_no_weight_def found_value_def)
next
  case False
  let ?es = "inorder (root m)"
  let ?f = "\<lambda>_ (e :: np_entry). sd_map_into (\<lambda>_. ()) (if n \<le> e_key e then SLeftOrStop else SRight ())"
  note srt = nmap_ok_sorted [OF assms]
  have "carries (\<lambda>_ _. ()) (\<lambda>_. ()) ?f" by (simp add: carries_def)
  then have "accumulate_weight_search () (\<lambda>_ _. ()) (root m) ?f (\<lambda>_. ()) =
      (if below_count n ?es < length ?es then Found () (?es ! below_count n ?es) else RightMost ())"
    using nth_below_count [OF srt] below_count_le [of n ?es]
    by (subst nmap.unit_view.search_first_nth [OF _ nmap_ok_sums [OF assms] False refl, of _ "below_count n ?es"])
      (auto simp flip: not_less)
  then show ?thesis
    by (simp add: nmap_succ_def treap_search_no_weight_def found_value_def False find_from_nonce [OF srt])
qed

lemma nmap_leftmost_hd:
  assumes "nmap_ok m"
  shows "nmap_leftmost m = (case inorder (root m) of [] \<Rightarrow> None | e # _ \<Rightarrow> Some (e_val e))"
proof (cases "root m = Empty")
  case True
  then show ?thesis by (simp add: nmap_leftmost_def treap_search_no_weight_def found_value_def)
next
  case False
  let ?es = "inorder (root m)" and ?f = "\<lambda>(_ :: unit) (e :: np_entry). sd_map_into (\<lambda>_ :: unit. ()) SLeftOrStop"
  have "?es \<noteq> []" using False by (cases "root m") auto
  moreover have "carries (\<lambda>_ _. ()) (\<lambda>_. ()) ?f" by (simp add: carries_def)
  then have "accumulate_weight_search () (\<lambda>_ _. ()) (root m) ?f (\<lambda>_. ()) =
      (if 0 < length ?es then Found () (?es ! 0) else RightMost ())"
    by (subst nmap.unit_view.search_first_nth [OF _ nmap_ok_sums [OF assms] False refl, of _ 0]) auto
  ultimately show ?thesis
    by (cases ?es) (simp_all add: nmap_leftmost_def treap_search_no_weight_def found_value_def False)
qed

section \<open>Weights in terms of the stored transactions\<close>

lemma pool_of_Some:
  assumes "nmap_ok m"
  shows "pool_of m n = Some t \<longleftrightarrow> (\<exists>e\<in>set (inorder (root m)). e_key e = n \<and> e_val e = t)"
  using assms contents_of_Some [of "inorder (root m)" n]
  by (auto simp: pool_of_def contents_def nmap_ok_def map_ok_def core_ok_def entries_ok_def)

lemma pool_of_nonce:
  assumes "nmap_ok m" "pool_of m n = Some t"
  shows "ti_nonce t = n"
  using assms pool_of_Some [OF assms(1)] by (auto simp: nmap_ok_def list_all_iff np_entry_ok_def)

definition pool_sum :: "(tx_info \<Rightarrow> nat) \<Rightarrow> 'r nonce_map \<Rightarrow> nat set \<Rightarrow> nat" where
  "pool_sum f m N = (\<Sum>n\<in>N. case pool_of m n of None \<Rightarrow> 0 | Some t \<Rightarrow> f t)"

lemma sum_list_pool_sum:
  assumes "nmap_ok m" "finite N"
  shows "sum_list (map (\<lambda>e. f (e_val e)) (filter (\<lambda>e. e_key e \<in> N) (inorder (root m)))) = pool_sum f m N"
proof -
  let ?es = "inorder (root m)" and ?g = "\<lambda>n. case pool_of m n of None \<Rightarrow> 0 | Some t \<Rightarrow> f t"
  let ?F = "filter (\<lambda>e. e_key e \<in> N) ?es"
  have dk: "distinct (map e_key ?es)"
    using assms(1) by (simp add: nmap_ok_def map_ok_def core_ok_def entries_ok_def)
  then have inj: "inj_on e_key (set ?F)" "distinct ?F"
    by (auto simp: distinct_map inj_on_def)
  have g: "f (e_val e) = ?g (e_key e)" if "e \<in> set ?F" for e
    using pool_of_Some [OF assms(1), of "e_key e" "e_val e"] that by auto
  have "sum_list (map (\<lambda>e. f (e_val e)) ?F) = (\<Sum>e\<in>set ?F. ?g (e_key e))"
    using inj(2) g by (subst sum_list_distinct_conv_sum_set) (auto intro: sum.cong)
  also have "\<dots> = sum ?g (e_key ` set ?F)"
    using inj(1) by (simp add: sum.reindex)
  also have "\<dots> = sum ?g N"
  proof (rule sum.mono_neutral_left [OF assms(2)])
    show "\<forall>i\<in>N - e_key ` set ?F. ?g i = 0"
      using pool_of_Some [OF assms(1)] by (auto split: option.splits)
  qed auto
  finally show ?thesis by (simp add: pool_sum_def)
qed

lemma nmap_weight_fields:
  assumes "nmap_ok m"
  shows "cost (nmap_weight m n) = pool_sum ti_tx_cost m {..n}"
    "np_size (nmap_weight m n) = pool_sum (\<lambda>_. 1) m {..n}"
    "unpacked_size (nmap_weight m n) = pool_sum (\<lambda>t. if ti_packed t then 0 else 1) m {..n}"
proof -
  let ?F = "filter (\<lambda>e. e_key e \<le> n) (inorder (root m))"
  have ok: "list_all np_entry_ok ?F" using assms by (simp add: nmap_ok_def list_all_iff)
  have unp: "length (filter unpacked es) = sum_list (map (\<lambda>e. if ti_packed (e_val e) then 0 else 1) es)"
    for es :: "np_entry list"
    by (induction es) simp_all
  note sums = sum_list_pool_sum [OF assms finite_atMost, unfolded atMost_iff]
  show "cost (nmap_weight m n) = pool_sum ti_tx_cost m {..n}"
    using np_total_fields(3) [OF ok] sums [of ti_tx_cost n] by (simp add: nmap_weight_total [OF assms])
  show "np_size (nmap_weight m n) = pool_sum (\<lambda>_. 1) m {..n}"
    using np_total_fields(1) [OF ok] sums [of "\<lambda>_. 1" n] by (simp add: nmap_weight_total [OF assms] sum_list_triv)
  show "unpacked_size (nmap_weight m n) = pool_sum (\<lambda>t. if ti_packed t then 0 else 1) m {..n}"
    unfolding nmap_weight_total [OF assms] np_total_fields(2) [OF ok] unp by (rule sums)
qed

section \<open>Ready sequences\<close>

text \<open>
  From \<open>s\<close> on, every nonce up to \<open>e\<close> is present and unpacked and the balance pays for them.
\<close>

definition ready_until :: "'r nonce_map \<Rightarrow> u256 \<Rightarrow> u256 \<Rightarrow> u256 \<Rightarrow> bool" where
  "ready_until m s rest e \<longleftrightarrow>
     (\<forall>n\<in>{s<..e}. \<exists>t. pool_of m n = Some t \<and> \<not> ti_packed t) \<and>
     pool_sum ti_tx_cost m {s<..e} \<le> rest \<and> e - s \<le> u32_max"

lemma pool_sum_split: "s \<le> e \<Longrightarrow> pool_sum f m {..e} = pool_sum f m {..s} + pool_sum f m {s<..e}"
proof -
  assume "s \<le> e"
  then have "{..e} = {..s} \<union> {s<..e}" "{..s} \<inter> {s<..e} = {}" by auto
  then show ?thesis by (simp add: pool_sum_def sum.union_disjoint)
qed

lemma pool_sum_mono_set: "finite B \<Longrightarrow> A \<subseteq> B \<Longrightarrow> pool_sum f m A \<le> pool_sum f m B"
  unfolding pool_sum_def by (rule sum_mono2) auto

lemma ready_until_mono: "ready_until m s rest e \<Longrightarrow> e' \<le> e \<Longrightarrow> ready_until m s rest e'"
  using pool_sum_mono_set [of "{s<..e}" "{s<..e'}" ti_tx_cost m]
  by (fastforce simp: ready_until_def)

lemma sum_indicator_card:
  assumes "finite A" "\<And>x. x \<in> A \<Longrightarrow> f x \<le> (1 :: nat)"
  shows "sum f A = card A \<longleftrightarrow> (\<forall>x\<in>A. f x = 1)"
proof
  assume "sum f A = card A"
  then have "sum f A = sum (\<lambda>_. 1) A" by simp
  then show "\<forall>x\<in>A. f x = 1"
    using sum_mono_inv [of f A "\<lambda>_. 1"] assms by blast
qed simp

lemma all_unpacked_iff:
  "pool_sum (\<lambda>t. if ti_packed t then 0 else 1) m {s<..e} = e - s \<longleftrightarrow>
     (\<forall>n\<in>{s<..e}. \<exists>t. pool_of m n = Some t \<and> \<not> ti_packed t)"
  unfolding pool_sum_def
  by (subst card_greaterThanAtMost [symmetric], subst sum_indicator_card) (auto split: option.splits)

lemma all_present_count:
  assumes "\<forall>n\<in>{s<..e}. \<exists>t. pool_of m n = Some t"
  shows "pool_sum (\<lambda>_. 1) m {s<..e} = e - s"
proof -
  have "pool_sum (\<lambda>_. 1) m {s<..e} = (\<Sum>n\<in>{s<..e}. 1)"
    unfolding pool_sum_def using assms by (intro sum.cong) fastforce+
  then show ?thesis by simp
qed

lemma nmap_weight_nth:
  assumes "nmap_ok m" "j < length (inorder (root m))"
  shows "np_accure (np_total (take j (inorder (root m)))) (e_weight (inorder (root m) ! j)) =
    nmap_weight m (e_key (inorder (root m) ! j))"
proof -
  let ?es = "inorder (root m)"
  note srt = nmap_ok_sorted [OF assms(1)]
  have "filter (\<lambda>e. e_key e \<le> e_key (?es ! j)) ?es = take (below_count (Suc (e_key (?es ! j))) ?es) ?es"
    using filter_less_take [OF srt, of "Suc (e_key (?es ! j))"] by (simp add: less_Suc_eq_le)
  moreover have "below_count (Suc (e_key (?es ! j))) ?es = Suc j"
    using below_count_Suc [OF srt] below_count_nth [OF srt assms(2)] assms(2) nth_mem by fastforce
  ultimately show ?thesis
    using assms(2) by (simp add: nmap_weight_total [OF assms(1)] np_total_take_Suc)
qed

text \<open>The subtractions of \<open>ready_dir\<close> do not underflow.\<close>

lemma ready_no_underflow:
  assumes "nmap_ok m" "s \<le> n"
  shows "np_size (nmap_weight m s) \<le> np_size (nmap_weight m n)"
    "unpacked_size (nmap_weight m s) \<le> unpacked_size (nmap_weight m n)"
    "cost (nmap_weight m s) \<le> cost (nmap_weight m n)"
  using assms(2) by (auto simp: nmap_weight_fields [OF assms(1)] intro!: pool_sum_mono_set)

lemma ready_dir_answer:
  assumes "nmap_ok m" "j < length (inorder (root m))"
  defines "n \<equiv> e_key (inorder (root m) ! j)"
  shows "ready_dir s (nmap_weight m s) rest (np_total (take j (inorder (root m)))) (inorder (root m) ! j) =
    (if n < s then SRight (nmap_weight m n)
     else if n = s \<or> ready_until m s rest n then SRightOrStop (nmap_weight m n)
     else SLeft)"
proof -
  have nonce: "ti_nonce (e_val (inorder (root m) ! j)) = n"
    using assms(1,2) by (auto simp: nmap_ok_def list_all_length np_entry_ok_def n_def)
  note w = nmap_weight_nth [OF assms(1,2), folded n_def]
  let ?u = "pool_sum (\<lambda>t. if ti_packed t then 0 else 1) m {s<..n}"
    and ?c = "pool_sum ti_tx_cost m {s<..n}" and ?k = "pool_sum (\<lambda>_. 1) m {s<..n}"
  have "(?k = ?u \<and> n - s = ?u \<and> ?c \<le> rest \<and> n - s \<le> u32_max) = ready_until m s rest n"
  proof -
    have "?k = n - s" if "\<forall>n\<in>{s<..n}. \<exists>t. pool_of m n = Some t \<and> \<not> ti_packed t"
      using all_present_count [of s n m] that by blast
    with all_unpacked_iff [of m s n] show ?thesis unfolding ready_until_def by metis
  qed
  then show ?thesis
    using nonce w unfolding ready_dir_def
    by (auto simp: np_consolidate_accure Let_def n_def [symmetric] nmap_weight_fields [OF assms(1)]
        pool_sum_split [of s n] not_less not_le)
qed

lemma continous_ready_nonce_max:
  assumes "nmap_ok m" "pool_of m s \<noteq> None"
    and e: "e = continous_ready_nonce m s (nmap_weight m s) rest"
  shows "s \<le> e" "ready_until m s rest e" "\<And>e'. ready_until m s rest e' \<Longrightarrow> e' \<le> e"
proof -
  let ?es = "inorder (root m)"
  note srt = nmap_ok_sorted [OF assms(1)]
  from assms(2) obtain a where a: "a < length ?es" "e_key (?es ! a) = s"
    using pool_of_Some [OF assms(1)] by (auto simp: in_set_conv_nth)
  let ?R = "\<lambda>j. ready_until m s rest (e_key (?es ! j))"
  define i where "i = (LEAST i. a < i \<and> (i < length ?es \<longrightarrow> \<not> ?R i))"
  have i: "a < i" "i < length ?es \<Longrightarrow> \<not> ?R i"
    using LeastI [of "\<lambda>i. a < i \<and> (i < length ?es \<longrightarrow> \<not> ?R i)" "length ?es"] a by (auto simp: i_def)
  have R: "j < length ?es \<and> ?R j" if "a < j" "j < i" for j
    using not_less_Least [of j "\<lambda>i. a < i \<and> (i < length ?es \<longrightarrow> \<not> ?R i)"] that by (auto simp: i_def)
  have ilen: "i \<le> length ?es"
    using R [of "length ?es"] a i(1) by force
  have notR: "\<not> ?R j" if "i \<le> j" "j < length ?es" for j
    using i(2) that nth_key_less [OF srt, of i j] ready_until_mono [of m s rest "e_key (?es ! j)" "e_key (?es ! i)"]
    by (cases "i = j") auto
  have key: "e_key (?es ! j) < s" if "j < a" for j
    using nth_key_less [OF srt that a(1)] a(2) by simp
  have key': "s < e_key (?es ! j)" if "a < j" "j < length ?es" for j
    using nth_key_less [OF srt that] a(2) by simp
  have ne: "root m \<noteq> Empty" using a(1) by auto
  note ans = ready_dir_answer [OF assms(1), of _ s rest]
  have "accumulate_weight_search np_empty np_accure (root m) (ready_dir s (nmap_weight m s) rest) (\<lambda>w. w) =
      Found (np_total (take (i - 1) ?es)) (?es ! (i - 1))"
  proof (subst nsearch_last [OF carries_dirs(3) nmap_ok_sums [OF assms(1)] ne refl, of a i])
    fix j assume "j < a"
    with ans [of j] key [of j] a(1) show "\<exists>w. ready_dir s (nmap_weight m s) rest (np_total (take j ?es)) (?es ! j) = SRight w"
      by simp
  next
    fix j assume "a \<le> j" "j < i"
    with ans [of j] R [of j] a key' [of j] ilen
    show "\<exists>w. ready_dir s (nmap_weight m s) rest (np_total (take j ?es)) (?es ! j) = SRightOrStop w"
      by (cases "a = j") auto
  next
    fix j assume "i \<le> j" "j < length ?es"
    with ans [of j] notR [of j] key' [of j] i(1)
    show "ready_dir s (nmap_weight m s) rest (np_total (take j ?es)) (?es ! j) = SLeft"
      by auto
  qed (use i(1) ilen in auto)
  then have "e = ti_nonce (e_val (?es ! (i - 1)))"
    using e ne by (simp add: continous_ready_nonce_def nsearch found_value_def)
  also have "\<dots> = e_key (?es ! (i - 1))"
    using assms(1) i(1) ilen by (auto simp: nmap_ok_def list_all_length np_entry_ok_def)
  finally have ek: "e = e_key (?es ! (i - 1))" .
  show "s \<le> e" "ready_until m s rest e"
    using R [of "i - 1"] key' [of "i - 1"] a i(1) ilen
    by (cases "i - 1 = a"; force simp: ek ready_until_def pool_sum_def)+
  fix e' assume r: "ready_until m s rest e'"
  show "e' \<le> e"
  proof (rule ccontr)
    assume "\<not> e' \<le> e"
    with r \<open>s \<le> e\<close> have "pool_of m e' \<noteq> None" by (force simp: ready_until_def)
    then obtain j where j: "j < length ?es" "e_key (?es ! j) = e'"
      using pool_of_Some [OF assms(1)] by (auto simp: in_set_conv_nth)
    have "i - 1 < length ?es" using ilen i(1) by linarith
    then have "\<not> j < i - 1"
      using nth_key_less [OF srt, of j "i - 1"] j \<open>\<not> e' \<le> e\<close> ek ilen i(1) by auto
    moreover have "j \<noteq> i - 1" using j(2) ek \<open>\<not> e' \<le> e\<close> by auto
    ultimately have "i \<le> j" using i(1) by linarith
    with notR [OF this j(1)] r j(2) show False by simp
  qed
qed

section \<open>The operations\<close>

lemma nmap_ok_contents:
  "nmap_ok m \<longleftrightarrow> map_ok nonce_config counter_ok m \<and>
     (\<forall>n t w. contents m n = Some (t, w) \<longrightarrow> n = ti_nonce t \<and> w = from_tx_info t)"
proof (cases "map_ok nonce_config counter_ok m")
  case True
  then have "distinct (map e_key (inorder (root m)))"
    by (simp add: map_ok_def core_ok_def entries_ok_def)
  note c = contents_of_Some [OF this, folded contents_def]
  show ?thesis
    using True by (auto simp: nmap_ok_def list_all_iff np_entry_ok_def c)
qed (simp add: nmap_ok_def)

lemma nmap_ok_entry:
  "nmap_ok m \<Longrightarrow> pool_of m n = Some t \<Longrightarrow> contents m n = Some (t, from_tx_info t) \<and> ti_nonce t = n"
  by (auto simp: nmap_ok_contents pool_of_def)

lemma nmap_ok_upd:
  assumes "nmap_ok m" "map_ok nonce_config counter_ok m'"
    and "contents m' = (contents m)(n := map_option (\<lambda>t. (t, from_tx_info t)) mt)"
    and "pred_option (\<lambda>t. ti_nonce t = n) mt"
  shows "nmap_ok m'" "pool_of m' = (pool_of m)(n := mt)"
  using assms by (cases mt; auto simp: nmap_ok_contents pool_of_def fun_eq_iff option.map_comp o_def option.map_ident)+

lemma nmap_new_ok: "nmap_ok (nmap_new r)" "pool_of (nmap_new r) = Map.empty"
  using nmap.treap_new_ok [of r] by (auto simp: nmap_ok_contents nmap_new_def pool_of_def)

lemma nmap_get_pool: "nmap_ok m \<Longrightarrow> nmap_get m n = pool_of m n"
  by (simp add: nmap_get_def pool_of_def nmap.treap_get_contents nmap_ok_contents)

lemma dom_pool_of: "dom (pool_of m) = dom (contents m)"
  by (auto simp: pool_of_def)

lemma nmap_len_pool: "nmap_ok m \<Longrightarrow> nmap_len m = card (dom (pool_of m))"
  by (simp add: nmap_len_def nmap.treap_len_contents nmap_ok_contents dom_pool_of)

lemma nmap_remove_spec:
  assumes "nmap_ok m" "nmap_remove m n = (m', ret)"
  shows "nmap_ok m' \<and> pool_of m' = (pool_of m)(n := None) \<and> ret = pool_of m n"
  using nmap.treap_remove_spec [of m n m' ret] assms nmap_ok_upd [of m m' n None]
  by (auto simp: nmap_remove_def nmap_ok_contents pool_of_def)

lemma insert_closures_ok:
  "update_fn_ok (insert_update tx force) sk" "insert_fn_ok (insert_fresh nx tx)"
  "update_fn_ok (packed_update p) sk"
proof -
  show "update_fn_ok (insert_update tx force) sk"
    by (auto simp: update_fn_ok_def insert_update_def skey_def split: option.splits bool.splits)
  show "insert_fn_ok (insert_fresh nx tx)"
    by (auto simp: insert_fn_ok_def insert_fresh_def split: prod.splits)
  show "update_fn_ok (packed_update p) sk"
    by (auto simp: update_fn_ok_def packed_update_def skey_def Let_def)
qed

lemma nmap_insert_new:
  assumes "nmap_ok m" "pool_of m (ti_nonce tx) = None"
  obtains m' where "nmap_insert nx m tx force = Some (m', NewAdded)" "nmap_ok m'"
    "pool_of m' = (pool_of m)(ti_nonce tx \<mapsto> tx)"
proof -
  let ?n = "ti_nonce tx"
  obtain r1 p where nx: "nx (rng m) = (r1, p)" by (cases "nx (rng m)")
  then have ins: "insert_fresh nx tx (rng m) = (r1, Inr (node_new ?n tx () (from_tx_info tx) p, NewAdded))"
    by (simp add: insert_fresh_def)
  obtain m' res where u: "treap_update nonce_config nx m ?n (insert_update tx force) (insert_fresh nx tx) = (m', res)"
    by fastforce
  have "contents m ?n = None" "map_ok nonce_config counter_ok m"
    using assms by (auto simp: pool_of_def nmap_ok_contents)
  with nmap.treap_update_absent(2) [OF _ _ insert_closures_ok(1,2) ins u]
  have m': "map_ok nonce_config counter_ok m'" "contents m' = (contents m)(?n \<mapsto> (tx, from_tx_info tx))"
    "res = Some (Inr NewAdded)" by auto
  have "nmap_insert nx m tx force = Some (m', NewAdded)"
    unfolding nmap_insert_def u m'(3) by simp
  then show ?thesis
    using nmap_ok_upd [OF assms(1) m'(1), of ?n "Some tx"] m'(2) by (intro that) simp_all
qed

lemmas nmap_update_present = nmap.treap_update_present [unfolded nonce_config_simps]

lemma nmap_insert_existing:
  assumes "nmap_ok m" "pool_of m (ti_nonce tx) = Some old"
  shows "case should_replace tx old force of
      None \<Rightarrow> nmap_insert nx m tx force = None
    | Some True \<Rightarrow> \<exists>m'. nmap_insert nx m tx force = Some (m', Updated old) \<and> nmap_ok m' \<and>
        pool_of m' = (pool_of m)(ti_nonce tx \<mapsto> tx)
    | Some False \<Rightarrow> \<exists>m'. nmap_insert nx m tx force = Some (m', Failed (ti_gas_price old)) \<and> nmap_ok m' \<and>
        pool_of m' = pool_of m"
proof -
  let ?n = "ti_nonce tx" and ?e = "\<lparr>e_key = ti_nonce tx, e_val = old, e_sort = (), e_weight = from_tx_info old\<rparr>"
  obtain m' res where u: "treap_update nonce_config nx m ?n (insert_update tx force) (insert_fresh nx tx) = (m', res)"
    by fastforce
  obtain e' r where up: "insert_update tx force ?e = (e', r)" by fastforce
  have mok: "map_ok nonce_config counter_ok m" and c: "contents m ?n = Some (old, from_tx_info old)"
    using assms nmap_ok_entry by (auto simp: nmap_ok_contents)
  note spec = nmap_update_present [OF mok c insert_closures_ok(1,2) up u]
  have old: "nmap_ok m' \<and> pool_of m' = pool_of m"
    if "map_ok nonce_config counter_ok m'" "contents m' = contents m"
    using that assms(1) by (auto simp: nmap_ok_contents pool_of_def fun_eq_iff)
  show ?thesis
  proof (cases "should_replace tx old force")
    case None
    have "e' = ?e" "r = Inl ()" using up None by (simp_all add: insert_update_def)
    then have "res = Some (Inl ())" using spec(1) by blast
    with None u show ?thesis by (simp add: nmap_insert_def)
  next
    case (Some b)
    show ?thesis
    proof (cases b)
      case True
      have e': "e' = ?e\<lparr>e_val := tx, e_weight := from_tx_info tx\<rparr>"
        and r: "r = Inr \<lparr>out = Updated old, update_weight_flag = True, update_key = False, delete_item = False\<rparr>"
        using up Some True by (simp_all add: insert_update_def)
      have m': "map_ok nonce_config counter_ok m'" "contents m' = (contents m)(?n \<mapsto> (tx, from_tx_info tx))"
        "res = Some (Inr (Updated old))"
        using spec(2) [OF r] by (simp_all add: e')
      have "nmap_insert nx m tx force = Some (m', Updated old)"
        unfolding nmap_insert_def u m'(3) by simp
      with nmap_ok_upd [OF assms(1) m'(1), of ?n "Some tx"] m'(2) Some True show ?thesis by simp
    next
      case False
      have e': "e' = ?e" and r: "r = Inr \<lparr>out = Failed (ti_gas_price old), update_weight_flag = False,
          update_key = False, delete_item = False\<rparr>"
        using up Some False by (simp_all add: insert_update_def)
      have m': "map_ok nonce_config counter_ok m'" "contents m' = contents m"
        "res = Some (Inr (Failed (ti_gas_price old)))"
        using spec(2) [OF r] c by (simp_all add: e' fun_upd_idem)
      have "nmap_insert nx m tx force = Some (m', Failed (ti_gas_price old))"
        unfolding nmap_insert_def u m'(3) by simp
      with old [OF m'(1,2)] Some False show ?thesis by simp
    qed
  qed
qed

lemma nmap_mark_packed_spec:
  assumes "nmap_ok m" "nmap_mark_packed nx m n p = (m', changed)"
  shows "nmap_ok m' \<and> (case pool_of m n of
      None \<Rightarrow> \<not> changed \<and> pool_of m' = pool_of m
    | Some t \<Rightarrow> changed = (ti_packed t \<noteq> p) \<and> pool_of m' = (pool_of m)(n \<mapsto> t\<lparr>ti_packed := p\<rparr>))"
proof -
  have mok: "map_ok nonce_config counter_ok m" using assms(1) by (simp add: nmap_ok_contents)
  have same: "nmap_ok m' \<and> pool_of m' = pool_of m"
    if "map_ok nonce_config counter_ok m'" "contents m' = contents m"
    using that assms(1) by (auto simp: nmap_ok_contents pool_of_def fun_eq_iff)
  obtain res where u: "treap_update nonce_config nx m n (packed_update p) (\<lambda>r. (r, Inl ())) = (m', res)"
    and ch: "changed = (case res of Some (Inr _) \<Rightarrow> True | _ \<Rightarrow> False)"
    using assms(2) by (auto simp: nmap_mark_packed_def split: prod.splits)
  have ins: "insert_fn_ok (\<lambda>r. (r, Inl ()))" by (simp add: insert_fn_ok_def)
  show ?thesis
  proof (cases "pool_of m n")
    case None
    then have "contents m n = None" by (simp add: pool_of_def)
    from nmap.treap_update_absent(1) [OF mok this insert_closures_ok(3) ins refl u refl] same ch None
    show ?thesis by simp
  next
    case (Some t)
    let ?e = "\<lparr>e_key = n, e_val = t, e_sort = (), e_weight = from_tx_info t\<rparr>"
    have c: "contents m n = Some (t, from_tx_info t)" "ti_nonce t = n"
      using nmap_ok_entry [OF assms(1) Some] by auto
    obtain e' r where up: "packed_update p ?e = (e', r)" by fastforce
    note spec = nmap_update_present [OF mok c(1) insert_closures_ok(3) ins up u]
    show ?thesis
    proof (cases "p = ti_packed t")
      case True
      have "e' = ?e" "r = Inl ()" using up True by (simp_all add: packed_update_def)
      then have "map_ok nonce_config counter_ok m'" "contents m' = contents m" "res = Some (Inl ())"
        using spec(1) by blast+
      with same ch Some True show ?thesis by (simp add: fun_upd_idem)
    next
      case False
      let ?t = "t\<lparr>ti_packed := p\<rparr>"
      have e': "e' = ?e\<lparr>e_val := ?t, e_weight := from_tx_info ?t\<rparr>"
        and r: "r = Inr \<lparr>out = (), update_weight_flag = True, update_key = False, delete_item = False\<rparr>"
        using up False by (simp_all add: packed_update_def Let_def)
      have m': "map_ok nonce_config counter_ok m'" "contents m' = (contents m)(n \<mapsto> (?t, from_tx_info ?t))"
        "changed"
        using spec(2) [OF r] ch by (simp_all add: e')
      with nmap_ok_upd [OF assms(1) m'(1), of n "Some ?t"] c(2) Some False show ?thesis by simp
    qed
  qed
qed

lemma nmap_iter_range_sorted:
  assumes "nmap_ok m"
  shows "nmap_iter_range m n = map e_val (filter (\<lambda>e. n \<le> e_key e) (inorder (root m)))"
proof (cases "root m = Empty")
  case True
  then show ?thesis by (simp add: nmap_iter_range_def treap_iter_range_def iter_collect_remaining)
next
  case False
  have "ordered nonce_config (inorder (root m))"
    using nmap_ok_sorted [OF assms] by (simp add: ordered_nonce)
  with False nmap.remaining_extend_path_with_key [OF False, of "((), n)" "[]"]
    extend_path_with_key_no_Empty [OF False, of "[]" nonce_config "((), n)"]
  show ?thesis
    by (simp add: nmap_iter_range_def treap_iter_range_def iter_collect_remaining skey_def not_less)
qed

end
