(* ===== verification/Packing_Batch.thy ===== *)
theory Packing_Batch
  imports Mazze_Prelude "HOL-Library.Multiset"
begin

text \<open>
  \<^verbatim>\<open>crates/mazzecore/packing-pool/src/packing_batch.rs\<close> and the batch part of \<^verbatim>\<open>pool_config.rs\<close>: a
  batch of transactions of one sender with consecutive nonces and non-decreasing gas prices.
  The trait \<^verbatim>\<open>PackingPoolTransaction\<close> is the record \<open>tx_ops\<close> of its four methods.
\<close>

section \<open>Definitions\<close>

record ('tx, 'a) tx_ops =
  sender_of :: "'tx \<Rightarrow> 'a"
  nonce_of :: "'tx \<Rightarrow> u256"
  price_of :: "'tx \<Rightarrow> u256"
  gas_of :: "'tx \<Rightarrow> u256"

record packing_pool_config =
  address_gas_limit :: u256
  address_tx_count :: nat
  loss_ratio_degree :: nat

definition packing_pool_config_new :: "u256 \<Rightarrow> nat \<Rightarrow> nat \<Rightarrow> packing_pool_config option" where
  "packing_pool_config_new gas_limit tx_count degree =
     do {
       assert_that (degree > 0 \<and> degree \<le> 5);
       Some \<lparr>address_gas_limit = gas_limit, address_tx_count = tx_count, loss_ratio_degree = degree\<rparr>
     }"

record 'tx batch =
  txs :: "'tx list"
  total_gas_limit :: u256

datatype insert_error = LargeNonce | TooLargeNonce | ExceedAddrTxCount | ExceedAddrGasLimit | DecreasingGasPrice

datatype remove_error = ShouldDelete

record pack_info =
  pi_first_gas_price :: u256
  pi_total_gas_limit :: u256

definition batch_new :: "('tx, 'a) tx_ops \<Rightarrow> 'tx \<Rightarrow> 'tx batch" where
  "batch_new T tx = \<lparr>txs = [tx], total_gas_limit = gas_of T tx\<rparr>"

definition first_tx :: "'tx batch \<Rightarrow> 'tx option" where
  "first_tx b = (case txs b of [] \<Rightarrow> None | tx # _ \<Rightarrow> Some tx)"

definition batch_sender :: "('tx, 'a) tx_ops \<Rightarrow> 'tx batch \<Rightarrow> 'a option" where
  "batch_sender T b = map_option (sender_of T) (first_tx b)"

definition start_nonce :: "('tx, 'a) tx_ops \<Rightarrow> 'tx batch \<Rightarrow> u256 option" where
  "start_nonce T b = map_option (nonce_of T) (first_tx b)"

definition first_gas_price :: "('tx, 'a) tx_ops \<Rightarrow> 'tx batch \<Rightarrow> u256 option" where
  "first_gas_price T b = map_option (price_of T) (first_tx b)"

definition pack_info_of :: "('tx, 'a) tx_ops \<Rightarrow> 'tx batch \<Rightarrow> pack_info option" where
  "pack_info_of T b =
     do {p \<leftarrow> first_gas_price T b; Some \<lparr>pi_first_gas_price = p, pi_total_gas_limit = total_gas_limit b\<rparr>}"

text \<open>The loop of \<^verbatim>\<open>check_acceptable_batch\<close>; \<open>replaced\<close> substitutes the gas limit at one index.\<close>

fun acceptable ::
  "('tx, 'a) tx_ops \<Rightarrow> packing_pool_config \<Rightarrow> ('tx \<times> nat) option \<Rightarrow> nat \<Rightarrow> u256 \<Rightarrow> 'tx list \<Rightarrow> (nat \<times> u256) option" where
  "acceptable T cfg replaced idx tot [] = Some (idx, tot)"
| "acceptable T cfg replaced idx tot (tx # rest) =
     (if idx \<ge> address_tx_count cfg then Some (idx, tot)
      else
        let tx_gas = (case replaced of Some (r, i) \<Rightarrow> (if idx = i then gas_of T r else gas_of T tx) | None \<Rightarrow> gas_of T tx)
        in do {
          s \<leftarrow> cadd 256 tot tx_gas;
          if s > address_gas_limit cfg then Some (if idx = 0 then (1, tx_gas) else (idx, tot))
          else acceptable T cfg replaced (Suc idx) s rest
        })"

definition check_acceptable_batch ::
  "('tx, 'a) tx_ops \<Rightarrow> packing_pool_config \<Rightarrow> 'tx list \<Rightarrow> ('tx \<times> nat) option \<Rightarrow> (nat \<times> u256) option" where
  "check_acceptable_batch T cfg ts replaced = acceptable T cfg replaced 0 0 ts"

fun gas_total :: "('tx, 'a) tx_ops \<Rightarrow> u256 \<Rightarrow> 'tx list \<Rightarrow> u256 option" where
  "gas_total T acc [] = Some acc"
| "gas_total T acc (tx # rest) = do {s \<leftarrow> cadd 256 acc (gas_of T tx); gas_total T s rest}"

definition update_total_limit :: "('tx, 'a) tx_ops \<Rightarrow> 'tx batch \<Rightarrow> 'tx batch option" where
  "update_total_limit T b = do {s \<leftarrow> gas_total T 0 (txs b); Some (b\<lparr>total_gas_limit := s\<rparr>)}"

text \<open>The transactions cut off by an update of the total after \<^verbatim>\<open>split_off(i)\<close>.\<close>

definition cut_at :: "('tx, 'a) tx_ops \<Rightarrow> 'tx batch \<Rightarrow> nat \<Rightarrow> ('tx batch \<times> 'tx list) option" where
  "cut_at T b i = do {b' \<leftarrow> update_total_limit T (b\<lparr>txs := take i (txs b)\<rparr>); Some (b', drop i (txs b))}"

definition batch_insert ::
  "('tx, 'a) tx_ops \<Rightarrow> packing_pool_config \<Rightarrow> 'tx batch \<Rightarrow> 'tx \<Rightarrow>
   ('tx batch \<times> 'tx list \<times> (insert_error + unit)) option" where
  "batch_insert T cfg b tx =
     do {
       sender \<leftarrow> batch_sender T b;
       assert_that (sender_of T tx = sender);
       if nonce_of T tx \<ge> u256_max - 1 then Some (b, [], Inl TooLargeNonce)
       else do {
         start \<leftarrow> start_nonce T b;
         first_price \<leftarrow> first_gas_price T b;
         let n_txs = length (txs b);
         if nonce_of T tx + 1 < start \<or> nonce_of T tx + 1 = start \<and> price_of T tx > first_price
         then Some (batch_new T tx, txs b, Inr ())
         else if nonce_of T tx + 1 = start \<and> price_of T tx \<le> first_price
         then do {
           (truncate_idx, addr_gas_limit) \<leftarrow> check_acceptable_batch T cfg (tx # txs b) None;
           Some (\<lparr>txs = take truncate_idx (tx # txs b), total_gas_limit = addr_gas_limit\<rparr>,
                 drop truncate_idx (tx # txs b), Inr ())
         }
         else do {
           next_nonce \<leftarrow> cadd 256 start n_txs;
           if nonce_of T tx > next_nonce then Some (b, [], Inl LargeNonce)
           else if nonce_of T tx = next_nonce then
             (if n_txs \<ge> address_tx_count cfg then Some (b, [], Inl ExceedAddrTxCount)
              else if price_of T (last (txs b)) > price_of T tx then Some (b, [], Inl DecreasingGasPrice)
              else if address_gas_limit cfg < sat_add 256 (total_gas_limit b) (gas_of T tx)
              then Some (b, [], Inl ExceedAddrGasLimit)
              else do {
                tot \<leftarrow> cadd 256 (total_gas_limit b) (gas_of T tx);
                Some (\<lparr>txs = txs b @ [tx], total_gas_limit = tot\<rparr>, [], Inr ())
              })
           else do {
             let idx = nonce_of T tx - start;
             if idx > 0 \<and> price_of T tx < price_of T (txs b ! (idx - 1))
             then do {(b', old) \<leftarrow> cut_at T b idx; Some (b', old, Inl DecreasingGasPrice)}
             else do {
               (truncate_idx, addr_gas_limit) \<leftarrow> check_acceptable_batch T cfg (txs b) (Some (tx, idx));
               if truncate_idx \<le> idx
               then do {(b', old) \<leftarrow> cut_at T b idx; Some (b', old, Inl ExceedAddrGasLimit)}
               else do {
                 let replaced_tx = txs b ! idx;
                 let ts = (txs b)[idx := tx];
                 if idx + 1 < length ts \<and> price_of T (ts ! (idx + 1)) < price_of T tx
                 then do {
                   (b', old) \<leftarrow> cut_at T (b\<lparr>txs := ts\<rparr>) (idx + 1);
                   Some (b', replaced_tx # old, Inr ())
                 }
                 else Some (\<lparr>txs = take truncate_idx ts, total_gas_limit = addr_gas_limit\<rparr>,
                            replaced_tx # drop truncate_idx ts, Inr ())
               }
             }
           }
         }
       }
     }"

definition split_off_inner ::
  "('tx, 'a) tx_ops \<Rightarrow> 'tx batch \<Rightarrow> nat \<Rightarrow> bool \<Rightarrow> ('tx batch \<times> (remove_error + 'tx list)) option" where
  "split_off_inner T b index keep_prefix =
     (if index = 0 \<or> index \<ge> length (txs b)
      then Some (b, if (index = 0) \<noteq> keep_prefix then Inr [] else Inl ShouldDelete)
      else
        let kept = (if keep_prefix then take index (txs b) else drop index (txs b));
            res = (if keep_prefix then drop index (txs b) else take index (txs b))
        in do {b' \<leftarrow> update_total_limit T (b\<lparr>txs := kept\<rparr>); Some (b', Inr res)})"

definition batch_split_off_suffix :: "('tx, 'a) tx_ops \<Rightarrow> 'tx batch \<Rightarrow> nat \<Rightarrow> ('tx batch \<times> (remove_error + 'tx list)) option" where
  "batch_split_off_suffix T b index = split_off_inner T b index True"

definition batch_split_off_prefix :: "('tx, 'a) tx_ops \<Rightarrow> 'tx batch \<Rightarrow> nat \<Rightarrow> ('tx batch \<times> (remove_error + 'tx list)) option" where
  "batch_split_off_prefix T b index = split_off_inner T b index False"

definition split_off_by_nonce ::
  "('tx, 'a) tx_ops \<Rightarrow> 'tx batch \<Rightarrow> u256 \<Rightarrow> bool \<Rightarrow> ('tx batch \<times> (remove_error + 'tx list)) option" where
  "split_off_by_nonce T b nonce keep_prefix =
     do {
       start \<leftarrow> start_nonce T b;
       if nonce < start then split_off_inner T b 0 keep_prefix
       else do {
         past \<leftarrow> cadd 256 start (length (txs b));
         if nonce \<ge> past then split_off_inner T b (length (txs b)) keep_prefix
         else split_off_inner T b (nonce - start) keep_prefix
       }
     }"

section \<open>Well-formed batches\<close>

definition linked :: "('tx, 'a) tx_ops \<Rightarrow> 'tx \<Rightarrow> 'tx \<Rightarrow> bool" where
  "linked T s t \<longleftrightarrow> sender_of T s = sender_of T t \<and> nonce_of T s + 1 = nonce_of T t \<and> price_of T s \<le> price_of T t"

abbreviation gas_sum :: "('tx, 'a) tx_ops \<Rightarrow> 'tx list \<Rightarrow> nat" where
  "gas_sum T ts \<equiv> sum_list (map (gas_of T) ts)"

definition batch_ok :: "('tx, 'a) tx_ops \<Rightarrow> 'tx batch \<Rightarrow> bool" where
  "batch_ok T b \<longleftrightarrow> txs b \<noteq> [] \<and> successively (linked T) (txs b) \<and> total_gas_limit b = gas_sum T (txs b)"

definition batch_fits :: "packing_pool_config \<Rightarrow> 'tx batch \<Rightarrow> bool" where
  "batch_fits cfg b \<longleftrightarrow>
     length (txs b) \<le> address_tx_count cfg \<and> (length (txs b) = 1 \<or> total_gas_limit b \<le> address_gas_limit cfg)"

lemma linked_nth:
  "successively (linked T) ts \<Longrightarrow> i < length ts \<Longrightarrow>
     nonce_of T (ts ! i) = nonce_of T (hd ts) + i \<and> sender_of T (ts ! i) = sender_of T (hd ts)"
proof (induction i)
  case 0
  then show ?case by (cases ts) auto
next
  case (Suc i)
  then have "linked T (ts ! i) (ts ! Suc i)" by (simp add: successively_conv_nth)
  with Suc show ?case by (auto simp: linked_def)
qed

lemma linked_price_mono:
  assumes "successively (linked T) ts" "i \<le> j" "j < length ts"
  shows "price_of T (ts ! i) \<le> price_of T (ts ! j)"
  using assms(2,3)
proof (induction j)
  case (Suc j)
  then show ?case
    using assms(1) by (cases "i = Suc j") (auto simp: successively_conv_nth linked_def intro: order_trans)
qed simp

lemma successively_take: "successively P ts \<Longrightarrow> successively P (take i ts)"
  by (simp add: successively_conv_nth)

lemma successively_drop: "successively P ts \<Longrightarrow> successively P (drop i ts)"
  by (simp add: successively_conv_nth)

lemma batch_ok_first:
  assumes "batch_ok T b"
  shows "first_tx b = Some (hd (txs b))" "batch_sender T b = Some (sender_of T (hd (txs b)))"
    "start_nonce T b = Some (nonce_of T (hd (txs b)))" "first_gas_price T b = Some (price_of T (hd (txs b)))"
  using assms by (auto simp: batch_ok_def first_tx_def batch_sender_def start_nonce_def first_gas_price_def split: list.splits)

lemma batch_ok_new: "batch_ok T (batch_new T tx)"
  by (simp add: batch_ok_def batch_new_def)

section \<open>Acceptable prefixes\<close>

lemma gas_total_eq: "gas_total T acc ts = (if acc + gas_sum T ts < 2 ^ 256 then Some (acc + gas_sum T ts) else None)"
  if "acc < 2 ^ 256"
  using that by (induction ts arbitrary: acc) (auto simp: cadd_def add.assoc)

lemma cut_at_eq:
  "cut_at T b i =
     (if gas_sum T (take i (txs b)) < 2 ^ 256
      then Some (\<lparr>txs = take i (txs b), total_gas_limit = gas_sum T (take i (txs b))\<rparr>, drop i (txs b))
      else None)"
  by (cases b) (simp add: cut_at_def update_total_limit_def gas_total_eq)

lemma acceptable_replaced:
  "acceptable T cfg (Some (r, i)) idx tot ts =
     acceptable T cfg None idx tot (if idx \<le> i then ts[i - idx := r] else ts)"
proof (induction ts arbitrary: idx tot)
  case (Cons t ts)
  consider "idx < i" | "idx = i" | "i < idx" by linarith
  then show ?case
  proof cases
    case 1
    then obtain d where "i - idx = Suc d" "i - Suc idx = d" by (metis Suc_diff_Suc)
    with 1 Cons show ?thesis by (simp add: Let_def cong: if_cong)
  qed (use Cons in \<open>simp_all add: Let_def cong: if_cong\<close>)
qed simp

lemma acceptable_Suc:
  assumes "acceptable T cfg None (Suc i) tot ts = Some (k, s)" "tot \<le> address_gas_limit cfg"
  shows "\<exists>j\<le>length ts. k = Suc i + j \<and> s = tot + gas_sum T (take j ts) \<and> s \<le> address_gas_limit cfg \<and>
    (Suc i \<le> address_tx_count cfg \<longrightarrow> k \<le> address_tx_count cfg) \<and>
    (j = length ts \<or> k \<ge> address_tx_count cfg \<or> address_gas_limit cfg < tot + gas_sum T (take (Suc j) ts))"
  using assms
proof (induction ts arbitrary: i tot)
  case (Cons t ts)
  show ?case
  proof (cases "Suc i < address_tx_count cfg \<and> tot + gas_of T t \<le> address_gas_limit cfg")
    case True
    then have "acceptable T cfg None (Suc (Suc i)) (tot + gas_of T t) ts = Some (k, s)"
      using Cons.prems by (auto simp: Let_def cadd_def split: if_splits)
    from Cons.IH [OF this] True obtain j where "j \<le> length ts" "k = Suc (Suc i) + j"
      "s = tot + gas_of T t + gas_sum T (take j ts)" "s \<le> address_gas_limit cfg" "k \<le> address_tx_count cfg"
      "j = length ts \<or> k \<ge> address_tx_count cfg \<or> address_gas_limit cfg < tot + gas_of T t + gas_sum T (take (Suc j) ts)"
      by auto
    then show ?thesis by (intro exI [of _ "Suc j"]) auto
  next
    case False
    then have "k = Suc i" "s = tot" using Cons.prems by (auto simp: Let_def cadd_def split: if_splits)
    with False Cons.prems(2) show ?thesis by (intro exI [of _ 0]) auto
  qed
qed auto

lemma check_acceptable_prefix:
  assumes "check_acceptable_batch T cfg ts None = Some (k, s)" "ts \<noteq> []" "0 < address_tx_count cfg"
  shows "0 < k" "k \<le> length ts" "k \<le> address_tx_count cfg" "s = gas_sum T (take k ts)"
    "k = 1 \<or> s \<le> address_gas_limit cfg"
    "k = length ts \<or> k = address_tx_count cfg \<or> address_gas_limit cfg < gas_sum T (take (Suc k) ts)"
proof -
  obtain t us where ts: "ts = t # us" using assms(2) by (cases ts) auto
  have *: "0 < k \<and> k \<le> length ts \<and> k \<le> address_tx_count cfg \<and> s = gas_sum T (take k ts) \<and>
     (k = 1 \<or> s \<le> address_gas_limit cfg) \<and>
     (k = length ts \<or> k = address_tx_count cfg \<or> address_gas_limit cfg < gas_sum T (take (Suc k) ts))"
  proof (cases "gas_of T t \<le> address_gas_limit cfg")
    case True
    then have "acceptable T cfg None (Suc 0) (gas_of T t) us = Some (k, s)"
      using assms by (auto simp: check_acceptable_batch_def ts Let_def cadd_def split: if_splits)
    from acceptable_Suc [OF this True] assms(3)
    obtain j where "j \<le> length us" and k: "k = Suc j" and "s = gas_of T t + gas_sum T (take j us)"
      "s \<le> address_gas_limit cfg" "k \<le> address_tx_count cfg"
      "j = length us \<or> k \<ge> address_tx_count cfg \<or> address_gas_limit cfg < gas_of T t + gas_sum T (take (Suc j) us)"
      by auto
    then show ?thesis
      unfolding k by (auto simp: ts)
  next
    case False
    then have "k = 1" "s = gas_of T t"
      using assms by (auto simp: check_acceptable_batch_def ts Let_def cadd_def split: if_splits)
    with False assms(3) show ?thesis
      by (auto simp: ts not_le intro: trans_less_add1)
  qed
  from * show "0 < k" "k \<le> length ts" "k \<le> address_tx_count cfg" "s = gas_sum T (take k ts)"
    "k = 1 \<or> s \<le> address_gas_limit cfg"
    "k = length ts \<or> k = address_tx_count cfg \<or> address_gas_limit cfg < gas_sum T (take (Suc k) ts)"
    by blast+
qed

lemma acceptable_total:
  "tot + gas_sum T ts < 2 ^ 256 \<Longrightarrow> \<exists>r. acceptable T cfg None idx tot ts = Some r"
  by (induction ts arbitrary: idx tot) (auto simp: Let_def cadd_def add.assoc)

section \<open>Insertion into a batch\<close>

text \<open>
  What an insertion promises: the batch stays well formed and within the limits of the
  configuration, no transaction is lost or invented, and a success keeps the inserted one.
\<close>

definition insert_promise ::
  "('tx, 'a) tx_ops \<Rightarrow> packing_pool_config \<Rightarrow> 'tx batch \<Rightarrow> 'tx \<Rightarrow> 'tx batch \<Rightarrow> 'tx list \<Rightarrow> (insert_error + unit) \<Rightarrow> bool" where
  "insert_promise T cfg b tx b' old res \<longleftrightarrow>
     batch_ok T b' \<and> (batch_fits cfg b \<longrightarrow> batch_fits cfg b') \<and>
     mset (txs b') + mset old = mset (txs b) + (if res = Inr () then {#tx#} else {#}) \<and>
     (res = Inr () \<longrightarrow> tx \<in> set (txs b'))"

lemma insert_promise_rejected: "batch_ok T b \<Longrightarrow> insert_promise T cfg b tx b [] (Inl e)"
  by (simp add: insert_promise_def)

lemma gas_sum_take_le: "i \<le> j \<Longrightarrow> gas_sum T (take i ts) \<le> gas_sum T (take j ts)"
proof (induction ts arbitrary: i j)
  case (Cons t ts)
  then show ?case by (cases i; cases j) auto
qed simp

lemma gas_sum_take_total: "gas_sum T (take i ts) \<le> gas_sum T ts"
  using gas_sum_take_le [of i "max i (length ts)" T ts] by simp

lemma successively_update:
  assumes "successively P ts" "i < length ts" "0 < i \<Longrightarrow> P (ts ! (i - 1)) x" "Suc i < length ts \<Longrightarrow> P x (ts ! Suc i)"
  shows "successively P (ts[i := x])"
  using assms by (auto simp: successively_conv_nth nth_list_update)

lemma linked_update:
  assumes "successively (linked T) ts" "i < length ts" "sender_of T tx = sender_of T (hd ts)"
    "nonce_of T tx = nonce_of T (hd ts) + i"
    "0 < i \<Longrightarrow> price_of T (ts ! (i - 1)) \<le> price_of T tx" "Suc i < length ts \<Longrightarrow> price_of T tx \<le> price_of T (ts ! Suc i)"
  shows "successively (linked T) (ts[i := tx])"
proof (rule successively_update [OF assms(1,2)])
  show "linked T (ts ! (i - 1)) tx" if "0 < i"
    using that assms(2-5) linked_nth [OF assms(1), of "i - 1"] by (auto simp: linked_def)
  show "linked T tx (ts ! Suc i)" if "Suc i < length ts"
    using that assms(3,4,6) linked_nth [OF assms(1), of "Suc i"] by (auto simp: linked_def)
qed

lemma insert_promise_cut:
  assumes "batch_ok T b" "0 < i" "cut_at T b i = Some (b', old)"
  shows "insert_promise T cfg b tx b' old (Inl e)"
proof -
  have b': "txs b' = take i (txs b)" "total_gas_limit b' = gas_sum T (take i (txs b))" and old: "old = drop i (txs b)"
    using assms(3) by (auto simp: cut_at_eq split: if_splits)
  moreover have "mset (take i (txs b)) + mset (drop i (txs b)) = mset (txs b)"
    by (simp flip: mset_append)
  moreover have "batch_fits cfg b \<Longrightarrow> batch_fits cfg b'"
    using assms(1,2) gas_sum_take_total [of T i "txs b"]
    by (cases "i \<ge> length (txs b)") (auto simp: batch_fits_def batch_ok_def b')
  ultimately show ?thesis
    using assms(1,2) by (auto simp: insert_promise_def batch_ok_def successively_take)
qed

lemma prefix_batch_ok:
  assumes "check_acceptable_batch T cfg ts None = Some (k, s)" "ts \<noteq> []" "0 < address_tx_count cfg"
    "successively (linked T) ts"
  shows "batch_ok T \<lparr>txs = take k ts, total_gas_limit = s\<rparr>" "batch_fits cfg \<lparr>txs = take k ts, total_gas_limit = s\<rparr>"
  using check_acceptable_prefix [OF assms(1-3)] assms(2,4)
  by (auto simp: batch_ok_def batch_fits_def successively_take)

lemma insert_promise_prepend:
  assumes "batch_ok T b" "0 < address_tx_count cfg" "sender_of T tx = sender_of T (hd (txs b))"
    "nonce_of T tx + 1 = nonce_of T (hd (txs b))" "price_of T tx \<le> price_of T (hd (txs b))"
    "check_acceptable_batch T cfg (tx # txs b) None = Some (k, s)"
  shows "insert_promise T cfg b tx \<lparr>txs = take k (tx # txs b), total_gas_limit = s\<rparr> (drop k (tx # txs b)) (Inr ())"
proof -
  have "successively (linked T) (tx # txs b)"
    using assms(1,3-5) by (cases "txs b") (auto simp: batch_ok_def linked_def)
  note ok = prefix_batch_ok [OF assms(6) _ assms(2) this, simplified]
  have "0 < k" using check_acceptable_prefix(1) [OF assms(6) _ assms(2)] by simp
  then have "tx \<in> set (take k (tx # txs b))" by (cases k) auto
  moreover have "mset (take k (tx # txs b)) + mset (drop k (tx # txs b)) = mset (tx # txs b)"
    by (simp only: flip: mset_append) simp
  ultimately show ?thesis using ok by (simp add: insert_promise_def)
qed

lemma insert_promise_append:
  assumes "batch_ok T b" "sender_of T tx = sender_of T (hd (txs b))"
    "nonce_of T tx = nonce_of T (hd (txs b)) + length (txs b)" "price_of T (last (txs b)) \<le> price_of T tx"
    "length (txs b) < address_tx_count cfg" "total_gas_limit b + gas_of T tx \<le> address_gas_limit cfg"
  shows "insert_promise T cfg b tx \<lparr>txs = txs b @ [tx], total_gas_limit = total_gas_limit b + gas_of T tx\<rparr> [] (Inr ())"
proof -
  have ts: "successively (linked T) (txs b)" "txs b \<noteq> []" using assms(1) by (auto simp: batch_ok_def)
  have "linked T (last (txs b)) tx"
    using linked_nth [OF ts(1), of "length (txs b) - 1"] ts(2) assms(2-4) by (auto simp: linked_def last_conv_nth)
  then show ?thesis
    using assms ts by (auto simp: insert_promise_def batch_ok_def batch_fits_def successively_append_iff)
qed

lemma mset_replaced:
  assumes "i < length ts"
  shows "mset (ts[i := x]) + {#ts ! i#} = mset ts + {#x#}"
  using assms by (simp add: mset_update)

lemma insert_promise_replace:
  assumes "batch_ok T b" "0 < address_tx_count cfg" "i < length (txs b)" "sender_of T tx = sender_of T (hd (txs b))"
    "nonce_of T tx = nonce_of T (hd (txs b)) + i" "0 < i \<Longrightarrow> price_of T (txs b ! (i - 1)) \<le> price_of T tx"
    "check_acceptable_batch T cfg ((txs b)[i := tx]) None = Some (k, s)" "i < k"
    "Suc i < length (txs b) \<Longrightarrow> price_of T tx \<le> price_of T (txs b ! Suc i)"
  shows "insert_promise T cfg b tx \<lparr>txs = take k ((txs b)[i := tx]), total_gas_limit = s\<rparr>
    (txs b ! i # drop k ((txs b)[i := tx])) (Inr ())"
proof -
  let ?ts = "(txs b)[i := tx]"
  have ts: "successively (linked T) (txs b)" "txs b \<noteq> []" using assms(1) by (auto simp: batch_ok_def)
  note ok = prefix_batch_ok [OF assms(7) _ assms(2) linked_update [OF ts(1) assms(3-6,9)]]
  have "tx \<in> set (take k ?ts)"
    using assms(3,8) by (auto simp: in_set_conv_nth intro!: exI [of _ i])
  moreover have "mset (take k ?ts) + mset (drop k ?ts) = mset ?ts" by (simp flip: mset_append)
  then have "mset (take k ?ts) + mset (txs b ! i # drop k ?ts) = mset (txs b) + {#tx#}"
    using mset_replaced [OF assms(3), of tx] by simp
  ultimately show ?thesis using ok ts(2) by (simp add: insert_promise_def)
qed

lemma insert_promise_replace_cut:
  assumes "batch_ok T b" "0 < address_tx_count cfg" "i < length (txs b)" "sender_of T tx = sender_of T (hd (txs b))"
    "nonce_of T tx = nonce_of T (hd (txs b)) + i" "0 < i \<Longrightarrow> price_of T (txs b ! (i - 1)) \<le> price_of T tx"
    "check_acceptable_batch T cfg ((txs b)[i := tx]) None = Some (k, s)" "i < k"
    "cut_at T (b\<lparr>txs := (txs b)[i := tx]\<rparr>) (Suc i) = Some (b', old)"
  shows "insert_promise T cfg b tx b' (txs b ! i # old) (Inr ())"
proof -
  let ?ts = "(txs b)[i := tx]"
  have ts: "successively (linked T) (txs b)" "txs b \<noteq> []" using assms(1) by (auto simp: batch_ok_def)
  have b': "txs b' = take (Suc i) ?ts" "total_gas_limit b' = gas_sum T (take (Suc i) ?ts)" and old: "old = drop (Suc i) ?ts"
    using assms(9) by (auto simp: cut_at_eq split: if_splits)
  have take: "take (Suc i) ?ts = (take (Suc i) (txs b))[i := tx]" using assms(3) by (simp add: take_update_swap)
  have hd: "hd (take (Suc i) (txs b)) = hd (txs b)" using ts(2) by simp
  have "successively (linked T) ((take (Suc i) (txs b))[i := tx])"
    by (rule linked_update) (use assms(3-6) ts hd in \<open>auto simp: successively_take\<close>)
  then have ok: "batch_ok T b'" using ts(2) by (simp add: batch_ok_def b' take)
  note prefix = check_acceptable_prefix [OF assms(7) _ assms(2)]
  have "gas_sum T (take (Suc i) ?ts) \<le> gas_sum T (take k ?ts)" using assms(8) by (intro gas_sum_take_le) simp
  then have fits: "batch_fits cfg b'"
    using prefix assms(3,8) ts(2) by (auto simp: batch_fits_def b')
  have "tx \<in> set (txs b')" using assms(3) by (auto simp: b' in_set_conv_nth intro!: exI [of _ i])
  moreover have "mset (txs b') + mset old = mset ?ts"
    by (simp only: b' old append_take_drop_id flip: mset_append)
  then have "mset (txs b') + mset (txs b ! i # old) = mset (txs b) + {#tx#}"
    using mset_replaced [OF assms(3), of tx] by simp
  ultimately show ?thesis using ok fits by (simp add: insert_promise_def)
qed

lemma check_acceptable_replaced:
  "check_acceptable_batch T cfg ts (Some (tx, i)) = check_acceptable_batch T cfg (ts[i := tx]) None"
  by (simp add: check_acceptable_batch_def acceptable_replaced)

lemma sat_add_exact: "a + b < 2 ^ 256 \<Longrightarrow> sat_add 256 a b = a + b"
  by (simp add: sat_add_def)

text \<open>The branch of a nonce inside the batch.\<close>

lemma insert_promise_inside:
  assumes ok: "batch_ok T b" and count: "0 < address_tx_count cfg"
    and i: "i < length (txs b)" "nonce_of T tx = nonce_of T (hd (txs b)) + i" and sender: "sender_of T tx = sender_of T (hd (txs b))"
    and res: "(if i > 0 \<and> price_of T tx < price_of T (txs b ! (i - 1))
      then do {(b', old) \<leftarrow> cut_at T b i; Some (b', old, Inl DecreasingGasPrice)}
      else do {
        (k, s) \<leftarrow> check_acceptable_batch T cfg (txs b) (Some (tx, i));
        if k \<le> i then do {(b', old) \<leftarrow> cut_at T b i; Some (b', old, Inl ExceedAddrGasLimit)}
        else do {
          let replaced_tx = txs b ! i;
          let ts = (txs b)[i := tx];
          if i + 1 < length ts \<and> price_of T (ts ! (i + 1)) < price_of T tx
          then do {(b', old) \<leftarrow> cut_at T (b\<lparr>txs := ts\<rparr>) (i + 1); Some (b', replaced_tx # old, Inr ())}
          else Some (\<lparr>txs = take k ts, total_gas_limit = s\<rparr>, replaced_tx # drop k ts, Inr ())
        }
      }) = Some (b', old, res)"
  shows "insert_promise T cfg b tx b' old res"
proof (cases "i > 0 \<and> price_of T tx < price_of T (txs b ! (i - 1))")
  case True
  with res obtain e where "cut_at T b i = Some (b', old)" "res = Inl e" by (auto split: bind_splits)
  with True show ?thesis using insert_promise_cut [OF ok] by blast
next
  case False
  with res obtain k s where k: "check_acceptable_batch T cfg ((txs b)[i := tx]) None = Some (k, s)"
    by (auto simp: check_acceptable_replaced split: bind_splits)
  have prev: "0 < i \<Longrightarrow> price_of T (txs b ! (i - 1)) \<le> price_of T tx" using False by auto
  have "txs b \<noteq> []" using i by auto
  then have "0 < k" using check_acceptable_prefix(1) [OF k _ count] by simp
  consider "k \<le> i" | "i < k" "Suc i < length (txs b)" "price_of T (txs b ! Suc i) < price_of T tx"
    | "i < k" "Suc i < length (txs b) \<Longrightarrow> price_of T tx \<le> price_of T (txs b ! Suc i)"
    by fastforce
  then show ?thesis
  proof cases
    case 1
    then have "cut_at T b i = Some (b', old)" "res = Inl ExceedAddrGasLimit"
      using res False k by (auto simp: check_acceptable_replaced split: bind_splits if_splits)
    moreover from 1 \<open>0 < k\<close> have "0 < i" by simp
    ultimately show ?thesis using insert_promise_cut [OF ok] by simp
  next
    case 2
    then obtain old' where "cut_at T (b\<lparr>txs := (txs b)[i := tx]\<rparr>) (Suc i) = Some (b', old')" "old = txs b ! i # old'" "res = Inr ()"
      using res False k by (auto simp: check_acceptable_replaced Let_def split: bind_splits)
    with 2 show ?thesis using insert_promise_replace_cut [OF ok count i(1) sender i(2) prev k] by simp
  next
    case 3
    then have "b' = \<lparr>txs = take k ((txs b)[i := tx]), total_gas_limit = s\<rparr>" "old = txs b ! i # drop k ((txs b)[i := tx])" "res = Inr ()"
      using res False k by (auto simp: check_acceptable_replaced Let_def not_less split: bind_splits if_splits)
    with 3 show ?thesis using insert_promise_replace [OF ok count i(1) sender i(2) prev k] by simp
  qed
qed

lemma batch_insert_promise:
  assumes ok: "batch_ok T b" and count: "0 < address_tx_count cfg"
    and res: "batch_insert T cfg b tx = Some (b', old, res)"
  shows "insert_promise T cfg b tx b' old res"
proof -
  let ?n = "nonce_of T tx" and ?s = "nonce_of T (hd (txs b))"
  have sender: "sender_of T tx = sender_of T (hd (txs b))"
    using res by (auto simp: batch_insert_def batch_ok_first [OF ok] assert_that_def split: if_splits)
  note unfold = batch_insert_def batch_ok_first [OF ok] assert_that_def sender
  consider "?n \<ge> u256_max - 1"
    | "?n < u256_max - 1" "?n + 1 < ?s \<or> ?n + 1 = ?s \<and> price_of T tx > price_of T (hd (txs b))"
    | "?n < u256_max - 1" "?n + 1 = ?s" "price_of T tx \<le> price_of T (hd (txs b))"
    | "?n < u256_max - 1" "?s + length (txs b) < ?n" | "?n < u256_max - 1" "?n = ?s + length (txs b)"
    | "?n < u256_max - 1" "?s \<le> ?n" "?n < ?s + length (txs b)"
    by linarith
  then show ?thesis
  proof cases
    case 1
    then show ?thesis using res insert_promise_rejected [OF ok] by (auto simp: unfold)
  next
    case 2
    then have "b' = batch_new T tx" "old = txs b" "res = Inr ()" using res by (auto simp: unfold)
    then show ?thesis using count by (simp add: insert_promise_def batch_ok_new) (simp add: batch_fits_def batch_new_def)
  next
    case 3
    with res obtain k s where "check_acceptable_batch T cfg (tx # txs b) None = Some (k, s)"
      "b' = \<lparr>txs = take k (tx # txs b), total_gas_limit = s\<rparr>" "old = drop k (tx # txs b)" "res = Inr ()"
      by (auto simp: unfold split: bind_splits)
    with 3 show ?thesis using insert_promise_prepend [OF ok count sender] by simp
  next
    case 4
    then show ?thesis
      using res insert_promise_rejected [OF ok] by (auto simp: unfold cadd_def Let_def split: if_splits)
  next
    case 5
    show ?thesis
    proof (cases "length (txs b) < address_tx_count cfg \<and> price_of T (last (txs b)) \<le> price_of T tx \<and>
        sat_add 256 (total_gas_limit b) (gas_of T tx) \<le> address_gas_limit cfg")
      case True
      then have "b' = \<lparr>txs = txs b @ [tx], total_gas_limit = total_gas_limit b + gas_of T tx\<rparr>" "old = []" "res = Inr ()"
        "total_gas_limit b + gas_of T tx < 2 ^ 256"
        using 5 res by (auto simp: unfold cadd_def Let_def split: if_splits)
      with True 5 show ?thesis
        using insert_promise_append [OF ok sender] by (simp add: sat_add_exact)
    next
      case False
      with 5 res insert_promise_rejected [OF ok] show ?thesis
        by (auto simp: unfold cadd_def Let_def not_less not_le split: if_splits)
    qed
  next
    case 6
    then have idx: "?n - ?s < length (txs b)" "?n = ?s + (?n - ?s)" by auto
    show ?thesis
      by (rule insert_promise_inside [OF ok count idx sender])
        (use 6 res in \<open>auto simp: unfold cadd_def Let_def cong: if_cong split: if_splits\<close>)
  qed
qed

lemma gas_sum_update_le: "i < length ts \<Longrightarrow> gas_sum T (ts[i := tx]) \<le> gas_of T tx + gas_sum T ts"
proof (induction ts arbitrary: i)
  case (Cons t ts)
  then show ?case by (cases i) fastforce+
qed simp

lemma cut_at_total: "gas_sum T (txs b) < 2 ^ 256 \<Longrightarrow> \<exists>r. cut_at T b i = Some r"
  using gas_sum_take_total [of T i "txs b"] by (simp add: cut_at_eq)

lemma check_acceptable_total: "gas_sum T ts < 2 ^ 256 \<Longrightarrow> \<exists>r. check_acceptable_batch T cfg ts None = Some r"
  unfolding check_acceptable_batch_def by (rule acceptable_total) simp

lemma insert_inside_total:
  assumes "i < length (txs b)" "gas_of T tx + gas_sum T (txs b) < 2 ^ 256"
  shows "\<exists>r. (if i > 0 \<and> price_of T tx < price_of T (txs b ! (i - 1))
      then do {(b', old) \<leftarrow> cut_at T b i; Some (b', old, Inl DecreasingGasPrice)}
      else do {
        (k, s) \<leftarrow> check_acceptable_batch T cfg (txs b) (Some (tx, i));
        if k \<le> i then do {(b', old) \<leftarrow> cut_at T b i; Some (b', old, Inl ExceedAddrGasLimit)}
        else do {
          let replaced_tx = txs b ! i;
          let ts = (txs b)[i := tx];
          if i + 1 < length ts \<and> price_of T (ts ! (i + 1)) < price_of T tx
          then do {(b', old) \<leftarrow> cut_at T (b\<lparr>txs := ts\<rparr>) (i + 1); Some (b', replaced_tx # old, Inr ())}
          else Some (\<lparr>txs = take k ts, total_gas_limit = s\<rparr>, replaced_tx # drop k ts, Inr ())
        }
      }) = Some r"
proof -
  have upd: "gas_sum T ((txs b)[i := tx]) < 2 ^ 256" using gas_sum_update_le [OF assms(1), of T tx] assms(2) by linarith
  have "gas_sum T (txs b) < 2 ^ 256" using assms(2) by linarith
  then obtain r1 where r1: "cut_at T b i = Some r1" using cut_at_total by blast
  obtain r2 where r2: "check_acceptable_batch T cfg ((txs b)[i := tx]) None = Some r2" using check_acceptable_total [OF upd] by blast
  obtain r3 where r3: "cut_at T (b\<lparr>txs := (txs b)[i := tx]\<rparr>) (Suc i) = Some r3"
    using cut_at_total [of T "b\<lparr>txs := (txs b)[i := tx]\<rparr>" "Suc i"] upd by auto
  obtain b1 o1 k s b3 o3 where "r1 = (b1, o1)" "r2 = (k, s)" "r3 = (b3, o3)" by (cases r1; cases r2; cases r3)
  then show ?thesis using r1 r2 r3 by (cases "i = 0") (auto simp: check_acceptable_replaced Let_def)
qed

lemma batch_insert_total:
  assumes ok: "batch_ok T b" and sender: "sender_of T tx = sender_of T (hd (txs b))"
    and gas: "gas_of T tx + gas_sum T (txs b) < 2 ^ 256" and nonces: "nonce_of T (hd (txs b)) + length (txs b) < 2 ^ 256"
  shows "\<exists>r. batch_insert T cfg b tx = Some r"
proof -
  let ?n = "nonce_of T tx" and ?s = "nonce_of T (hd (txs b))"
  note unfold = batch_insert_def batch_ok_first [OF ok] assert_that_def sender
  have tot: "total_gas_limit b = gas_sum T (txs b)" using ok by (simp add: batch_ok_def)
  consider "?n \<ge> u256_max - 1 \<or> ?n + 1 < ?s \<or> ?n + 1 = ?s \<and> price_of T tx > price_of T (hd (txs b))"
    | "?n < u256_max - 1" "?n + 1 = ?s" "price_of T tx \<le> price_of T (hd (txs b))"
    | "?n < u256_max - 1" "?s + length (txs b) \<le> ?n"
    | "?n < u256_max - 1" "?s \<le> ?n" "?n < ?s + length (txs b)"
    by linarith
  then show ?thesis
  proof cases
    case 2
    have "gas_sum T (tx # txs b) < 2 ^ 256" using gas by simp
    then obtain r where "check_acceptable_batch T cfg (tx # txs b) None = Some r"
      using check_acceptable_total by blast
    with 2 show ?thesis by (simp add: unfold split: prod.split)
  next
    case 3
    with gas nonces tot show ?thesis by (auto simp: unfold cadd_def Let_def add.commute)
  next
    case 4
    then have idx: "?n - ?s < length (txs b)" by auto
    from insert_inside_total [OF this gas, of cfg] 4 nonces show ?thesis by (simp add: unfold cadd_def Let_def cong: if_cong)
  qed (auto simp: unfold)
qed

section \<open>Splitting a batch by nonce\<close>

lemma linked_filter_nonce:
  assumes "successively (linked T) ts" "ts \<noteq> []"
  shows "filter (\<lambda>t. nonce_of T t < n) ts = take (n - nonce_of T (hd ts)) ts"
    "filter (\<lambda>t. \<not> nonce_of T t < n) ts = drop (n - nonce_of T (hd ts)) ts"
proof -
  let ?k = "n - nonce_of T (hd ts)"
  have "nonce_of T t < n" if "t \<in> set (take ?k ts)" for t
  proof -
    from that obtain i where "i < length ts" "i < ?k" "t = ts ! i" by (auto simp: in_set_conv_nth)
    with linked_nth [OF assms(1)] show ?thesis by simp
  qed
  moreover have "\<not> nonce_of T t < n" if "t \<in> set (drop ?k ts)" for t
  proof -
    from that obtain i where "i < length ts - ?k" "t = ts ! (?k + i)" by (auto simp: in_set_conv_nth)
    with linked_nth [OF assms(1), of "?k + i"] show ?thesis by (simp add: not_less)
  qed
  ultimately have "filter (\<lambda>t. nonce_of T t < n) (take ?k ts @ drop ?k ts) = take ?k ts"
    "filter (\<lambda>t. \<not> nonce_of T t < n) (take ?k ts @ drop ?k ts) = drop ?k ts"
    by (simp_all only: filter_append) (simp_all add: filter_id_conv filter_empty_conv)
  then show "filter (\<lambda>t. nonce_of T t < n) ts = take ?k ts" "filter (\<lambda>t. \<not> nonce_of T t < n) ts = drop ?k ts"
    by simp_all
qed

lemma split_off_by_nonce_filter:
  assumes ok: "batch_ok T b" and gas: "gas_sum T (txs b) < 2 ^ 256" and nonces: "nonce_of T (hd (txs b)) + length (txs b) < 2 ^ 256"
  defines "keep kp n \<equiv> (\<lambda>t. (nonce_of T t < n) = kp)"
  shows "split_off_by_nonce T b n kp =
    (if filter (keep kp n) (txs b) = [] then Some (b, Inl ShouldDelete)
     else Some (\<lparr>txs = filter (keep kp n) (txs b), total_gas_limit = gas_sum T (filter (keep kp n) (txs b))\<rparr>,
                Inr (filter (\<lambda>t. \<not> keep kp n t) (txs b))))"
proof -
  let ?s = "nonce_of T (hd (txs b))"
  have ts: "successively (linked T) (txs b)" "txs b \<noteq> []" and tot: "total_gas_limit b = gas_sum T (txs b)"
    using ok by (auto simp: batch_ok_def)
  have b: "b = \<lparr>txs = txs b, total_gas_limit = gas_sum T (txs b)\<rparr>" by (simp flip: tot)
  note f = linked_filter_nonce [OF ts]
  have "gas_sum T (take k (txs b)) + gas_sum T (drop k (txs b)) = gas_sum T (txs b)" for k
    by (simp flip: sum_list_append map_append)
  then have "gas_sum T (take k (txs b)) < 2 ^ 256" "gas_sum T (drop k (txs b)) < 2 ^ 256" for k
    using gas by (metis le_add1 le_less_trans, metis le_add2 le_less_trans)
  then have sub: "gas_total T 0 (take k (txs b)) = Some (gas_sum T (take k (txs b)))"
    "gas_total T 0 (drop k (txs b)) = Some (gas_sum T (drop k (txs b)))" for k
    by (simp_all add: gas_total_eq)
  note unfold = split_off_by_nonce_def batch_ok_first [OF ok] split_off_inner_def keep_def f sub
      cadd_def update_total_limit_def Let_def
  consider "n \<le> ?s" | "?s + length (txs b) \<le> n" | "?s < n" "n < ?s + length (txs b)"
    by linarith
  then show ?thesis
  proof cases
    case 1
    then show ?thesis using ts b nonces by (cases kp; cases "n = ?s") (simp_all add: unfold)
  next
    case 2
    then show ?thesis using ts b nonces by (cases kp) (simp_all add: unfold)
  next
    case 3
    then have "\<not> length (txs b) \<le> n - ?s" by simp
    with 3 show ?thesis using ts nonces by (cases kp) (simp_all add: unfold)
  qed
qed

end
