(* ===== verification/Nonce_Pool.thy ===== *)
theory Nonce_Pool
  imports Nonce_Map Packing_Batch
begin

text \<open>
  \<^verbatim>\<open>transaction_pool/nonce_pool/mod.rs\<close>: the pool of the transactions of one sender on top of the
  nonce map, the readiness computation and the construction of a packing batch. The
  transaction trait of the packing pool is instantiated with signed transactions as in
  \<^verbatim>\<open>packing-pool/src/transaction.rs\<close>.
\<close>

section \<open>Operations\<close>

definition signed_tx_ops :: "(signed_transaction, address \<times> space) tx_ops" where
  "signed_tx_ops = \<lparr>sender_of = st_sender_with_space, nonce_of = st_nonce, price_of = st_gas_price, gas_of = st_gas_limit\<rparr>"

definition get_lowest_nonce_tx :: "'r nonce_map \<Rightarrow> signed_transaction option" where
  "get_lowest_nonce_tx m = map_option ti_transaction (nmap_leftmost m)"

definition remove_lowest_nonce :: "'r nonce_map \<Rightarrow> 'r nonce_map \<times> tx_info option" where
  "remove_lowest_nonce m =
     (case get_lowest_nonce_tx m of None \<Rightarrow> (m, None) | Some t \<Rightarrow> nmap_remove m (st_nonce t))"

definition weight_below :: "'r nonce_map \<Rightarrow> u256 \<Rightarrow> np_weight" where
  "weight_below m nonce = (if nonce = 0 then np_empty else nmap_weight m (nonce - 1))"

definition count_less :: "'r nonce_map \<Rightarrow> u256 \<Rightarrow> nat" where
  "count_less m nonce = (if nonce = 0 then 0 else np_size (nmap_weight m (nonce - 1)))"

definition count_from :: "'r nonce_map \<Rightarrow> u256 \<Rightarrow> nat option" where
  "count_from m nonce = csub (nmap_len m) (count_less m nonce)"

definition get_pending_info :: "'r nonce_map \<Rightarrow> u256 \<Rightarrow> (nat \<times> signed_transaction) option option" where
  "get_pending_info m nonce =
     (case nmap_succ m nonce of
        None \<Rightarrow> Some None
      | Some tx \<Rightarrow> do {pending_count \<leftarrow> count_from m nonce; Some (Some (pending_count, ti_transaction tx))})"

definition get_pending_transactions :: "'r nonce_map \<Rightarrow> u256 \<Rightarrow> tx_info list" where
  "get_pending_transactions m nonce = filter (\<lambda>t. \<not> ti_packed t) (nmap_iter_range m nonce)"

definition recalculate_readiness ::
  "'r nonce_map \<Rightarrow> u256 \<Rightarrow> u256 \<Rightarrow> (tx_info \<times> u256) option option" where
  "recalculate_readiness m nonce balance =
     (case nmap_query m nonce of
        None \<Rightarrow> Some None
      | Some tx \<Rightarrow>
          let a = weight_below m nonce; b = nmap_weight m (ti_nonce tx)
          in do {
            size_elapsed \<leftarrow> csub (np_size b) (np_size a);
            cost_elapsed \<leftarrow> csub (cost b) (cost a);
            before_tx \<leftarrow> csub size_elapsed 1;
            distance \<leftarrow> csub (ti_nonce tx) nonce;
            if before_tx \<noteq> distance \<or> cost_elapsed > balance then Some None
            else do {
              rest \<leftarrow> csub balance cost_elapsed;
              Some (Some (tx, continous_ready_nonce m (ti_nonce tx) b rest))
            }
          })"

datatype pending_reason = FutureNonce | NotEnoughCash | OldEpochHeight | OutdatedStatus

definition check_pending_reason ::
  "'r nonce_map \<Rightarrow> u256 \<Rightarrow> u256 \<Rightarrow> signed_transaction \<Rightarrow> pending_reason option option" where
  "check_pending_reason m nonce balance pending_tx =
     (let a = weight_below m nonce; b = nmap_weight m (st_nonce pending_tx)
      in do {
        size_elapsed \<leftarrow> csub (np_size b) (np_size a);
        before_tx \<leftarrow> csub size_elapsed 1;
        expected_nonce \<leftarrow> cadd 256 nonce before_tx;
        if expected_nonce \<noteq> st_nonce pending_tx then Some (Some FutureNonce)
        else do {
          expected_balance \<leftarrow> csub (cost b) (cost a);
          if expected_balance > balance then Some (Some NotEnoughCash) else Some None
        }
      })"

fun batch_loop ::
  "packing_pool_config \<Rightarrow> u256 \<Rightarrow> u256 \<Rightarrow> signed_transaction batch \<Rightarrow> tx_info list \<Rightarrow> signed_transaction batch option" where
  "batch_loop cfg last_valid_nonce next_nonce b [] = Some b"
| "batch_loop cfg last_valid_nonce next_nonce b (tx # rest) =
     (if ti_nonce tx \<noteq> next_nonce then Some b
      else do {
        next' \<leftarrow> cadd 256 next_nonce 1;
        (b', _, res) \<leftarrow> batch_insert signed_tx_ops cfg b (ti_transaction tx);
        if \<not> isl res \<and> next' \<le> last_valid_nonce then batch_loop cfg last_valid_nonce next' b' rest
        else Some b'
      })"

definition make_packing_batch ::
  "'r nonce_map \<Rightarrow> tx_info \<Rightarrow> packing_pool_config \<Rightarrow> u256 \<Rightarrow> signed_transaction batch option" where
  "make_packing_batch m first cfg last_valid_nonce =
     do {
       next_nonce \<leftarrow> cadd 256 (ti_nonce first) 1;
       batch_loop cfg last_valid_nonce next_nonce (batch_new signed_tx_ops (ti_transaction first))
         (nmap_iter_range m next_nonce)
     }"

definition check_nonce_exists :: "'r nonce_map \<Rightarrow> u256 \<Rightarrow> bool" where
  "check_nonce_exists m nonce = (nmap_get m nonce \<noteq> None)"

definition succ_nonce :: "'r nonce_map \<Rightarrow> u256 \<Rightarrow> u256 option" where
  "succ_nonce m nonce = map_option ti_nonce (nmap_succ m nonce)"

section \<open>Costs stay far below the width\<close>

definition tx_cost_bound :: nat where
  "tx_cost_bound = 2 ^ 193"

definition storage_cost :: "signed_transaction \<Rightarrow> u64 \<Rightarrow> nat" where
  "storage_cost t s =
     (case st_unsigned t of
        Native tx \<Rightarrow> (native_storage_limit tx - s) * MAZZIES_PER_STORAGE_COLLATERAL_UNIT
      | Ethereum _ \<Rightarrow> 0)"

definition sponsor_ok :: "signed_transaction \<Rightarrow> u256 \<Rightarrow> u64 \<Rightarrow> bool" where
  "sponsor_ok t g s \<longleftrightarrow> g \<le> st_gas t \<and>
     (case st_unsigned t of
        Native tx \<Rightarrow> s \<le> native_storage_limit tx \<and> native_storage_limit tx < 2 ^ 64
      | Ethereum _ \<Rightarrow> True)"

lemma storage_cost_bound: "sponsor_ok t g s \<Longrightarrow> storage_cost t s < 2 ^ 64 * 2 ^ 60"
proof (cases "st_unsigned t")
  case (Native tx)
  assume "sponsor_ok t g s"
  then have "native_storage_limit tx - s < 2 ^ 64" using Native by (auto simp: sponsor_ok_def)
  then show ?thesis by (simp add: storage_cost_def Native MAZZIES_PER_STORAGE_COLLATERAL_UNIT_def)
qed (simp add: storage_cost_def)

lemma make_tx_cost_eq:
  assumes "sponsor_ok t g s"
  defines "c \<equiv> min (st_value t) (u64_max * u128_max) + min ((st_gas t - g) * st_gas_price t) u128_max + storage_cost t s"
  shows "make_tx_cost t g s = Some c" "c < tx_cost_bound"
proof -
  define v e k where "v = min (st_value t) (u64_max * u128_max)" and "e = min ((st_gas t - g) * st_gas_price t) u128_max"
    and "k = storage_cost t s"
  have c: "c = v + e + k" by (simp add: c_def v_def e_def k_def)
  have "v \<le> u64_max * u128_max" "e \<le> u128_max" "k < 2 ^ 64 * 2 ^ 60"
    using storage_cost_bound [OF assms(1)] by (simp_all only: v_def e_def k_def min.cobounded2)
  then have bounds: "v + e < 2 ^ 256" "v + e + k < 2 ^ 193" "k < 2 ^ 256" by simp_all
  show "c < tx_cost_bound" using bounds by (simp add: c tx_cost_bound_def)
  have gas: "csub (st_gas t) g = Some (st_gas t - g)" using assms(1) by (simp add: sponsor_ok_def)
  have est: "(if (st_gas t - g) * st_gas_price t > u128_max then Some u128_max
      else cmul 256 (st_gas t - g) (st_gas_price t)) = Some e"
    by (auto simp: e_def cmul_def)
  have coll: "(case st_unsigned t of
      Native tx \<Rightarrow> do {units \<leftarrow> csub (native_storage_limit tx) s; cmul 256 units MAZZIES_PER_STORAGE_COLLATERAL_UNIT}
    | Ethereum _ \<Rightarrow> Some 0) = Some k"
    using assms(1) bounds(3)
    by (auto simp: k_def storage_cost_def sponsor_ok_def csub_def cmul_def split: transaction.splits)
  have cap: "cmul 256 u64_max u128_max = Some (u64_max * u128_max)" by simp
  have v: "(if st_value t > u64_max * u128_max then u64_max * u128_max else st_value t) = v"
    by (auto simp: v_def)
  have "cadd 256 v e = Some (v + e)" "cadd 256 (v + e) k = Some (v + e + k)" using bounds by simp_all
  then show "make_tx_cost t g s = Some c"
    unfolding make_tx_cost_def gas bind.bind_lunit est coll cap v c by (simp only: bind.bind_lunit)
qed

section \<open>Queries in terms of the stored transactions\<close>

lemma find_sorted_key:
  assumes "nonce_sorted es"
  shows "find P es = Some e \<longleftrightarrow> e \<in> set es \<and> P e \<and> (\<forall>e'\<in>set es. e_key e' < e_key e \<longrightarrow> \<not> P e')"
  using assms
proof (induction es)
  case (Cons x es)
  then show ?case by (cases "P x") fastforce+
qed simp

lemma nmap_query_Some:
  assumes "nmap_ok m"
  shows "nmap_query m n = Some t \<longleftrightarrow>
    pool_of m (ti_nonce t) = Some t \<and> \<not> ti_packed t \<and> n \<le> ti_nonce t \<and>
    (\<forall>k\<in>{n..<ti_nonce t}. \<forall>t'. pool_of m k = Some t' \<longrightarrow> ti_packed t')"
proof -
  let ?es = "inorder (root m)" and ?P = "\<lambda>e. unpacked e \<and> n \<le> e_key e"
  have nonce: "ti_nonce (e_val e) = e_key e" if "e \<in> set ?es" for e
    using assms that by (auto simp: nmap_ok_def list_all_iff np_entry_ok_def)
  have "nmap_query m n = Some t \<longleftrightarrow> (\<exists>e. find ?P ?es = Some e \<and> e_val e = t)"
    by (auto simp: nmap_query_find [OF assms])
  also have "\<dots> \<longleftrightarrow> (\<exists>e\<in>set ?es. ?P e \<and> e_val e = t \<and> (\<forall>e'\<in>set ?es. e_key e' < e_key e \<longrightarrow> \<not> ?P e'))"
    by (auto simp: find_sorted_key [OF nmap_ok_sorted [OF assms]])
  also have "\<dots> \<longleftrightarrow> pool_of m (ti_nonce t) = Some t \<and> \<not> ti_packed t \<and> n \<le> ti_nonce t \<and>
      (\<forall>k\<in>{n..<ti_nonce t}. \<forall>t'. pool_of m k = Some t' \<longrightarrow> ti_packed t')" (is "?L \<longleftrightarrow> ?R")
  proof
    assume ?L
    then obtain e where e: "e \<in> set ?es" "?P e" "e_val e = t" "\<And>e'. e' \<in> set ?es \<Longrightarrow> e_key e' < e_key e \<Longrightarrow> \<not> ?P e'"
      by blast
    have key: "ti_nonce t = e_key e" using nonce [OF e(1)] e(3) by simp
    have "ti_packed t'" if k: "k \<in> {n..<ti_nonce t}" and t': "pool_of m k = Some t'" for k t'
    proof -
      obtain e' where "e' \<in> set ?es" "e_key e' = k" "e_val e' = t'" using t' by (auto simp: pool_of_Some [OF assms])
      with e(4) [of e'] k key show ?thesis by auto
    qed
    with e key show ?R by (auto simp: pool_of_Some [OF assms])
  next
    assume R: ?R
    then obtain e where e: "e \<in> set ?es" "e_key e = ti_nonce t" "e_val e = t" by (auto simp: pool_of_Some [OF assms])
    have "\<not> ?P e'" if "e' \<in> set ?es" "e_key e' < e_key e" for e'
      using R that e(2) pool_of_Some [OF assms, of "e_key e'" "e_val e'"] by (auto simp: not_le)
    with e R show ?L by (intro bexI [of _ e]) auto
  qed
  finally show ?thesis .
qed

lemma nmap_query_None:
  assumes "nmap_ok m"
  shows "nmap_query m n = None \<longleftrightarrow> (\<forall>k\<ge>n. \<forall>t. pool_of m k = Some t \<longrightarrow> ti_packed t)"
  unfolding pool_of_Some [OF assms] by (auto simp: nmap_query_find [OF assms] find_None_iff)

lemma weight_below_fields:
  assumes "nmap_ok m"
  shows "cost (weight_below m n) = pool_sum ti_tx_cost m {..<n}" "np_size (weight_below m n) = pool_sum (\<lambda>_. 1) m {..<n}"
proof -
  have "n \<noteq> 0 \<Longrightarrow> {..n - 1} = {..<n}" by auto
  then show "cost (weight_below m n) = pool_sum ti_tx_cost m {..<n}" "np_size (weight_below m n) = pool_sum (\<lambda>_. 1) m {..<n}"
    by (auto simp: weight_below_def nmap_weight_fields [OF assms] pool_sum_def np_empty_def)
qed

lemma pool_sum_upto: "n \<le> e \<Longrightarrow> pool_sum f m {..e} = pool_sum f m {..<n} + pool_sum f m {n..e}"
proof -
  assume "n \<le> e"
  then have "{..e} = {..<n} \<union> {n..e}" "{..<n} \<inter> {n..e} = {}" by auto
  then show ?thesis by (simp add: pool_sum_def sum.union_disjoint)
qed

lemma present_count:
  "pool_sum (\<lambda>_. 1) m {n..e} = Suc e - n \<longleftrightarrow> (\<forall>k\<in>{n..e}. pool_of m k \<noteq> None)"
  unfolding pool_sum_def
  by (subst card_atLeastAtMost [symmetric], subst sum_indicator_card) (auto split: option.splits)

lemma pool_sum_pos: "pool_of m k \<noteq> None \<Longrightarrow> k \<in> {n..e} \<Longrightarrow> 0 < pool_sum (\<lambda>_. 1) m {n..e}"
  unfolding pool_sum_def by (rule sum_pos2 [where i = k]) auto

section \<open>Readiness\<close>

text \<open>
  The first transaction the account can still send: it is unpacked, every nonce between the
  state nonce and it is present and packed, and the balance pays for all of them.
\<close>

definition ready_first :: "'r nonce_map \<Rightarrow> u256 \<Rightarrow> u256 \<Rightarrow> tx_info \<Rightarrow> bool" where
  "ready_first m n bal t \<longleftrightarrow>
     pool_of m (ti_nonce t) = Some t \<and> \<not> ti_packed t \<and> n \<le> ti_nonce t \<and>
     (\<forall>k\<in>{n..<ti_nonce t}. \<exists>t'. pool_of m k = Some t' \<and> ti_packed t') \<and>
     pool_sum ti_tx_cost m {n..ti_nonce t} \<le> bal"

lemma ready_first_query:
  assumes "nmap_ok m"
  shows "ready_first m n bal t \<longleftrightarrow> nmap_query m n = Some t \<and>
    pool_sum (\<lambda>_. 1) m {n..ti_nonce t} = Suc (ti_nonce t) - n \<and> pool_sum ti_tx_cost m {n..ti_nonce t} \<le> bal"
proof -
  have all: "(\<forall>k\<in>{n..ti_nonce t}. pool_of m k \<noteq> None) \<longleftrightarrow> (\<forall>k\<in>{n..<ti_nonce t}. pool_of m k \<noteq> None)"
    if "pool_of m (ti_nonce t) = Some t"
    using that by (auto simp: le_less)
  have ex: "(\<exists>t'. x = Some t' \<and> P t') \<longleftrightarrow> (\<forall>t'. x = Some t' \<longrightarrow> P t') \<and> x \<noteq> None" for x :: "tx_info option" and P
    by (cases x) auto
  from all show ?thesis
    unfolding ready_first_def nmap_query_Some [OF assms] present_count ex ball_conj_distrib by meson
qed

lemma recalculate_readiness_cases:
  assumes "nmap_ok m"
  shows "recalculate_readiness m n bal = Some (case nmap_query m n of
      None \<Rightarrow> None
    | Some t \<Rightarrow> if ready_first m n bal t
        then Some (t, continous_ready_nonce m (ti_nonce t) (nmap_weight m (ti_nonce t)) (bal - pool_sum ti_tx_cost m {n..ti_nonce t}))
        else None)"
proof (cases "nmap_query m n")
  case None
  then show ?thesis by (simp add: recalculate_readiness_def)
next
  case (Some t)
  note t = Some [unfolded nmap_query_Some [OF assms]]
  let ?c = "pool_sum ti_tx_cost m {n..ti_nonce t}" and ?k = "pool_sum (\<lambda>_. 1) m {n..ti_nonce t}"
  have elapsed: "csub (np_size (nmap_weight m (ti_nonce t))) (np_size (weight_below m n)) = Some ?k"
    "csub (cost (nmap_weight m (ti_nonce t))) (cost (weight_below m n)) = Some ?c"
    using t pool_sum_upto [of n "ti_nonce t" "\<lambda>_. 1" m] pool_sum_upto [of n "ti_nonce t" ti_tx_cost m] by (simp_all add: weight_below_fields [OF assms] nmap_weight_fields [OF assms] csub_def)
  have "0 < ?k" by (rule pool_sum_pos [of _ "ti_nonce t"]) (use t in auto)
  then have before: "csub ?k 1 = Some (?k - 1)" "csub (ti_nonce t) n = Some (ti_nonce t - n)"
    and gap: "?k - 1 \<noteq> ti_nonce t - n \<longleftrightarrow> ?k \<noteq> Suc (ti_nonce t) - n"
    using t by auto
  have rest: "csub bal ?c = Some (bal - ?c)" if "?c \<le> bal" using that by simp
  show ?thesis
    unfolding recalculate_readiness_def Some option.case Let_def elapsed bind.bind_lunit before gap
      ready_first_query [OF assms]
    by (cases "?k \<noteq> Suc (ti_nonce t) - n \<or> ?c > bal") (simp_all add: Some rest not_le del: csub_eq_Some)
qed

section \<open>Building a packing batch\<close>

lemma signed_tx_ops_simps [simp]:
  "sender_of signed_tx_ops = st_sender_with_space" "nonce_of signed_tx_ops = st_nonce"
  "price_of signed_tx_ops = st_gas_price" "gas_of signed_tx_ops = st_gas_limit"
  by (simp_all add: signed_tx_ops_def)

text \<open>A batch takes a transaction at its end.\<close>

definition takes :: "('tx, 'a) tx_ops \<Rightarrow> packing_pool_config \<Rightarrow> 'tx batch \<Rightarrow> 'tx \<Rightarrow> bool" where
  "takes T cfg b tx \<longleftrightarrow> nonce_of T tx < u256_max - 1 \<and> length (txs b) < address_tx_count cfg \<and>
     price_of T (last (txs b)) \<le> price_of T tx \<and> total_gas_limit b + gas_of T tx \<le> address_gas_limit cfg"

lemma batch_insert_end:
  assumes ok: "batch_ok T b" and sender: "sender_of T tx = sender_of T (hd (txs b))"
    and nonce: "nonce_of T tx = nonce_of T (hd (txs b)) + length (txs b)" and limit: "address_gas_limit cfg < u256_max"
  shows "if takes T cfg b tx
    then batch_insert T cfg b tx = Some (\<lparr>txs = txs b @ [tx], total_gas_limit = total_gas_limit b + gas_of T tx\<rparr>, [], Inr ())
    else \<exists>e. batch_insert T cfg b tx = Some (b, [], Inl e)"
proof -
  note unfold = batch_insert_def batch_ok_first [OF ok] assert_that_def sender cadd_def Let_def sat_add_def takes_def
  have sat: "address_gas_limit cfg < min (total_gas_limit b + gas_of T tx) u256_max \<longleftrightarrow>
      address_gas_limit cfg < total_gas_limit b + gas_of T tx"
    using limit by (simp add: min_def)
  show ?thesis
  proof (cases "nonce_of T tx < u256_max - 1")
    case True
    then have "nonce_of T (hd (txs b)) + length (txs b) < 2 ^ 256" using nonce by simp
    with True sat limit nonce show ?thesis by (auto simp: unfold)
  qed (auto simp: unfold)
qed

lemma takes_promise:
  assumes "batch_ok T b" "sender_of T tx = sender_of T (hd (txs b))"
    "nonce_of T tx = nonce_of T (hd (txs b)) + length (txs b)" "takes T cfg b tx"
  shows "batch_ok T \<lparr>txs = txs b @ [tx], total_gas_limit = total_gas_limit b + gas_of T tx\<rparr>"
    "batch_fits cfg b \<Longrightarrow> batch_fits cfg \<lparr>txs = txs b @ [tx], total_gas_limit = total_gas_limit b + gas_of T tx\<rparr>"
  using insert_promise_append [OF assms(1-3), of cfg] assms(4) by (auto simp: takes_def insert_promise_def)

abbreviation stx :: "(signed_transaction, address \<times> space) tx_ops" where "stx \<equiv> signed_tx_ops"

lemma batch_loop_spec:
  assumes "batch_ok stx b" "batch_fits cfg b" "address_gas_limit cfg < u256_max"
    "next = st_nonce (hd (txs b)) + length (txs b)" "sorted_wrt (<) (map ti_nonce us)"
    "\<forall>t\<in>set us. next \<le> ti_nonce t \<and> ti_nonce t < u256_max \<and> st_sender_with_space (ti_transaction t) = st_sender_with_space (hd (txs b))"
  shows "\<exists>b' k. batch_loop cfg lst next b us = Some b' \<and> batch_ok stx b' \<and> batch_fits cfg b' \<and>
    k \<le> length us \<and> txs b' = txs b @ map ti_transaction (take k us) \<and> (\<forall>i<k. ti_nonce (us ! i) = next + i) \<and>
    (1 < k \<longrightarrow> next + k \<le> Suc lst) \<and>
    ((\<forall>t\<in>set us. ti_nonce t \<noteq> next + k) \<or> 0 < k \<and> lst < next + k \<or>
     (\<exists>t\<in>set us. ti_nonce t = next + k \<and> \<not> takes stx cfg b' (ti_transaction t)))"
  using assms
proof (induction us arbitrary: b "next")
  case Nil
  then show ?case by auto
next
  case (Cons tx us)
  let ?tx = "ti_transaction tx" and ?b = "\<lparr>txs = txs b @ [ti_transaction tx], total_gas_limit = total_gas_limit b + st_gas_limit (ti_transaction tx)\<rparr>"
  have ne: "txs b \<noteq> []" using Cons.prems(1) by (simp add: batch_ok_def)
  show ?case
  proof (cases "ti_nonce tx = next")
    case False
    then have "\<forall>t\<in>set (tx # us). ti_nonce t \<noteq> next" using Cons.prems(5,6) by auto
    with False Cons.prems(1,2) show ?thesis by (intro exI [of _ b] exI [of _ 0]) auto
  next
    case True
    have nx: "cadd 256 next 1 = Some (Suc next)" using Cons.prems(6) True by simp
    have here: "sender_of stx ?tx = sender_of stx (hd (txs b))" "nonce_of stx ?tx = nonce_of stx (hd (txs b)) + length (txs b)"
      using Cons.prems(4,6) True by auto
    note ins = batch_insert_end [OF Cons.prems(1) here Cons.prems(3)]
    show ?thesis
    proof (cases "takes stx cfg b ?tx")
      case False
      with ins obtain e where "batch_insert stx cfg b ?tx = Some (b, [], Inl e)" by auto
      with True nx have "batch_loop cfg lst next b (tx # us) = Some b" by (simp add: cadd_def)
      with False True Cons.prems(1,2) show ?thesis by (intro exI [of _ b] exI [of _ 0]) auto
    next
      case takes: True
      with ins have step: "batch_insert stx cfg b ?tx = Some (?b, [], Inr ())" by simp
      note ok' = takes_promise [OF Cons.prems(1) here takes, simplified]
      show ?thesis
      proof (cases "Suc next \<le> lst")
        case False
        then have "batch_loop cfg lst next b (tx # us) = Some ?b" using True nx step by (simp add: cadd_def)
        with False True ok' Cons.prems(2) show ?thesis by (intro exI [of _ ?b] exI [of _ 1]) auto
      next
        case le: True
        have loop: "batch_loop cfg lst next b (tx # us) = batch_loop cfg lst (Suc next) ?b us"
          using True nx step le by (simp add: cadd_def)
        have "\<forall>t\<in>set us. Suc next \<le> ti_nonce t \<and> ti_nonce t < u256_max \<and>
            st_sender_with_space (ti_transaction t) = st_sender_with_space (hd (txs ?b))"
          using Cons.prems(5,6) True ne by auto
        from Cons.IH [OF ok'(1) ok'(2) [OF Cons.prems(2)] Cons.prems(3) _ _ this] Cons.prems(4,5) ne
        obtain b' k where IH: "batch_loop cfg lst (Suc next) ?b us = Some b'" "batch_ok stx b'" "batch_fits cfg b'" "k \<le> length us"
          "txs b' = txs ?b @ map ti_transaction (take k us)" "\<forall>i<k. ti_nonce (us ! i) = Suc next + i"
          "1 < k \<longrightarrow> Suc next + k \<le> Suc lst"
          "(\<forall>t\<in>set us. ti_nonce t \<noteq> Suc next + k) \<or> 0 < k \<and> lst < Suc next + k \<or>
           (\<exists>t\<in>set us. ti_nonce t = Suc next + k \<and> \<not> takes stx cfg b' (ti_transaction t))"
          by auto
        have "\<forall>i<Suc k. ti_nonce ((tx # us) ! i) = next + i" using IH(6) True by (auto simp: nth_Cons split: nat.split)
        moreover have "next + Suc k \<le> Suc lst" using IH(7) le by (cases "k \<le> 1") auto
        ultimately show ?thesis
          using IH True by (intro exI [of _ b'] exI [of _ "Suc k"]) (auto simp: loop simp del: batch_loop.simps)
      qed
    qed
  qed
qed

lemma nmap_iter_range_set:
  assumes "nmap_ok m"
  shows "t \<in> set (nmap_iter_range m n) \<longleftrightarrow> n \<le> ti_nonce t \<and> pool_of m (ti_nonce t) = Some t"
    "sorted_wrt (<) (map ti_nonce (nmap_iter_range m n))"
proof -
  let ?es = "inorder (root m)"
  have nonce: "ti_nonce (e_val e) = e_key e" if "e \<in> set ?es" for e
    using assms that by (auto simp: nmap_ok_def list_all_iff np_entry_ok_def)
  show "t \<in> set (nmap_iter_range m n) \<longleftrightarrow> n \<le> ti_nonce t \<and> pool_of m (ti_nonce t) = Some t"
  proof -
    have "t \<in> set (nmap_iter_range m n) \<longleftrightarrow> (\<exists>e\<in>set ?es. n \<le> e_key e \<and> e_val e = t)"
      by (auto simp: nmap_iter_range_sorted [OF assms])
    also have "\<dots> \<longleftrightarrow> (\<exists>e\<in>set ?es. n \<le> ti_nonce t \<and> e_key e = ti_nonce t \<and> e_val e = t)"
      by (intro bex_cong refl) (metis nonce)
    finally show ?thesis by (auto simp: pool_of_Some [OF assms])
  qed
  have "map ti_nonce (nmap_iter_range m n) = map e_key (filter (\<lambda>e. n \<le> e_key e) ?es)"
    using nonce by (simp add: nmap_iter_range_sorted [OF assms])
  moreover have "sorted_wrt (<) (map e_key (filter (\<lambda>e. n \<le> e_key e) ?es))"
    using nmap_ok_sorted [OF assms] by (simp add: sorted_wrt_map sorted_wrt_filter)
  ultimately show "sorted_wrt (<) (map ti_nonce (nmap_iter_range m n))" by simp
qed

definition one_sender :: "'r nonce_map \<Rightarrow> address \<times> space \<Rightarrow> bool" where
  "one_sender m a \<longleftrightarrow> (\<forall>n t. pool_of m n = Some t \<longrightarrow> st_sender_with_space (ti_transaction t) = a \<and> n < u256_max)"

lemma make_packing_batch_spec:
  assumes ok: "nmap_ok m" and first: "pool_of m s = Some first"
    and sender: "one_sender m (st_sender_with_space (ti_transaction first))"
    and cfg: "0 < address_tx_count cfg" "address_gas_limit cfg < u256_max"
  shows "\<exists>b k. make_packing_batch m first cfg lst = Some b \<and> batch_ok stx b \<and> batch_fits cfg b \<and> 0 < k \<and>
    txs b = map (\<lambda>i. ti_transaction (the (pool_of m (s + i)))) [0..<k] \<and> (\<forall>i<k. pool_of m (s + i) \<noteq> None) \<and>
    s + k \<le> Suc (max lst (Suc s)) \<and>
    (pool_of m (s + k) = None \<or> 1 < k \<and> lst < s + k \<or> \<not> takes stx cfg b (ti_transaction (the (pool_of m (s + k)))))"
proof -
  let ?b = "batch_new stx (ti_transaction first)" and ?us = "nmap_iter_range m (Suc s)"
  have s: "ti_nonce first = s" by (rule pool_of_nonce [OF ok first])
  have in_us: "t \<in> set ?us \<longleftrightarrow> Suc s \<le> ti_nonce t \<and> pool_of m (ti_nonce t) = Some t" for t
    by (rule nmap_iter_range_set [OF ok])
  have start: "batch_fits cfg ?b" using cfg by (simp add: batch_fits_def batch_new_def)
  have nx: "cadd 256 (ti_nonce first) 1 = Some (Suc s)"
    using sender first by (auto simp: s one_sender_def)
  have at_end: "Suc s = st_nonce (hd (txs ?b)) + length (txs ?b)" using s by (simp add: batch_new_def)
  have "\<forall>t\<in>set ?us. Suc s \<le> ti_nonce t \<and> ti_nonce t < u256_max \<and>
      st_sender_with_space (ti_transaction t) = st_sender_with_space (hd (txs ?b))"
    using sender in_us by (auto simp: one_sender_def batch_new_def)
  from batch_loop_spec [OF batch_ok_new start cfg(2) at_end nmap_iter_range_set(2) [OF ok] this]
  obtain b k where b: "batch_loop cfg lst (Suc s) ?b ?us = Some b" "batch_ok stx b" "batch_fits cfg b" "k \<le> length ?us"
    and txs: "txs b = txs ?b @ map ti_transaction (take k ?us)" and nonces: "\<forall>i<k. ti_nonce (?us ! i) = Suc s + i"
    and bound: "1 < k \<longrightarrow> Suc s + k \<le> Suc lst"
    and stop: "(\<forall>t\<in>set ?us. ti_nonce t \<noteq> Suc s + k) \<or> 0 < k \<and> lst < Suc s + k \<or>
      (\<exists>t\<in>set ?us. ti_nonce t = Suc s + k \<and> \<not> takes stx cfg b (ti_transaction t))"
    by blast
  have pool: "pool_of m (s + Suc i) = Some (?us ! i)" if "i < k" for i
    using that nonces b(4) in_us [of "?us ! i"] by (simp add: nth_mem)
  have "pool_of m (s + i) \<noteq> None" if "i < Suc k" for i
    using that pool [of "i - 1"] first by (cases i) auto
  moreover have "txs b = map (\<lambda>i. ti_transaction (the (pool_of m (s + i)))) [0..<Suc k]"
  proof (rule nth_equalityI)
    show "length (txs b) = length (map (\<lambda>i. ti_transaction (the (pool_of m (s + i)))) [0..<Suc k])"
      using b(4) by (simp add: txs batch_new_def)
    show "txs b ! i = map (\<lambda>i. ti_transaction (the (pool_of m (s + i)))) [0..<Suc k] ! i" if "i < length (txs b)" for i
      using that b(4) pool [of "i - 1"] first by (cases i) (auto simp: txs batch_new_def simp del: upt_Suc)
  qed
  moreover have "pool_of m (s + Suc k) = None \<or> 1 < Suc k \<and> lst < s + Suc k \<or> \<not> takes stx cfg b (ti_transaction (the (pool_of m (s + Suc k))))"
  proof (cases "pool_of m (s + Suc k)")
    case (Some t)
    then have t: "ti_nonce t = Suc s + k" "t \<in> set ?us" using pool_of_nonce [OF ok Some] in_us by auto
    from stop consider "\<forall>t\<in>set ?us. ti_nonce t \<noteq> Suc s + k" | "0 < k" "lst < Suc s + k"
      | t' where "t' \<in> set ?us" "ti_nonce t' = Suc s + k" "\<not> takes stx cfg b (ti_transaction t')" by blast
    then show ?thesis
    proof cases
      case 3
      then have "t' = t" using in_us [of t'] Some by simp
      with 3 Some show ?thesis by simp
    qed (use t in auto)
  qed simp
  moreover have "s + Suc k \<le> Suc (max lst (Suc s))" using bound by (cases "k \<le> 1") auto
  ultimately show ?thesis
    using b nx by (intro exI [of _ b] exI [of _ "Suc k"]) (simp add: make_packing_batch_def s cadd_def del: upt_Suc cadd_eq_Some)
qed

section \<open>Counting and pending reasons\<close>

lemma pool_sum_card:
  assumes "finite N"
  shows "pool_sum (\<lambda>_. 1) m N = card {n \<in> N. pool_of m n \<noteq> None}"
proof -
  have "pool_sum (\<lambda>_. 1) m N = (\<Sum>n\<in>N. if pool_of m n \<noteq> None then 1 else 0)"
    unfolding pool_sum_def by (intro sum.cong) (auto split: option.splits)
  also have "\<dots> = card {n \<in> N. pool_of m n \<noteq> None}"
    by (simp only: card_eq_sum sum.inter_filter [OF assms])
  finally show ?thesis .
qed

lemma finite_pool: "nmap_ok m \<Longrightarrow> finite {n. pool_of m n \<noteq> None}"
  by (rule finite_subset [of _ "e_key ` set (inorder (root m))"]) (auto simp: pool_of_Some)

lemma count_less_card:
  assumes "nmap_ok m"
  shows "count_less m n = card {k. k < n \<and> pool_of m k \<noteq> None}"
proof -
  have "count_less m n = np_size (weight_below m n)" by (simp add: count_less_def weight_below_def np_empty_def)
  then show ?thesis unfolding weight_below_fields [OF assms] pool_sum_card [OF finite_lessThan] by simp
qed

lemma count_from_card:
  assumes "nmap_ok m"
  shows "count_from m n = Some (card {k. n \<le> k \<and> pool_of m k \<noteq> None})"
proof -
  let ?A = "{k. k < n \<and> pool_of m k \<noteq> None}" and ?B = "{k. n \<le> k \<and> pool_of m k \<noteq> None}"
  have "nmap_len m = card (?A \<union> ?B)"
    unfolding nmap_len_pool [OF assms] by (rule arg_cong [of _ _ card]) (auto simp: dom_def)
  moreover have "finite ?A" "finite ?B" by (rule finite_subset [OF _ finite_pool [OF assms]], auto)+
  then have "card (?A \<union> ?B) = card ?A + card ?B" by (intro card_Un_disjoint) auto
  ultimately show ?thesis by (simp add: count_from_def count_less_card [OF assms])
qed

lemma check_pending_reason_eq:
  assumes "nmap_ok m" "pool_of m (st_nonce t) \<noteq> None" "n \<le> st_nonce t" "st_nonce t < 2 ^ 256"
  shows "check_pending_reason m n bal t = Some
    (if \<exists>k\<in>{n..st_nonce t}. pool_of m k = None then Some FutureNonce
     else if pool_sum ti_tx_cost m {n..st_nonce t} > bal then Some NotEnoughCash else None)"
proof -
  let ?e = "st_nonce t"
  let ?c = "pool_sum ti_tx_cost m {n..?e}" and ?k = "pool_sum (\<lambda>_. 1) m {n..?e}"
  have elapsed: "csub (np_size (nmap_weight m ?e)) (np_size (weight_below m n)) = Some ?k"
    "csub (cost (nmap_weight m ?e)) (cost (weight_below m n)) = Some ?c"
    using assms(3) pool_sum_upto [of n ?e "\<lambda>_. 1" m] pool_sum_upto [of n ?e ti_tx_cost m]
    by (simp_all add: weight_below_fields [OF assms(1)] nmap_weight_fields [OF assms(1)] csub_def)
  have pos: "0 < ?k" by (rule pool_sum_pos [OF assms(2)]) (use assms(3) in auto)
  have "?k \<le> card {n..?e}" unfolding pool_sum_card [OF finite_atLeastAtMost] by (intro card_mono) auto
  with assms(3) have le: "?k \<le> Suc ?e - n" by simp
  with pos assms(3,4) have step: "csub ?k 1 = Some (?k - 1)" "cadd 256 n (?k - 1) = Some (n + (?k - 1))" by simp_all
  have gap: "n + (?k - 1) \<noteq> ?e \<longleftrightarrow> (\<exists>k\<in>{n..?e}. pool_of m k = None)"
    using present_count [of m n ?e] pos le assms(3) by auto
  show ?thesis
    unfolding check_pending_reason_def Let_def elapsed bind.bind_lunit step gap by simp
qed

lemma find_filter: "map_option f (find P xs) = (case map f (filter P xs) of [] \<Rightarrow> None | x # _ \<Rightarrow> Some x)"
  by (induction xs) auto

lemma nmap_succ_Some:
  assumes "nmap_ok m"
  shows "nmap_succ m n = Some t \<longleftrightarrow> pool_of m (ti_nonce t) = Some t \<and> n \<le> ti_nonce t \<and> (\<forall>k\<in>{n..<ti_nonce t}. pool_of m k = None)"
proof -
  have us: "nmap_succ m n = (case nmap_iter_range m n of [] \<Rightarrow> None | t # _ \<Rightarrow> Some t)"
    unfolding nmap_succ_find [OF assms] nmap_iter_range_sorted [OF assms] by (rule find_filter)
  note in_us = nmap_iter_range_set(1) [OF assms]
  show ?thesis
  proof
    assume "nmap_succ m n = Some t"
    then obtain ts where ts: "nmap_iter_range m n = t # ts" by (auto simp: us split: list.splits)
    have "pool_of m k = None" if "k \<in> {n..<ti_nonce t}" for k
    proof (rule ccontr)
      assume "pool_of m k \<noteq> None"
      then obtain t' where t': "pool_of m k = Some t'" by auto
      then have "t' \<in> set (nmap_iter_range m n)" using that pool_of_nonce [OF assms t'] by (auto simp: in_us)
      then show False
        using nmap_iter_range_set(2) [OF assms, of n] that pool_of_nonce [OF assms t'] by (auto simp: ts)
    qed
    with ts in_us [of t n] show "pool_of m (ti_nonce t) = Some t \<and> n \<le> ti_nonce t \<and> (\<forall>k\<in>{n..<ti_nonce t}. pool_of m k = None)"
      by simp
  next
    assume t: "pool_of m (ti_nonce t) = Some t \<and> n \<le> ti_nonce t \<and> (\<forall>k\<in>{n..<ti_nonce t}. pool_of m k = None)"
    then have mem: "t \<in> set (nmap_iter_range m n)" by (simp add: in_us)
    then obtain x ts where ts: "nmap_iter_range m n = x # ts" by (cases "nmap_iter_range m n") auto
    then have "n \<le> ti_nonce x" "pool_of m (ti_nonce x) = Some x" using in_us [of x n] by auto
    with t have "\<not> ti_nonce x < ti_nonce t" by auto
    then have "x = t" using mem nmap_iter_range_set(2) [OF assms, of n] by (auto simp: ts)
    then show "nmap_succ m n = Some t" by (simp add: us ts)
  qed
qed

text \<open>The aggregated weights of a pool of fewer than \<open>2 ^ 32\<close> transactions do not overflow.\<close>

lemma pool_weight_fits:
  assumes "nmap_ok m" "card (dom (pool_of m)) < 2 ^ 32" "\<forall>t\<in>ran (pool_of m). ti_tx_cost t < tx_cost_bound"
  shows "cost (nmap_weight m n) < 2 ^ 256" "np_size (nmap_weight m n) < 2 ^ 32"
proof -
  let ?N = "{k \<in> {..n}. pool_of m k \<noteq> None}"
  have "card ?N \<le> card (dom (pool_of m))"
    using finite_pool [OF assms(1)] by (intro card_mono) (auto simp: dom_def)
  with assms(2) have card: "card ?N < 2 ^ 32" by simp
  then show "np_size (nmap_weight m n) < 2 ^ 32"
    unfolding nmap_weight_fields [OF assms(1)] pool_sum_card [OF finite_atMost] .
  have "pool_sum ti_tx_cost m {..n} = (\<Sum>k\<in>?N. ti_tx_cost (the (pool_of m k)))"
    unfolding pool_sum_def by (rule sum.mono_neutral_cong_right) auto
  also have "\<dots> \<le> (\<Sum>k\<in>?N. 2 ^ 193)"
    using assms(3) by (intro sum_mono) (auto simp: ran_def tx_cost_bound_def intro!: less_imp_le)
  also have "\<dots> = card ?N * 2 ^ 193" by simp
  also have "\<dots> \<le> 2 ^ 32 * 2 ^ 193" using card by (intro mult_le_mono1) simp
  also have "\<dots> < (2 ^ 256 :: nat)" by simp
  finally show "cost (nmap_weight m n) < 2 ^ 256" unfolding nmap_weight_fields [OF assms(1)] .
qed

end
