(* ===== verification/Pool_Properties.thy ===== *)
theory Pool_Properties
  imports Nonce_Pool
begin

text \<open>
  The properties of the per-sender pool and of packing batches. The examples use a pool of two
  transactions of one sender with nonces 5 and 6.
\<close>

definition demo_signed :: "nat \<Rightarrow> nat \<Rightarrow> signed_transaction" where
  "demo_signed nonce price =
     \<lparr>st_transaction = \<lparr>ts_transaction = \<lparr>unsigned = Ethereum (Eip155
         \<lparr>e155_nonce = nonce, e155_gas_price = price, e155_gas = 3, e155_action = Create, e155_value = 4,
          e155_chain_id = Some 7, e155_data = []\<rparr>), sig_v = 0, sig_r = 1, sig_s = 1\<rparr>,
        ts_hash = [], ts_rlp_size = None\<rparr>,
      st_sender = [1], st_public = None\<rparr>"

definition demo_info :: "nat \<Rightarrow> nat \<Rightarrow> tx_info" where
  "demo_info nonce price =
     \<lparr>ti_transaction = demo_signed nonce price, ti_packed = False, ti_sponsored_gas = 0, ti_sponsored_storage = 0,
      ti_tx_cost = 3 * price + 4\<rparr>"

definition demo_put :: "tx_info \<Rightarrow> nat nonce_map \<Rightarrow> nat nonce_map" where
  "demo_put t m = (case nmap_insert (\<lambda>r. (Suc r, r)) m t True of Some (m', _) \<Rightarrow> m' | None \<Rightarrow> m)"

definition demo_pool :: "nat nonce_map" where
  "demo_pool = demo_put (demo_info 6 12) (demo_put (demo_info 5 10) (nmap_new 0))"

definition demo_cfg :: packing_pool_config where
  "demo_cfg = \<lparr>address_gas_limit = 100, address_tx_count = 4, loss_ratio_degree = 2\<rparr>"

lemma demo_simps [simp]:
  "ti_nonce (demo_info n p) = n" "ti_gas_price (demo_info n p) = p" "\<not> ti_packed (demo_info n p)"
  "ti_tx_cost (demo_info n p) = 3 * p + 4" "ti_transaction (demo_info n p) = demo_signed n p"
  "st_nonce (demo_signed n p) = n" "st_gas_price (demo_signed n p) = p" "st_gas_limit (demo_signed n p) = 3"
  "st_sender_with_space (demo_signed n p) = ([1], SpaceEthereum)"
  "address_gas_limit demo_cfg = 100" "address_tx_count demo_cfg = 4"
  by (simp_all add: demo_info_def demo_signed_def st_nonce_def st_gas_price_def st_gas_limit_def
      st_sender_with_space_def demo_cfg_def)

lemma demo_put_ok:
  assumes "nmap_ok m"
  shows "nmap_ok (demo_put t m) \<and> pool_of (demo_put t m) = (pool_of m)(ti_nonce t \<mapsto> t)"
proof (cases "pool_of m (ti_nonce t)")
  case None
  obtain m' where "nmap_insert (\<lambda>r. (Suc r, r)) m t True = Some (m', NewAdded)" "nmap_ok m'"
    "pool_of m' = (pool_of m)(ti_nonce t \<mapsto> t)"
    by (rule nmap_insert_new [OF assms None])
  then show ?thesis by (simp add: demo_put_def)
next
  case (Some old)
  obtain m' where "nmap_insert (\<lambda>r. (Suc r, r)) m t True = Some (m', Updated old)" "nmap_ok m'"
    "pool_of m' = (pool_of m)(ti_nonce t \<mapsto> t)"
    using nmap_insert_existing [OF assms Some, of "\<lambda>r. (Suc r, r)" True] by (auto simp: should_replace_def)
  then show ?thesis by (simp add: demo_put_def)
qed

lemma demo_pool_ok: "nmap_ok demo_pool" "pool_of demo_pool = [5 \<mapsto> demo_info 5 10, 6 \<mapsto> demo_info 6 12]"
proof -
  note new = nmap_new_ok [of "0 :: nat"]
  note one = demo_put_ok [OF new(1), of "demo_info 5 10"]
  note two = demo_put_ok [of _ "demo_info 6 12", OF conjunct1 [OF one]]
  show "nmap_ok demo_pool" "pool_of demo_pool = [5 \<mapsto> demo_info 5 10, 6 \<mapsto> demo_info 6 12]"
    unfolding demo_pool_def using two one new(2) by auto
qed

lemma demo_pool_sum: "pool_sum ti_tx_cost demo_pool {5} = 34" "pool_sum ti_tx_cost demo_pool {5..6} = 74"
proof -
  have "{5..6::nat} = {5, 6}" by auto
  then show "pool_sum ti_tx_cost demo_pool {5} = 34" "pool_sum ti_tx_cost demo_pool {5..6} = 74"
    by (simp_all add: pool_sum_def demo_pool_ok(2))
qed

section \<open>The nonce map\<close>

text \<open>
  C7: \<^verbatim>\<open>NoncePoolMap::insert\<close> stores a transaction under its nonce: a free nonce is filled, a taken
  one is overwritten exactly when \<^verbatim>\<open>should_replace\<close> allows it (the old transaction is handed back),
  otherwise nothing changes; it panics only when the price to beat overflows.
\<close>

theorem nonce_map_insert_refines:
  assumes "nmap_ok m"
  shows "case pool_of m (ti_nonce tx) of
      None \<Rightarrow> \<exists>m'. nmap_insert nx m tx force = Some (m', NewAdded) \<and> nmap_ok m' \<and>
        pool_of m' = (pool_of m)(ti_nonce tx \<mapsto> tx)
    | Some old \<Rightarrow> (case should_replace tx old force of
          None \<Rightarrow> nmap_insert nx m tx force = None
        | Some True \<Rightarrow> \<exists>m'. nmap_insert nx m tx force = Some (m', Updated old) \<and> nmap_ok m' \<and>
            pool_of m' = (pool_of m)(ti_nonce tx \<mapsto> tx)
        | Some False \<Rightarrow> \<exists>m'. nmap_insert nx m tx force = Some (m', Failed (ti_gas_price old)) \<and> nmap_ok m' \<and>
            pool_of m' = pool_of m)"
proof (cases "pool_of m (ti_nonce tx)")
  case None
  then show ?thesis by (auto intro: nmap_insert_new [OF assms None, of nx force])
next
  case (Some old)
  then show ?thesis using nmap_insert_existing [OF assms Some] by simp
qed

theorem nonce_map_insert_refines_witness:
  "nmap_ok demo_pool \<and>
   (\<exists>m'. nmap_insert (\<lambda>r. (r, r)) demo_pool (demo_info 6 11) False = Some (m', Failed 12) \<and> pool_of m' = pool_of demo_pool) \<and>
   (\<exists>m'. nmap_insert (\<lambda>r. (r, r)) demo_pool (demo_info 6 13) False = Some (m', Updated (demo_info 6 12)))"
proof -
  have rep: "should_replace (demo_info 6 11) (demo_info 6 12) False = Some False"
    "should_replace (demo_info 6 13) (demo_info 6 12) False = Some True"
    by (simp_all add: should_replace_def replace_price_def cadd_def) (simp_all add: demo_signed_def)
  show ?thesis
    using demo_pool_ok(1) nonce_map_insert_refines [OF demo_pool_ok(1), where tx = "demo_info 6 11" and nx = "\<lambda>r. (r, r)" and force = False]
      nonce_map_insert_refines [OF demo_pool_ok(1), where tx = "demo_info 6 13" and nx = "\<lambda>r. (r, r)" and force = False]
    by (auto simp: demo_pool_ok(2) rep)
qed

section \<open>Readiness\<close>

text \<open>
  C8: \<^verbatim>\<open>recalculate_readiness_with_local_info\<close> never panics; it answers \<^verbatim>\<open>Some((tx, end))\<close> exactly when
  \<^verbatim>\<open>tx\<close> is the first unpacked transaction, every nonce from the state nonce up to it is present and
  packed and the balance pays for all of them; \<^verbatim>\<open>end\<close> is then the last nonce reachable over
  present, unpacked transactions that the rest of the balance pays for.
\<close>

theorem recalculate_readiness_sound_complete:
  assumes "nmap_ok m"
  shows "\<exists>res. recalculate_readiness m n bal = Some res \<and>
    (case res of
       None \<Rightarrow> \<not> (\<exists>t. ready_first m n bal t)
     | Some (t, e) \<Rightarrow> ready_first m n bal t \<and> ti_nonce t \<le> e \<and>
         (\<forall>e'. ti_nonce t \<le> e' \<longrightarrow>
            ready_until m (ti_nonce t) (bal - pool_sum ti_tx_cost m {n..ti_nonce t}) e' = (e' \<le> e)))"
proof -
  have unique: "nmap_query m n = Some t" if "ready_first m n bal t" for t
    using that by (simp add: ready_first_query [OF assms])
  show ?thesis
  proof (cases "\<exists>t. nmap_query m n = Some t \<and> ready_first m n bal t")
    case True
    then obtain t where t: "nmap_query m n = Some t" "ready_first m n bal t" by blast
    let ?rest = "bal - pool_sum ti_tx_cost m {n..ti_nonce t}"
    obtain e where e: "e = continous_ready_nonce m (ti_nonce t) (nmap_weight m (ti_nonce t)) ?rest" by simp
    have "pool_of m (ti_nonce t) \<noteq> None" using t(2) by (simp add: ready_first_def)
    note mx = continous_ready_nonce_max [OF assms this e]
    have "ready_until m (ti_nonce t) ?rest e' = (e' \<le> e)" for e'
      using mx ready_until_mono by blast
    with t e mx(1) show ?thesis by (simp add: recalculate_readiness_cases [OF assms])
  next
    case False
    with unique have "\<not> (\<exists>t. ready_first m n bal t)" by blast
    then show ?thesis by (auto simp: recalculate_readiness_cases [OF assms] split: option.splits)
  qed
qed

theorem recalculate_readiness_sound_complete_witness:
  "nmap_ok demo_pool \<and> recalculate_readiness demo_pool 5 50 = Some (Some (demo_info 5 10, 5))"
proof -
  have first: "ready_first demo_pool 5 50 (demo_info 5 10)"
    by (simp add: ready_first_def demo_pool_ok(2) demo_pool_sum)
  have only: "t = demo_info 5 10" if "ready_first demo_pool 5 50 t" for t
    using that first by (simp add: ready_first_query [OF demo_pool_ok(1)])
  have "{5<..6::nat} = {6}" by auto
  then have six: "\<not> ready_until demo_pool 5 16 6"
    by (simp add: ready_until_def pool_sum_def demo_pool_ok(2))
  obtain res where res: "recalculate_readiness demo_pool 5 50 = Some res"
    "case res of None \<Rightarrow> \<not> (\<exists>t. ready_first demo_pool 5 50 t)
     | Some (t, e) \<Rightarrow> ready_first demo_pool 5 50 t \<and> ti_nonce t \<le> e \<and>
         (\<forall>e'. ti_nonce t \<le> e' \<longrightarrow>
            ready_until demo_pool (ti_nonce t) (50 - pool_sum ti_tx_cost demo_pool {5..ti_nonce t}) e' = (e' \<le> e))"
    using recalculate_readiness_sound_complete [OF demo_pool_ok(1)] by blast
  then obtain t e where te: "res = Some (t, e)" using first by (auto split: option.splits)
  with res(2) only have "t = demo_info 5 10" by simp
  with res(2) te six have "5 \<le> e" "\<not> 6 \<le> e" by (auto simp: demo_pool_sum dest: spec [of _ 6])
  with te \<open>t = demo_info 5 10\<close> res(1) demo_pool_ok(1) show ?thesis by simp
qed

text \<open>
  C9: the pending reason shown to users agrees with readiness: a transaction at or after the state
  nonce is reported \<^verbatim>\<open>FutureNonce\<close> exactly when a nonce before it is missing and \<^verbatim>\<open>NotEnoughCash\<close>
  exactly when the balance does not pay for the gapless run up to it; a transaction reported ready
  has no pending reason.
\<close>

theorem pending_reason_agrees:
  assumes "nmap_ok m" "pool_of m (ti_nonce t) = Some t" "n \<le> ti_nonce t" "ti_nonce t < 2 ^ 256"
  shows "check_pending_reason m n bal (ti_transaction t) = Some
      (if \<exists>k\<in>{n..ti_nonce t}. pool_of m k = None then Some FutureNonce
       else if pool_sum ti_tx_cost m {n..ti_nonce t} > bal then Some NotEnoughCash else None) \<and>
    (recalculate_readiness m n bal = Some (Some (t, e)) \<longrightarrow>
       check_pending_reason m n bal (ti_transaction t) = Some None)"
proof -
  note reason = check_pending_reason_eq [OF assms(1), of "ti_transaction t" n bal]
  have "ready_first m n bal t" if "recalculate_readiness m n bal = Some (Some (t, e))"
    using that by (auto simp: recalculate_readiness_cases [OF assms(1)] split: option.splits if_splits)
  moreover have "\<forall>k\<in>{n..ti_nonce t}. pool_of m k \<noteq> None" if "ready_first m n bal t"
    using that present_count [of m n "ti_nonce t"] by (simp add: ready_first_query [OF assms(1)])
  moreover have "pool_sum ti_tx_cost m {n..ti_nonce t} \<le> bal" if "ready_first m n bal t"
    using that by (simp add: ready_first_def)
  ultimately show ?thesis using reason assms by fastforce
qed

theorem pending_reason_agrees_witness:
  "nmap_ok demo_pool \<and> check_pending_reason demo_pool 5 50 (demo_signed 6 12) = Some (Some NotEnoughCash) \<and>
   check_pending_reason demo_pool 4 500 (demo_signed 6 12) = Some (Some FutureNonce)"
proof -
  have "{5..6::nat} = {5, 6}" "{4..6::nat} = {4, 5, 6}" by auto
  then show ?thesis
    using pending_reason_agrees [OF demo_pool_ok(1), of "demo_info 6 12" 5 50 0]
      pending_reason_agrees [OF demo_pool_ok(1), of "demo_info 6 12" 4 500 0] demo_pool_ok
      demo_pool_sum(2)
    by simp
qed

section \<open>Packing batches\<close>

text \<open>
  C10: a packing batch built from a nonce pool is well formed (one sender, consecutive nonces from the
  first transaction, non-decreasing prices, exact gas total), within the limits of the
  configuration and made of the pool's transactions; if \<^verbatim>\<open>last_valid_nonce\<close> is above the first
  nonce it never goes past it, and it stops early only at a missing nonce or at a transaction that
  the batch cannot take.
\<close>

theorem make_packing_batch_correct:
  assumes "nmap_ok m" "pool_of m s = Some first" "one_sender m (st_sender_with_space (ti_transaction first))"
    "0 < address_tx_count cfg" "address_gas_limit cfg < u256_max" "s < lst"
  shows "\<exists>b k. make_packing_batch m first cfg lst = Some b \<and> batch_ok stx b \<and> batch_fits cfg b \<and> 0 < k \<and>
    txs b = map (\<lambda>i. ti_transaction (the (pool_of m (s + i)))) [0..<k] \<and> (\<forall>i<k. pool_of m (s + i) \<noteq> None) \<and>
    s + k \<le> Suc lst \<and>
    (s + k = Suc lst \<or> pool_of m (s + k) = None \<or> \<not> takes stx cfg b (ti_transaction (the (pool_of m (s + k)))))"
proof -
  obtain b k where b: "make_packing_batch m first cfg lst = Some b" "batch_ok stx b" "batch_fits cfg b" "0 < k"
    "txs b = map (\<lambda>i. ti_transaction (the (pool_of m (s + i)))) [0..<k]" "\<forall>i<k. pool_of m (s + i) \<noteq> None"
    and bound: "s + k \<le> Suc (max lst (Suc s))"
    and stop: "pool_of m (s + k) = None \<or> 1 < k \<and> lst < s + k \<or> \<not> takes stx cfg b (ti_transaction (the (pool_of m (s + k))))"
    using make_packing_batch_spec [OF assms(1-5)] by blast
  have "s + k \<le> Suc lst" using bound assms(6) by simp
  with b stop show ?thesis by (intro exI [of _ b] exI [of _ k]) auto
qed

lemma demo_pool_sender: "one_sender demo_pool (st_sender_with_space (ti_transaction (demo_info 5 10)))"
  by (simp add: one_sender_def demo_pool_ok(2))

theorem make_packing_batch_correct_witness:
  "\<exists>b. make_packing_batch demo_pool (demo_info 5 10) demo_cfg 7 = Some b \<and> batch_ok stx b \<and>
     set (txs b) \<subseteq> {demo_signed 5 10, demo_signed 6 12}"
proof -
  obtain b k where b: "make_packing_batch demo_pool (demo_info 5 10) demo_cfg 7 = Some b" "batch_ok stx b"
    "txs b = map (\<lambda>i. ti_transaction (the (pool_of demo_pool (5 + i)))) [0..<k]" "\<forall>i<k. pool_of demo_pool (5 + i) \<noteq> None"
    using make_packing_batch_correct [OF demo_pool_ok(1) _ demo_pool_sender, of 5 demo_cfg 7]
    by (auto simp: demo_pool_ok(2))
  have "i = 0 \<or> i = 1" if "i < k" for i using b(4) that by (auto simp: demo_pool_ok(2) split: if_splits)
  then have "ti_transaction (the (pool_of demo_pool (5 + i))) \<in> {demo_signed 5 10, demo_signed 6 12}" if "i < k" for i
    using that by (auto simp: demo_pool_ok(2))
  then have "set (txs b) \<subseteq> {demo_signed 5 10, demo_signed 6 12}" unfolding b(3) by (simp add: image_subset_iff)
  with b show ?thesis by blast
qed

text \<open>
  C11: \<^verbatim>\<open>make_packing_batch\<close> oversteps its bound by one: the loop tests \<^verbatim>\<open>last_valid_nonce\<close> only after an
  insertion. Whenever \<^verbatim>\<open>recalculate_readiness_with_local_info\<close> finds the first transaction to be the
  last valid one, the next nonce is in the pool and the batch has room for it, that transaction is
  packed as well, although it is packed already or the balance does not pay for it.
\<close>

theorem make_packing_batch_oversteps:
  assumes "nmap_ok m" "recalculate_readiness m n bal = Some (Some (first, ti_nonce first))"
    and "pool_of m (ti_nonce first + 1) = Some nxt" "one_sender m (st_sender_with_space (ti_transaction first))"
    and "0 < address_tx_count cfg" "address_gas_limit cfg < u256_max"
    and "takes stx cfg (batch_new stx (ti_transaction first)) (ti_transaction nxt)"
  shows "\<exists>b. make_packing_batch m first cfg (ti_nonce first) = Some b \<and>
    txs b = [ti_transaction first, ti_transaction nxt] \<and>
    (ti_packed nxt \<or> bal < pool_sum ti_tx_cost m {n..ti_nonce first + 1})"
proof -
  let ?s = "ti_nonce first"
  let ?rest = "bal - pool_sum ti_tx_cost m {n..?s}"
  have first: "ready_first m n bal first" and lst: "?s = continous_ready_nonce m ?s (nmap_weight m ?s) ?rest"
    using assms(2) by (auto simp: recalculate_readiness_cases [OF assms(1)] split: option.splits if_splits)
  then have s: "pool_of m ?s = Some first" "n \<le> ?s" "pool_sum ti_tx_cost m {n..?s} \<le> bal"
    by (simp_all add: ready_first_def)
  have "\<not> ready_until m ?s ?rest (?s + 1)"
    using continous_ready_nonce_max(3) [OF assms(1) _ lst, of "?s + 1"] s(1) by auto
  moreover have one: "{?s<..?s + 1} = {?s + 1}" by auto
  moreover have "{n..?s + 1} = insert (?s + 1) {n..?s}"
    using s(2) by auto
  then have "pool_sum ti_tx_cost m {n..?s + 1} = ti_tx_cost nxt + pool_sum ti_tx_cost m {n..?s}"
    using assms(3) by (simp add: pool_sum_def)
  moreover have "pool_sum ti_tx_cost m {?s + 1} = ti_tx_cost nxt"
    using assms(3) by (simp add: pool_sum_def)
  ultimately have unready: "ti_packed nxt \<or> bal < pool_sum ti_tx_cost m {n..?s + 1}"
    using assms(3) s(3) unfolding ready_until_def one by fastforce
  obtain b k where b: "make_packing_batch m first cfg ?s = Some b" "batch_ok stx b" "0 < k"
    and txs: "txs b = map (\<lambda>i. ti_transaction (the (pool_of m (?s + i)))) [0..<k]"
    and bound: "?s + k \<le> Suc (max ?s (Suc ?s))"
    and stop: "pool_of m (?s + k) = None \<or> 1 < k \<and> ?s < ?s + k \<or>
      \<not> takes stx cfg b (ti_transaction (the (pool_of m (?s + k))))"
    using make_packing_batch_spec [OF assms(1) s(1) assms(4-6), of ?s] by blast
  have "k \<noteq> 1"
  proof
    assume k: "k = 1"
    then have "b = batch_new stx (ti_transaction first)"
      using txs b(2) s(1) by (cases b) (simp add: batch_ok_def batch_new_def)
    with stop k assms(3,7) show False by simp
  qed
  then have "k = 2" using b(3) bound by simp
  then have "txs b = [ti_transaction first, ti_transaction nxt]"
    using txs s(1) assms(3) by (simp add: upt_rec)
  with b(1) unready show ?thesis by blast
qed

theorem make_packing_batch_oversteps_witness:
  "\<exists>b. make_packing_batch demo_pool (demo_info 5 10) demo_cfg 5 = Some b \<and>
     txs b = [demo_signed 5 10, demo_signed 6 12] \<and> 50 < pool_sum ti_tx_cost demo_pool {5..6}"
proof -
  have first: "ready_first demo_pool 5 50 (demo_info 5 10)"
    by (simp add: ready_first_def demo_pool_ok(2) demo_pool_sum)
  have "{5<..6::nat} = {6}" by auto
  then have six: "\<not> ready_until demo_pool 5 16 6"
    by (simp add: ready_until_def pool_sum_def demo_pool_ok(2))
  obtain e where e: "e = continous_ready_nonce demo_pool 5 (nmap_weight demo_pool 5) 16" by simp
  note mx = continous_ready_nonce_max [OF demo_pool_ok(1) _ e]
  have "e = 5" using mx(1,2) ready_until_mono [of demo_pool 5 16 e 6] six
    by (fastforce simp: demo_pool_ok(2))
  then have "recalculate_readiness demo_pool 5 50 = Some (Some (demo_info 5 10, ti_nonce (demo_info 5 10)))"
    using first e by (simp add: recalculate_readiness_cases [OF demo_pool_ok(1)] ready_first_query [OF demo_pool_ok(1)] demo_pool_sum)
  from make_packing_batch_oversteps [OF demo_pool_ok(1) this, of "demo_info 6 12" demo_cfg]
  show ?thesis
    using demo_pool_sender by (simp add: demo_pool_ok(2) takes_def batch_new_def)
qed

definition demo_batch :: "signed_transaction batch" where
  "demo_batch = \<lparr>txs = [demo_signed 5 10, demo_signed 6 12], total_gas_limit = 6\<rparr>"

lemma demo_batch_ok: "batch_ok stx demo_batch" "batch_fits demo_cfg demo_batch"
  by (simp_all add: demo_batch_def batch_ok_def linked_def batch_fits_def)

text \<open>
  C12: \<^verbatim>\<open>PackingBatch::insert\<close>, for any transaction of the batch's sender and on every branch (new head,
  prepend, append, replace, truncate, reject): the batch stays well formed and within the limits,
  no transaction is lost or invented between the batch and the returned list, an accepted
  transaction is in the batch; and it does not panic while gas totals and nonces fit 256 bits.
\<close>

theorem batch_insert_keeps_batch:
  assumes "batch_ok T b" "batch_fits cfg b" "0 < address_tx_count cfg" "sender_of T tx = sender_of T (hd (txs b))"
    "gas_of T tx + gas_sum T (txs b) < 2 ^ 256" "nonce_of T (hd (txs b)) + length (txs b) < 2 ^ 256"
  shows "\<exists>b' old res. batch_insert T cfg b tx = Some (b', old, res) \<and> batch_ok T b' \<and> batch_fits cfg b' \<and>
    mset (txs b') + mset old = mset (txs b) + (if res = Inr () then {#tx#} else {#}) \<and>
    (res = Inr () \<longrightarrow> tx \<in> set (txs b'))"
proof -
  obtain b' old res where ins: "batch_insert T cfg b tx = Some (b', old, res)"
    using batch_insert_total [OF assms(1,4,5,6)] by (metis prod_cases3)
  from batch_insert_promise [OF assms(1,3) ins] assms(2) ins show ?thesis
    by (simp add: insert_promise_def)
qed

theorem batch_insert_keeps_batch_witness:
  "\<exists>b' old res. batch_insert stx demo_cfg demo_batch (demo_signed 7 20) = Some (b', old, res) \<and> batch_ok stx b' \<and>
     batch_fits demo_cfg b' \<and> mset (txs b') + mset old = mset (txs demo_batch) + (if res = Inr () then {#demo_signed 7 20#} else {#})"
  using batch_insert_keeps_batch [OF demo_batch_ok, of "demo_signed 7 20"]
  by (fastforce simp: demo_batch_def)

text \<open>
  C13: \<^verbatim>\<open>split_off_by_nonce\<close> partitions a batch at a nonce: it keeps the transactions below the nonce (or
  the others) with their exact gas total and returns the rest, and asks for deletion of the entry
  exactly when nothing would be kept.
\<close>

theorem split_off_by_nonce_partitions:
  assumes "batch_ok T b" "gas_sum T (txs b) < 2 ^ 256" "nonce_of T (hd (txs b)) + length (txs b) < 2 ^ 256"
  shows "split_off_by_nonce T b n kp =
    (let kept = filter (\<lambda>t. (nonce_of T t < n) = kp) (txs b)
     in if kept = [] then Some (b, Inl ShouldDelete)
        else Some (\<lparr>txs = kept, total_gas_limit = gas_sum T kept\<rparr>, Inr (filter (\<lambda>t. (nonce_of T t < n) \<noteq> kp) (txs b))))"
  using split_off_by_nonce_filter [OF assms] by (simp add: Let_def)

theorem split_off_by_nonce_partitions_witness:
  "split_off_by_nonce stx demo_batch 6 True = Some (\<lparr>txs = [demo_signed 5 10], total_gas_limit = 3\<rparr>, Inr [demo_signed 6 12])"
  using split_off_by_nonce_partitions [OF demo_batch_ok(1), of 6 True]
  by (simp add: demo_batch_def Let_def)

section \<open>Costs and prices\<close>

text \<open>
  C14: the cost of a transaction is computed without overflow for every transaction and sponsorship
  within its gas and storage limits, is the capped value plus the capped gas fee plus the storage
  collateral, and stays below 2 to the 193, so that the cost totals of a nonce pool of fewer than
  2 to the 32 transactions fit 256 bits.
\<close>

theorem tx_cost_bounds:
  assumes "sponsor_ok t g s"
  shows "\<exists>c. make_tx_cost t g s = Some c \<and>
    c = min (st_value t) (u64_max * u128_max) + min ((st_gas t - g) * st_gas_price t) u128_max + storage_cost t s \<and>
    c < 2 ^ 193 \<and>
    (\<forall>m n. nmap_ok m \<and> card (dom (pool_of m)) < 2 ^ 32 \<and> (\<forall>t\<in>ran (pool_of m). ti_tx_cost t < 2 ^ 193) \<longrightarrow>
       cost (nmap_weight m n) < 2 ^ 256)"
  using make_tx_cost_eq [OF assms] pool_weight_fits(1) unfolding tx_cost_bound_def by blast

theorem tx_cost_bounds_witness:
  "sponsor_ok (demo_signed 5 10) 1 0 \<and> make_tx_cost (demo_signed 5 10) 1 0 = Some 24"
proof -
  have "sponsor_ok (demo_signed 5 10) 1 0" by (simp add: sponsor_ok_def demo_signed_def st_gas_def)
  moreover have "st_value (demo_signed 5 10) = 4" "st_gas (demo_signed 5 10) = 3" "storage_cost (demo_signed 5 10) 0 = 0"
    by (simp_all add: demo_signed_def st_gas_def st_value_def storage_cost_def)
  ultimately show ?thesis using tx_cost_bounds [of "demo_signed 5 10" 1 0] by auto
qed

text \<open>
  C15: the effective gas price is the base price plus the priority fee, capped by the gas price; it
  lies between the base price and the gas price, is monotone in the base price, and is undefined
  (the code panics) exactly when the base price is above the gas price.
\<close>

theorem effective_gas_price_clamped:
  assumes "tx_gas_price t < 2 ^ 256"
  shows "effective_gas_price t base =
      (if base \<le> tx_gas_price t then Some (min (base + tx_max_priority_gas_price t) (tx_gas_price t)) else None) \<and>
    (\<forall>p. effective_gas_price t base = Some p \<longrightarrow> base \<le> p \<and> p \<le> tx_gas_price t) \<and>
    (\<forall>base' p p'. base \<le> base' \<and> effective_gas_price t base = Some p \<and> effective_gas_price t base' = Some p' \<longrightarrow> p \<le> p')"
  by (auto simp: effective_gas_price_bounds [OF assms] split: if_splits)

theorem effective_gas_price_clamped_witness:
  "effective_gas_price (Ethereum (Eip1559
     \<lparr>e15_chain_id = 1, e15_nonce = 0, e15_max_priority_fee_per_gas = 3, e15_max_fee_per_gas = 20, e15_gas = 1,
      e15_action = Create, e15_value = 0, e15_data = [], e15_access_list = []\<rparr>)) 10 = Some 13"
  using effective_gas_price_clamped [of "Ethereum (Eip1559
     \<lparr>e15_chain_id = 1, e15_nonce = 0, e15_max_priority_fee_per_gas = 3, e15_max_fee_per_gas = 20, e15_gas = 1,
      e15_action = Create, e15_value = 0, e15_data = [], e15_access_list = []\<rparr>)" 10]
  by simp

end
