(* ===== verification/Heap_Map.thy ===== *)
theory Heap_Map
  imports Mazze_Prelude "HOL-Library.Multiset"
begin

text \<open>
  \<^verbatim>\<open>crates/util/heap-map/src/lib.rs\<close>: a binary max-heap in an array together with a hash map from keys
  to array positions. The loops move a hole instead of swapping; the proofs see the array with the
  pending node written into the hole. Nodes compare by value only.
\<close>

section \<open>Definitions\<close>

record ('k, 'v) heap_map =
  hdata :: "('k \<times> 'v) list"
  mapping :: "'k \<rightharpoonup> nat"

definition heap_new :: "('k, 'v) heap_map" where
  "heap_new = \<lparr>hdata = [], mapping = Map.empty\<rparr>"

function sift_up_loop ::
  "'k \<times> 'v::linorder \<Rightarrow> ('k \<times> 'v) list \<Rightarrow> ('k \<rightharpoonup> nat) \<Rightarrow> nat \<Rightarrow> ('k \<times> 'v) list \<times> ('k \<rightharpoonup> nat) \<times> nat" where
  "sift_up_loop val d m pos =
     (if pos = 0 then (d, m, pos)
      else
        let parent = (pos - 1) div 2
        in if snd (d ! parent) \<ge> snd val then (d, m, pos)
           else sift_up_loop val (d[pos := d ! parent]) (m(fst (d ! parent) \<mapsto> pos)) parent)"
  by pat_completeness auto
termination by (relation "measure (\<lambda>(val, d, m, pos). pos)") auto

definition sift_up :: "nat \<Rightarrow> ('k, 'v::linorder) heap_map \<Rightarrow> ('k, 'v) heap_map" where
  "sift_up index h =
     (let val = hdata h ! index; (d, m, pos) = sift_up_loop val (hdata h) (mapping h) index
      in \<lparr>hdata = d[pos := val], mapping = m(fst val \<mapsto> pos)\<rparr>)"

definition larger_child :: "('k \<times> 'v::linorder) list \<Rightarrow> nat \<Rightarrow> nat" where
  "larger_child d child =
     (if child + 1 < length d \<and> snd (d ! (child + 1)) > snd (d ! child) then child + 1 else child)"

function sift_down_loop ::
  "'k \<times> 'v::linorder \<Rightarrow> ('k \<times> 'v) list \<Rightarrow> ('k \<rightharpoonup> nat) \<Rightarrow> nat \<Rightarrow> ('k \<times> 'v) list \<times> ('k \<rightharpoonup> nat) \<times> nat" where
  "sift_down_loop val d m pos =
     (if pos * 2 + 1 < length d
      then
        let child = larger_child d (pos * 2 + 1)
        in if snd val \<ge> snd (d ! child) then (d, m, pos)
           else sift_down_loop val (d[pos := d ! child]) (m(fst (d ! child) \<mapsto> pos)) child
      else (d, m, pos))"
  by pat_completeness auto
termination by (relation "measure (\<lambda>(val, d, m, pos). length d - pos)") (auto simp: larger_child_def)

definition sift_down :: "nat \<Rightarrow> ('k, 'v::linorder) heap_map \<Rightarrow> ('k, 'v) heap_map" where
  "sift_down index h =
     (let val = hdata h ! index; (d, m, pos) = sift_down_loop val (hdata h) (mapping h) index
      in \<lparr>hdata = d[pos := val], mapping = m(fst val \<mapsto> pos)\<rparr>)"

declare sift_up_loop.simps [simp del] sift_down_loop.simps [simp del]

text \<open>Indexing out of range panics; the results below are \<open>None\<close> then.\<close>

definition swap_remove :: "'a list \<Rightarrow> nat \<Rightarrow> ('a list \<times> 'a) option" where
  "swap_remove xs i = (if i < length xs then Some (butlast (xs[i := last xs]), xs ! i) else None)"

definition resift :: "nat \<Rightarrow> 'v::linorder \<Rightarrow> ('k, 'v) heap_map \<Rightarrow> ('k, 'v) heap_map" where
  "resift index origin h =
     (if snd (hdata h ! index) < origin then sift_down index h
      else if snd (hdata h ! index) > origin then sift_up index h
      else h)"

definition heap_update :: "('k, 'v::linorder) heap_map \<Rightarrow> 'k \<Rightarrow> 'v \<Rightarrow> (('k, 'v) heap_map \<times> 'v) option" where
  "heap_update h key v =
     do {
       index \<leftarrow> mapping h key;
       assert_that (index < length (hdata h));
       let origin = snd (hdata h ! index);
       Some (resift index origin (h\<lparr>hdata := (hdata h)[index := (key, v)]\<rparr>), origin)
     }"

definition heap_append :: "('k, 'v::linorder) heap_map \<Rightarrow> 'k \<Rightarrow> 'v \<Rightarrow> ('k, 'v) heap_map" where
  "heap_append h key v = sift_up (length (hdata h)) (h\<lparr>hdata := hdata h @ [(key, v)]\<rparr>)"

definition heap_insert :: "('k, 'v::linorder) heap_map \<Rightarrow> 'k \<Rightarrow> 'v \<Rightarrow> (('k, 'v) heap_map \<times> 'v option) option" where
  "heap_insert h key v =
     (if mapping h key \<noteq> None then do {(h', old_value) \<leftarrow> heap_update h key v; Some (h', Some old_value)}
      else Some (heap_append h key v, None))"

definition heap_remove :: "('k, 'v::linorder) heap_map \<Rightarrow> 'k \<Rightarrow> (('k, 'v) heap_map \<times> 'v option) option" where
  "heap_remove h key =
     (case mapping h key of
        None \<Rightarrow> Some (h, None)
      | Some index \<Rightarrow>
          do {
            (d, removed) \<leftarrow> swap_remove (hdata h) index;
            let h' = \<lparr>hdata = d, mapping = (mapping h)(key := None)\<rparr>;
            Some (if index \<noteq> length d
                  then if snd (d ! index) < snd removed then sift_down index h'
                       else if snd (d ! index) > snd removed then sift_up index h'
                       else h'\<lparr>mapping := (mapping h')(fst (d ! index) \<mapsto> index)\<rparr>
                  else h', Some (snd removed))
          })"

definition heap_update_with :: "('k, 'v::linorder) heap_map \<Rightarrow> 'k \<Rightarrow> ('v \<Rightarrow> 'v) \<Rightarrow> ('k, 'v) heap_map option" where
  "heap_update_with h key f =
     (case mapping h key of
        None \<Rightarrow> Some h
      | Some index \<Rightarrow>
          do {
            assert_that (index < length (hdata h));
            let (k, v) = hdata h ! index;
            Some (resift index v (h\<lparr>hdata := (hdata h)[index := (k, f v)]\<rparr>))
          })"

definition heap_top :: "('k, 'v) heap_map \<Rightarrow> ('k \<times> 'v) option" where
  "heap_top h = (case hdata h of [] \<Rightarrow> None | x # _ \<Rightarrow> Some x)"

definition heap_pop :: "('k, 'v::linorder) heap_map \<Rightarrow> ('k, 'v) heap_map \<times> ('k \<times> 'v) option" where
  "heap_pop h =
     (case swap_remove (hdata h) 0 of
        None \<Rightarrow> (h, None)
      | Some (d, item) \<Rightarrow>
          let h' = \<lparr>hdata = d, mapping = mapping h\<rparr>;
              h'' = (if d \<noteq> [] then sift_down 0 h' else h')
          in (h''\<lparr>mapping := (mapping h'')(fst item := None)\<rparr>, Some item))"

definition heap_get :: "('k, 'v) heap_map \<Rightarrow> 'k \<Rightarrow> 'v option" where
  "heap_get h key =
     do {index \<leftarrow> mapping h key; if index < length (hdata h) then Some (snd (hdata h ! index)) else None}"

definition heap_clear :: "('k, 'v) heap_map \<Rightarrow> ('k, 'v) heap_map" where
  "heap_clear h = \<lparr>hdata = [], mapping = Map.empty\<rparr>"

definition heap_is_empty :: "('k, 'v) heap_map \<Rightarrow> bool" where
  "heap_is_empty h = (hdata h = [])"

definition heap_len :: "('k, 'v) heap_map \<Rightarrow> nat" where
  "heap_len h = length (hdata h)"

definition heap_iter :: "('k, 'v) heap_map \<Rightarrow> 'v list" where
  "heap_iter h = map snd (hdata h)"

section \<open>The invariant\<close>

definition par :: "nat \<Rightarrow> nat" where "par i = (i - 1) div 2"

abbreviation val_at :: "('k \<times> 'v) list \<Rightarrow> nat \<Rightarrow> 'v" where "val_at d i \<equiv> snd (d ! i)"

definition heap_order :: "('k \<times> 'v::linorder) list \<Rightarrow> bool" where
  "heap_order d \<longleftrightarrow> (\<forall>i. 0 < i \<and> i < length d \<longrightarrow> val_at d i \<le> val_at d (par i))"

definition maps :: "('k \<times> 'v) list \<Rightarrow> ('k \<rightharpoonup> nat) \<Rightarrow> bool" where
  "maps d m \<longleftrightarrow> (\<forall>k i. m k = Some i \<longleftrightarrow> i < length d \<and> fst (d ! i) = k)"

definition heap_ok :: "('k, 'v::linorder) heap_map \<Rightarrow> bool" where
  "heap_ok h \<longleftrightarrow> heap_order (hdata h) \<and> maps (hdata h) (mapping h)"

text \<open>Order everywhere except between \<open>p\<close> and its parent, or its children.\<close>

definition order_above :: "('k \<times> 'v::linorder) list \<Rightarrow> nat \<Rightarrow> bool" where
  "order_above d p \<longleftrightarrow>
     (\<forall>i. 0 < i \<and> i < length d \<and> i \<noteq> p \<longrightarrow> val_at d i \<le> val_at d (par i)) \<and>
     (\<forall>c. 0 < c \<and> c < length d \<and> par c = p \<and> 0 < p \<longrightarrow> val_at d c \<le> val_at d (par p))"

definition order_below :: "('k \<times> 'v::linorder) list \<Rightarrow> nat \<Rightarrow> bool" where
  "order_below d p \<longleftrightarrow>
     (\<forall>i. 0 < i \<and> i < length d \<and> par i \<noteq> p \<longrightarrow> val_at d i \<le> val_at d (par i)) \<and>
     (\<forall>c. 0 < c \<and> c < length d \<and> par c = p \<and> 0 < p \<longrightarrow> val_at d c \<le> val_at d (par p))"

definition swapped :: "'a list \<Rightarrow> nat \<Rightarrow> nat \<Rightarrow> 'a list" where
  "swapped d i j = d[i := d ! j, j := d ! i]"

lemma swapped_nth:
  "i < length d \<Longrightarrow> j < length d \<Longrightarrow> swapped d i j ! n = (if n = j then d ! i else if n = i then d ! j else d ! n)"
  by (auto simp: swapped_def nth_list_update)

lemma length_swapped [simp]: "length (swapped d i j) = length d"
  by (simp add: swapped_def)

lemma mset_swapped: "i < length d \<Longrightarrow> j < length d \<Longrightarrow> mset (swapped d i j) = mset d"
  unfolding swapped_def by (rule mset_swap)

lemma maps_swapped:
  assumes "maps d m" "i < length d" "j < length d" "i \<noteq> j"
  shows "maps (swapped d i j) (m(fst (d ! j) \<mapsto> i, fst (d ! i) \<mapsto> j))"
proof -
  have at: "m (fst (d ! n)) = Some n" if "n < length d" for n using assms(1) that by (simp add: maps_def)
  have "fst (d ! i) \<noteq> fst (d ! j)" using at assms(2-4) by (metis option.inject)
  then show ?thesis
    using assms at unfolding maps_def
    by (auto simp: swapped_nth split: if_splits) (metis option.inject)+
qed

lemma par_less: "0 < i \<Longrightarrow> par i < i" by (auto simp: par_def)

lemma par_children: "0 < c \<Longrightarrow> par c = p \<longleftrightarrow> c = p * 2 + 1 \<or> c = p * 2 + 2"
  by (auto simp: par_def)

lemma order_above_step:
  assumes "order_above d p" "0 < p" "p < length d" "val_at d (par p) < val_at d p"
  shows "order_above (swapped d p (par p)) (par p)"
proof -
  have lt: "par p < length d" "par p < p" using par_less [OF assms(2)] assms(3) by auto
  note nth = swapped_nth [OF assms(3) lt(1)]
  have ord: "val_at d i \<le> val_at d (par i)" if "0 < i" "i < length d" "i \<noteq> p" for i
    using assms(1) that by (auto simp: order_above_def)
  have grand: "val_at d c \<le> val_at d (par p)" if "0 < c" "c < length d" "par c = p" for c
    using assms(1,2) that by (auto simp: order_above_def)
  have "val_at (swapped d p (par p)) i \<le> val_at (swapped d p (par p)) (par i)"
    if i: "0 < i" "i < length d" "i \<noteq> par p" for i
  proof -
    consider "i = p" | "i \<noteq> p" "par i = p" | "i \<noteq> p" "par i = par p" | "i \<noteq> p" "par i \<noteq> p" "par i \<noteq> par p" by blast
    then show ?thesis
    proof cases
      case 1
      then show ?thesis using assms(4) lt by (simp add: nth)
    next
      case 2
      then show ?thesis using grand [OF i(1,2)] i lt by (simp add: nth)
    next
      case 3
      then show ?thesis using ord [OF i(1,2)] assms(4) i lt by (simp add: nth)
    next
      case 4
      then show ?thesis using ord [OF i(1,2)] i by (simp add: nth)
    qed
  qed
  moreover have "val_at (swapped d p (par p)) c \<le> val_at (swapped d p (par p)) (par (par p))"
    if c: "0 < c" "c < length d" "par c = par p" "0 < par p" for c
  proof -
    have up: "par (par p) < par p" "val_at d (par p) \<le> val_at d (par (par p))"
      using ord [of "par p"] lt c(4) par_less [OF c(4)] by auto
    have "val_at d c \<le> val_at d (par p)" if "c \<noteq> p" using ord [OF c(1,2) that] c(3) by simp
    moreover have "c \<noteq> par p" using c(1,3) par_less [OF c(1)] by auto
    ultimately show ?thesis using up lt c(3) by (cases "c = p") (auto simp: nth intro: order_trans)
  qed
  ultimately show ?thesis by (simp add: order_above_def)
qed

lemma order_below_step:
  assumes "order_below d p" "p < length d" "0 < c" "c < length d" "par c = p" "val_at d p < val_at d c"
    and largest: "\<And>c'. 0 < c' \<Longrightarrow> c' < length d \<Longrightarrow> par c' = p \<Longrightarrow> val_at d c' \<le> val_at d c"
  shows "order_below (swapped d p c) c"
proof -
  have lt: "p < c" using par_less [OF assms(3)] assms(5) by simp
  note nth = swapped_nth [OF assms(2,4)]
  have ord: "val_at d i \<le> val_at d (par i)" if "0 < i" "i < length d" "par i \<noteq> p" for i
    using assms(1) that by (auto simp: order_below_def)
  have grand: "val_at d c \<le> val_at d (par p)" if "0 < p"
    using assms(1,3-5) that by (auto simp: order_below_def)
  have "val_at (swapped d p c) i \<le> val_at (swapped d p c) (par i)"
    if i: "0 < i" "i < length d" "par i \<noteq> c" for i
  proof -
    consider "i = c" | "i \<noteq> c" "par i = p" | "i = p" "i \<noteq> c" | "i \<noteq> p" "i \<noteq> c" "par i \<noteq> p" by blast
    then show ?thesis
    proof cases
      case 1
      then show ?thesis using assms(5,6) lt by (simp add: nth)
    next
      case 2
      then have "i \<noteq> p" using par_less [OF i(1)] by auto
      with 2 show ?thesis using largest [OF i(1,2)] lt by (simp add: nth)
    next
      case 3
      then have "par p \<noteq> p" "0 < p" using par_less [OF i(1)] i(1) by auto
      with 3 show ?thesis using grand i lt by (simp add: nth)
    next
      case 4
      then show ?thesis using ord [OF i(1,2)] i by (simp add: nth)
    qed
  qed
  moreover have "val_at (swapped d p c) c' \<le> val_at (swapped d p c) (par c)"
    if c': "0 < c'" "c' < length d" "par c' = c" for c'
  proof -
    have "c' \<noteq> c" "c' \<noteq> p" using par_less [OF c'(1)] c'(3) lt by auto
    then show ?thesis using ord [OF c'(1,2)] c'(3) assms(5) lt by (simp add: nth)
  qed
  ultimately show ?thesis by (simp add: order_below_def)
qed

section \<open>Sifting restores the invariant\<close>

text \<open>The state of a loop as the array it stands for.\<close>

definition sifted :: "('k \<times> 'v::linorder) list \<Rightarrow> ('k, 'v) heap_map \<Rightarrow> bool" where
  "sifted d h \<longleftrightarrow> heap_ok h \<and> mset (hdata h) = mset d"

lemma hole_step:
  assumes "pos < length d" "q < length d" "q \<noteq> pos" "maps (d[pos := val]) (m(fst val \<mapsto> pos))"
  shows "d[pos := d ! q, q := val] = swapped (d[pos := val]) pos q"
    "maps (swapped (d[pos := val]) pos q) (m(fst (d ! q) \<mapsto> pos, fst val \<mapsto> q))"
proof -
  show "d[pos := d ! q, q := val] = swapped (d[pos := val]) pos q"
    using assms(1-3) by (simp add: swapped_def)
  have "fst (d ! q) \<noteq> fst val"
  proof
    assume "fst (d ! q) = fst val"
    moreover have "(m(fst val \<mapsto> pos)) (fst (d[pos := val] ! q)) = Some q"
      using assms(2,4) by (simp add: maps_def)
    ultimately show False using assms(3) by simp
  qed
  then show "maps (swapped (d[pos := val]) pos q) (m(fst (d ! q) \<mapsto> pos, fst val \<mapsto> q))"
    using maps_swapped [OF assms(4), of pos q] assms(1-3) by (simp add: fun_upd_twist)
qed

lemma sift_up_loop_sifted:
  assumes "pos < length d" "order_above (d[pos := val]) pos" "maps (d[pos := val]) (m(fst val \<mapsto> pos))"
    "sift_up_loop val d m pos = (d', m', pos')"
  shows "sifted (d[pos := val]) \<lparr>hdata = d'[pos' := val], mapping = m'(fst val \<mapsto> pos')\<rparr>"
  using assms
proof (induction val d m pos rule: sift_up_loop.induct)
  case (1 val d m pos)
  show ?case
  proof (cases "pos = 0 \<or> snd (d ! par pos) \<ge> snd val")
    case True
    then have "d' = d" "m' = m" "pos' = pos"
      using 1(5) by (auto simp: sift_up_loop.simps [of val d m pos] Let_def par_def split: if_splits)
    moreover have "heap_order (d[pos := val])"
      unfolding heap_order_def
    proof (intro allI impI)
      fix i assume i: "0 < i \<and> i < length (d[pos := val])"
      show "val_at (d[pos := val]) i \<le> val_at (d[pos := val]) (par i)"
        using 1(2,3) True i par_less [of i] by (cases "i = pos") (auto simp: order_above_def)
    qed
    ultimately show ?thesis using 1(4) by (simp add: sifted_def heap_ok_def del: fun_upd_apply)
  next
    case False
    then have pos: "0 < pos" "snd (d ! par pos) < snd val" by auto
    let ?q = "par pos" and ?d = "d[pos := d ! par pos]"
    have q: "?q < length d" "?q \<noteq> pos" using par_less [OF pos(1)] 1(2) by auto
    note step = hole_step [OF 1(2) q 1(4)]
    have "order_above (swapped (d[pos := val]) pos ?q) ?q"
      by (rule order_above_step) (use 1(2,3) pos q in auto)
    moreover have "sift_up_loop val ?d (m(fst (d ! ?q) \<mapsto> pos)) ?q = (d', m', pos')"
      using 1(5) pos by (auto simp: sift_up_loop.simps [of val d m pos] Let_def par_def not_le split: if_splits)
    ultimately have "sifted (?d[?q := val]) \<lparr>hdata = d'[pos' := val], mapping = m'(fst val \<mapsto> pos')\<rparr>"
      using pos q step by (intro 1(1) [OF _ refl, folded par_def]) (simp_all add: not_le del: fun_upd_apply)
    then show ?thesis using q 1(2) by (simp add: sifted_def step(1) mset_swapped del: fun_upd_apply)
  qed
qed

lemma sift_up_sifted:
  assumes "i < length (hdata h)" "order_above (hdata h) i" "maps (hdata h) ((mapping h)(fst (hdata h ! i) \<mapsto> i))"
  shows "sifted (hdata h) (sift_up i h)"
proof -
  obtain d m pos where "sift_up_loop (hdata h ! i) (hdata h) (mapping h) i = (d, m, pos)" by (metis prod_cases3)
  with sift_up_loop_sifted [of i "hdata h" "hdata h ! i" "mapping h" d m pos] assms show ?thesis
    by (simp add: sift_up_def Let_def del: fun_upd_apply)
qed

lemma larger_child_spec:
  assumes "p * 2 + 1 < length d"
  defines "c \<equiv> larger_child d (p * 2 + 1)"
  shows "0 < c" "c < length d" "par c = p"
    "\<And>c'. 0 < c' \<Longrightarrow> c' < length d \<Longrightarrow> par c' = p \<Longrightarrow> val_at d c' \<le> val_at d c"
proof -
  show "0 < c" "c < length d" "par c = p" using assms by (auto simp: larger_child_def par_def)
  show "val_at d c' \<le> val_at d c" if "0 < c'" "c' < length d" "par c' = p" for c'
    using that by (auto simp: par_children c_def larger_child_def)
qed

lemma sift_down_loop_sifted:
  assumes "pos < length d" "order_below (d[pos := val]) pos" "maps (d[pos := val]) (m(fst val \<mapsto> pos))"
    "sift_down_loop val d m pos = (d', m', pos')"
  shows "sifted (d[pos := val]) \<lparr>hdata = d'[pos' := val], mapping = m'(fst val \<mapsto> pos')\<rparr>"
  using assms
proof (induction val d m pos rule: sift_down_loop.induct)
  case (1 val d m pos)
  let ?c = "larger_child d (pos * 2 + 1)"
  show ?case
  proof (cases "pos * 2 + 1 < length d \<and> snd val < snd (d ! ?c)")
    case False
    then have "d' = d" "m' = m" "pos' = pos"
      using 1(5) by (auto simp: sift_down_loop.simps [of val d m pos] Let_def split: if_splits)
    moreover have "heap_order (d[pos := val])"
      unfolding heap_order_def
    proof (intro allI impI)
      fix i assume i: "0 < i \<and> i < length (d[pos := val])"
      show "val_at (d[pos := val]) i \<le> val_at (d[pos := val]) (par i)"
      proof (cases "par i = pos")
        case True
        then have "pos * 2 + 1 < length d" "i \<noteq> pos" using i par_less [of i] by (auto simp: par_def)
        moreover have "val_at d i \<le> val_at d ?c" using larger_child_spec(4) calculation True i by auto
        ultimately show ?thesis using False True 1(2) by auto
      qed (use 1(3) i in \<open>auto simp: order_below_def\<close>)
    qed
    ultimately show ?thesis using 1(4) by (simp add: sifted_def heap_ok_def del: fun_upd_apply)
  next
    case True
    then have lt: "pos * 2 + 1 < length d" "snd val < snd (d ! ?c)" by auto
    note child = larger_child_spec [OF lt(1)]
    let ?d = "d[pos := d ! ?c]"
    have c: "?c \<noteq> pos" using par_less [OF child(1)] child(3) by auto
    note step = hole_step [OF 1(2) child(2) c 1(4)]
    have "order_below (swapped (d[pos := val]) pos ?c) ?c"
    proof (rule order_below_step)
      show "val_at (d[pos := val]) c' \<le> val_at (d[pos := val]) ?c"
        if "0 < c'" "c' < length (d[pos := val])" "par c' = pos" for c'
        using child(4) [of c'] that c par_less [OF that(1)] by auto
    qed (use 1(2,3) lt child c in auto)
    moreover have "sift_down_loop val ?d (m(fst (d ! ?c) \<mapsto> pos)) ?c = (d', m', pos')"
      using 1(5) lt by (auto simp: sift_down_loop.simps [of val d m pos] Let_def split: if_splits)
    ultimately have "sifted (?d[?c := val]) \<lparr>hdata = d'[pos' := val], mapping = m'(fst val \<mapsto> pos')\<rparr>"
      using lt child(2) step by (intro 1(1) [OF _ refl]) (simp_all add: not_le del: fun_upd_apply)
    then show ?thesis using child(2) 1(2) unfolding step(1) by (simp add: sifted_def mset_swapped del: fun_upd_apply)
  qed
qed

lemma sift_down_sifted:
  assumes "i < length (hdata h)" "order_below (hdata h) i" "maps (hdata h) ((mapping h)(fst (hdata h ! i) \<mapsto> i))"
  shows "sifted (hdata h) (sift_down i h)"
proof -
  obtain d m pos where "sift_down_loop (hdata h ! i) (hdata h) (mapping h) i = (d, m, pos)" by (metis prod_cases3)
  with sift_down_loop_sifted [of i "hdata h" "hdata h ! i" "mapping h" d m pos] assms show ?thesis
    by (simp add: sift_down_def Let_def del: fun_upd_apply)
qed

lemma sift_down_loop_unmap:
  assumes "k \<notin> fst ` set d" "sift_down_loop val d m pos = (d', m', pos')"
  shows "sift_down_loop val d (m(k := None)) pos = (d', m'(k := None), pos')"
  using assms
proof (induction val d m pos rule: sift_down_loop.induct)
  case (1 val d m pos)
  let ?c = "larger_child d (pos * 2 + 1)"
  show ?case
  proof (cases "pos * 2 + 1 < length d \<and> snd val < snd (d ! ?c)")
    case True
    have c: "?c < length d" using True by (auto simp: larger_child_def)
    then have k: "k \<noteq> fst (d ! ?c)" "k \<notin> fst ` set (d[pos := d ! ?c])"
      using 1(2) nth_mem [OF c] set_update_subset_insert [of d pos "d ! ?c"] by auto
    have "sift_down_loop val (d[pos := d ! ?c]) (m(fst (d ! ?c) \<mapsto> pos)) ?c = (d', m', pos')"
      using 1(3) True by (auto simp: sift_down_loop.simps [of val d m pos] Let_def split: if_splits)
    then have "sift_down_loop val (d[pos := d ! ?c]) ((m(fst (d ! ?c) \<mapsto> pos))(k := None)) ?c = (d', m'(k := None), pos')"
      using True k(2) by (intro 1(1) [OF _ refl]) (simp_all add: not_le del: fun_upd_apply)
    then show ?thesis using True k(1) by (auto simp: sift_down_loop.simps [of val d] Let_def fun_upd_twist simp del: fun_upd_apply)
  next
    case False
    then show ?thesis using 1(3) by (auto simp: sift_down_loop.simps [of val d] Let_def split: if_splits)
  qed
qed

lemma sift_down_unmap:
  assumes "k \<notin> fst ` set (hdata h)" "i < length (hdata h)"
  shows "(sift_down i h)\<lparr>mapping := (mapping (sift_down i h))(k := None)\<rparr> = sift_down i (h\<lparr>mapping := (mapping h)(k := None)\<rparr>)"
proof -
  obtain d m pos where loop: "sift_down_loop (hdata h ! i) (hdata h) (mapping h) i = (d, m, pos)" by (metis prod_cases3)
  have "k \<noteq> fst (hdata h ! i)" using assms nth_mem by fastforce
  with sift_down_loop_unmap [OF assms(1) loop] loop show ?thesis
    by (simp add: sift_down_def Let_def fun_upd_twist del: fun_upd_apply)
qed

section \<open>What the operations do to the bindings\<close>

definition bindings :: "('k, 'v) heap_map \<Rightarrow> 'k \<rightharpoonup> 'v" where
  "bindings h k = map_option (\<lambda>i. snd (hdata h ! i)) (mapping h k)"

lemma bindings_Some:
  assumes "maps (hdata h) (mapping h)"
  shows "bindings h k = Some v \<longleftrightarrow> (k, v) \<in> set (hdata h)"
proof
  assume "bindings h k = Some v"
  then obtain i where i: "mapping h k = Some i" "v = snd (hdata h ! i)" by (auto simp: bindings_def)
  then have lt: "i < length (hdata h)" "hdata h ! i = (k, v)" using assms by (auto simp: maps_def prod_eq_iff)
  show "(k, v) \<in> set (hdata h)" using nth_mem [OF lt(1)] lt(2) by simp
next
  assume "(k, v) \<in> set (hdata h)"
  then obtain i where "i < length (hdata h)" "hdata h ! i = (k, v)" by (auto simp: in_set_conv_nth)
  then show "bindings h k = Some v" using assms by (auto simp: bindings_def maps_def)
qed

lemma sifted_bindings: "sifted d h \<Longrightarrow> bindings h k = Some v \<longleftrightarrow> (k, v) \<in> set d"
  by (simp add: sifted_def heap_ok_def bindings_Some) (metis set_mset_mset)

lemma sifted_bindings_eq:
  assumes "sifted d h" "maps d m"
  shows "bindings h = bindings \<lparr>hdata = d, mapping = m\<rparr>"
proof
  fix k
  have "bindings h k = Some v \<longleftrightarrow> bindings \<lparr>hdata = d, mapping = m\<rparr> k = Some v" for v
    using assms(2) by (simp add: sifted_bindings [OF assms(1)] bindings_Some)
  then show "bindings h k = bindings \<lparr>hdata = d, mapping = m\<rparr> k" by (metis not_Some_eq)
qed

lemma maps_key:
  assumes "maps d m" "i < length d"
  shows "m (fst (d ! i)) = Some i"
  using assms by (simp add: maps_def)

lemma maps_replace:
  assumes "maps d m" "i < length d" "m (fst x) = None \<or> fst x = fst (d ! i)"
  shows "maps (d[i := x]) (m(fst (d ! i) := None, fst x \<mapsto> i))"
  using assms unfolding maps_def by (auto simp: nth_list_update split: if_splits) (metis option.inject option.distinct(1))+

lemma maps_butlast:
  assumes "maps d m" "d \<noteq> []"
  shows "maps (butlast d) (m(fst (last d) := None))"
proof -
  have last: "m (fst (last d)) = Some (length d - 1)"
    using maps_key [OF assms(1), of "length d - 1"] assms(2) by (simp add: last_conv_nth)
  have iff: "m k = Some i \<and> k \<noteq> fst (last d) \<longleftrightarrow> i < length d - 1 \<and> fst (d ! i) = k" for k i
  proof
    assume m: "m k = Some i \<and> k \<noteq> fst (last d)"
    then have "i < length d" "fst (d ! i) = k" using assms(1) by (auto simp: maps_def)
    moreover have "i \<noteq> length d - 1" using m calculation assms(2) by (auto simp: last_conv_nth)
    ultimately show "i < length d - 1 \<and> fst (d ! i) = k" by simp
  next
    assume i: "i < length d - 1 \<and> fst (d ! i) = k"
    then have "m k = Some i" using maps_key [OF assms(1), of i] by auto
    with i last show "m k = Some i \<and> k \<noteq> fst (last d)" by auto
  qed
  show ?thesis unfolding maps_def
  proof (intro allI)
    fix k i
    show "((m(fst (last d) := None)) k = Some i) = (i < length (butlast d) \<and> fst (butlast d ! i) = k)"
      using iff [of k i] by (cases "i < length d - 1") (auto simp: nth_butlast)
  qed
qed

lemma order_raise:
  assumes "heap_order d" "i < length d" "val_at d i \<le> snd x"
  shows "order_above (d[i := x]) i"
proof -
  have ord: "val_at d j \<le> val_at d (par j)" if "0 < j" "j < length d" for j
    using assms(1) that by (auto simp: heap_order_def)
  have "val_at (d[i := x]) j \<le> val_at (d[i := x]) (par j)" if "0 < j" "j < length d" "j \<noteq> i" for j
    using ord [OF that(1,2)] assms(2,3) that by (cases "par j = i") auto
  moreover have "val_at (d[i := x]) c \<le> val_at (d[i := x]) (par i)" if "0 < c" "c < length d" "par c = i" "0 < i" for c
    using ord [OF that(1,2)] ord [of i] that assms(2) par_less [OF that(1)] par_less [OF that(4)] by auto
  ultimately show ?thesis by (simp add: order_above_def)
qed

lemma order_lower:
  assumes "heap_order d" "i < length d" "snd x \<le> val_at d i"
  shows "order_below (d[i := x]) i"
proof -
  have ord: "val_at d j \<le> val_at d (par j)" if "0 < j" "j < length d" for j
    using assms(1) that by (auto simp: heap_order_def)
  have "val_at (d[i := x]) j \<le> val_at (d[i := x]) (par j)" if "0 < j" "j < length d" "par j \<noteq> i" for j
    using ord [OF that(1,2)] assms(2,3) that by (cases "j = i") auto
  moreover have "val_at (d[i := x]) c \<le> val_at (d[i := x]) (par i)" if "0 < c" "c < length d" "par c = i" "0 < i" for c
    using ord [OF that(1,2)] ord [of i] that assms(2) par_less [OF that(1)] par_less [OF that(4)] by auto
  ultimately show ?thesis by (simp add: order_below_def)
qed

lemma heap_order_butlast:
  assumes "heap_order d"
  shows "heap_order (butlast d)"
  unfolding heap_order_def
proof (intro allI impI)
  fix i assume i: "0 < i \<and> i < length (butlast d)"
  then have "par i < length (butlast d)" using par_less [of i] by simp
  moreover have "val_at d i \<le> val_at d (par i)" using assms i by (auto simp: heap_order_def)
  ultimately show "val_at (butlast d) i \<le> val_at (butlast d) (par i)" using i by (simp add: nth_butlast)
qed

lemma heap_order_top:
  assumes "heap_order d" "x \<in> set d"
  shows "snd x \<le> val_at d 0"
proof -
  have "i < length d \<Longrightarrow> val_at d i \<le> val_at d 0" for i
  proof (induction i rule: less_induct)
    case (less i)
    show ?case
    proof (cases "i = 0")
      case False
      then have "par i < i" using par_less by simp
      moreover from False less.prems have "val_at d i \<le> val_at d (par i)" using assms(1) by (auto simp: heap_order_def)
      ultimately show ?thesis using less.IH [of "par i"] less.prems by simp
    qed simp
  qed
  with assms(2) show ?thesis by (auto simp: in_set_conv_nth)
qed

lemma heap_ok_new: "heap_ok heap_new" "bindings heap_new = Map.empty"
  by (auto simp: heap_ok_def heap_new_def heap_order_def maps_def bindings_def)

lemma heap_get_bindings:
  assumes "heap_ok h"
  shows "heap_get h k = bindings h k"
proof (cases "mapping h k")
  case (Some i)
  then have "i < length (hdata h)" using assms by (auto simp: heap_ok_def maps_def)
  with Some show ?thesis by (simp add: heap_get_def bindings_def)
qed (simp add: heap_get_def bindings_def)

lemma heap_len_bindings:
  assumes "heap_ok h"
  shows "heap_len h = card (dom (bindings h))" "finite (dom (bindings h))"
proof -
  have mp: "maps (hdata h) (mapping h)" using assms by (simp add: heap_ok_def)
  have "dom (bindings h) = fst ` set (hdata h)" by (force simp: dom_def bindings_Some [OF mp])
  moreover have "distinct (map fst (hdata h))"
    using maps_key [OF mp] by (auto simp: distinct_conv_nth) (metis option.inject)
  then have "card (set (map fst (hdata h))) = length (hdata h)" by (metis distinct_card length_map)
  ultimately show "heap_len h = card (dom (bindings h))" "finite (dom (bindings h))"
    by (simp_all add: heap_len_def)
qed

text \<open>The common part of the two updates: the value at one position is replaced.\<close>

lemma resift_sifted:
  assumes "heap_ok h" "i < length (hdata h)" "fst x = fst (hdata h ! i)"
  shows "sifted ((hdata h)[i := x]) (resift i (snd (hdata h ! i)) (h\<lparr>hdata := (hdata h)[i := x]\<rparr>))"
proof -
  let ?d = "hdata h" and ?m = "mapping h"
  have ok: "heap_order ?d" "maps ?d ?m" using assms(1) by (auto simp: heap_ok_def)
  have "maps (?d[i := x]) (?m(fst (?d ! i) := None, fst x \<mapsto> i))"
    by (rule maps_replace [OF ok(2) assms(2)]) (use assms(3) in simp)
  moreover have same: "?m(fst (?d ! i) := None, fst x \<mapsto> i) = ?m" "?m(fst x \<mapsto> i) = ?m"
    using maps_key [OF ok(2) assms(2)] assms(3) by (auto simp: fun_eq_iff)
  ultimately have mp: "maps (?d[i := x]) ?m" by (simp only:)
  consider "snd x < snd (?d ! i)" | "snd x > snd (?d ! i)" | "x = ?d ! i"
    using assms(3) by (metis linorder_cases prod.expand)
  then show ?thesis
  proof cases
    case 1
    then have "order_below (?d[i := x]) i" by (intro order_lower ok assms(2)) simp
    with 1 mp same(2) assms(2) show ?thesis
      using sift_down_sifted [of i "h\<lparr>hdata := ?d[i := x]\<rparr>"] by (simp add: resift_def)
  next
    case 2
    then have "order_above (?d[i := x]) i" by (intro order_raise ok assms(2)) simp
    with 2 mp same(2) assms(2) show ?thesis
      using sift_up_sifted [of i "h\<lparr>hdata := ?d[i := x]\<rparr>"] by (auto simp: resift_def)
  next
    case 3
    then show ?thesis using assms(1,2) by (simp add: resift_def sifted_def heap_ok_def)
  qed
qed

lemma bindings_replaced:
  assumes "heap_ok h" "i < length (hdata h)" "hdata h ! i = (k, v)" "sifted ((hdata h)[i := (k, v')]) h'"
  shows "heap_ok h'" "bindings h' = (bindings h)(k \<mapsto> v')" "bindings h k = Some v"
proof -
  have mp: "maps (hdata h) (mapping h)" using assms(1) by (simp add: heap_ok_def)
  show "heap_ok h'" using assms(4) by (simp add: sifted_def)
  show "bindings h k = Some v" using assms(2,3) nth_mem [OF assms(2)] by (simp add: bindings_Some [OF mp])
  have at: "mapping h k = Some i" using maps_key [OF mp assms(2)] assms(3) by simp
  have other: "j = i" if "j < length (hdata h)" "fst (hdata h ! j) = k" for j
    using maps_key [OF mp that(1)] that(2) at by simp
  have "maps ((hdata h)[i := (k, v')]) ((mapping h)(k := None, k \<mapsto> i))"
    using maps_replace [OF mp assms(2), of "(k, v')"] assms(3) by simp
  moreover have "(mapping h)(k := None, k \<mapsto> i) = mapping h" using at by (auto simp: fun_eq_iff)
  ultimately have "maps ((hdata h)[i := (k, v')]) (mapping h)" by (simp only:)
  note eq = sifted_bindings_eq [OF assms(4) this]
  have "map_option (\<lambda>j. snd ((hdata h)[i := (k, v')] ! j)) (mapping h k') = ((bindings h)(k \<mapsto> v')) k'" for k'
  proof (cases "k' = k")
    case False
    have "j \<noteq> i" if "mapping h k' = Some j" for j using that False mp assms(3) unfolding maps_def by (metis fst_conv)
    then show ?thesis using False by (cases "mapping h k'") (auto simp: bindings_def)
  qed (use at assms(2) in simp)
  then show "bindings h' = (bindings h)(k \<mapsto> v')" by (simp add: eq bindings_def fun_eq_iff)
qed

lemma heap_update_spec:
  assumes "heap_ok h" "bindings h k = Some v"
  shows "\<exists>h'. heap_update h k v' = Some (h', v) \<and> heap_ok h' \<and> bindings h' = (bindings h)(k \<mapsto> v')"
proof -
  obtain i where i: "mapping h k = Some i" "snd (hdata h ! i) = v" using assms(2) by (auto simp: bindings_def)
  then have lt: "i < length (hdata h)" "hdata h ! i = (k, v)" using assms(1) by (auto simp: heap_ok_def maps_def prod_eq_iff)
  have "sifted ((hdata h)[i := (k, v')]) (resift i v (h\<lparr>hdata := (hdata h)[i := (k, v')]\<rparr>))"
    using resift_sifted [OF assms(1) lt(1), of "(k, v')"] lt(2) by simp
  note new = bindings_replaced [OF assms(1) lt this]
  then show ?thesis using i lt by (simp add: heap_update_def assert_that_def)
qed

lemma heap_update_with_spec:
  assumes "heap_ok h"
  shows "\<exists>h'. heap_update_with h k f = Some h' \<and> heap_ok h' \<and>
    bindings h' = (case bindings h k of None \<Rightarrow> bindings h | Some v \<Rightarrow> (bindings h)(k \<mapsto> f v))"
proof (cases "bindings h k")
  case None
  then show ?thesis using assms by (auto simp: heap_update_with_def bindings_def)
next
  case (Some v)
  then obtain i where i: "mapping h k = Some i" "snd (hdata h ! i) = v" by (auto simp: bindings_def)
  then have lt: "i < length (hdata h)" "hdata h ! i = (k, v)" using assms by (auto simp: heap_ok_def maps_def prod_eq_iff)
  have "sifted ((hdata h)[i := (k, f v)]) (resift i v (h\<lparr>hdata := (hdata h)[i := (k, f v)]\<rparr>))"
    using resift_sifted [OF assms lt(1), of "(k, f v)"] lt(2) by simp
  note new = bindings_replaced [OF assms lt this]
  then show ?thesis using i lt Some by (simp add: heap_update_with_def assert_that_def)
qed

lemma heap_append_spec:
  assumes "heap_ok h" "bindings h k = None"
  shows "heap_ok (heap_append h k v)" "bindings (heap_append h k v) = (bindings h)(k \<mapsto> v)"
proof -
  let ?d = "hdata h @ [(k, v)]" and ?n = "length (hdata h)"
  have ok: "heap_order (hdata h)" "maps (hdata h) (mapping h)" using assms(1) by (auto simp: heap_ok_def)
  have none: "mapping h k = None" using assms(2) by (simp add: bindings_def)
  have "order_above ?d ?n"
    unfolding order_above_def
  proof (intro conjI allI impI)
    fix i assume i: "0 < i \<and> i < length ?d \<and> i \<noteq> ?n"
    then have lt: "i < ?n" "par i < ?n" using par_less [of i] by auto
    moreover have "val_at (hdata h) i \<le> val_at (hdata h) (par i)" using ok(1) i lt by (auto simp: heap_order_def)
    ultimately show "val_at ?d i \<le> val_at ?d (par i)" by (simp add: nth_append)
  next
    fix c assume "0 < c \<and> c < length ?d \<and> par c = ?n \<and> 0 < ?n"
    then show "val_at ?d c \<le> val_at ?d (par ?n)" using par_less [of c] by auto
  qed
  moreover have "maps ?d ((mapping h)(k \<mapsto> ?n))"
    unfolding maps_def
  proof (intro allI)
    fix k' i
    have absent: "fst (hdata h ! i) \<noteq> k" if "i < ?n" using maps_key [OF ok(2) that] none by auto
    have "mapping h k' = Some i \<longleftrightarrow> i < ?n \<and> fst (hdata h ! i) = k'" using ok(2) by (simp add: maps_def)
    then show "((mapping h)(k \<mapsto> ?n)) k' = Some i \<longleftrightarrow> i < length ?d \<and> fst (?d ! i) = k'"
      using absent by (cases "k' = k"; cases "i < ?n") (auto simp: nth_append less_Suc_eq)
  qed
  ultimately have sift: "sifted ?d (heap_append h k v)"
    using sift_up_sifted [of ?n "h\<lparr>hdata := ?d\<rparr>"] by (simp add: heap_append_def)
  then show "heap_ok (heap_append h k v)" by (simp add: sifted_def)
  have "bindings (heap_append h k v) k' = Some w \<longleftrightarrow> ((bindings h)(k \<mapsto> v)) k' = Some w" for k' w
    using bindings_Some [OF ok(2), of k'] assms(2) by (auto simp: sifted_bindings [OF sift] simp flip: bindings_Some [OF ok(2)])
  then show "bindings (heap_append h k v) = (bindings h)(k \<mapsto> v)" by (intro ext) (metis not_Some_eq)
qed

lemma heap_insert_spec:
  assumes "heap_ok h"
  shows "\<exists>h'. heap_insert h k v = Some (h', bindings h k) \<and> heap_ok h' \<and> bindings h' = (bindings h)(k \<mapsto> v)"
proof (cases "bindings h k")
  case None
  then show ?thesis using heap_append_spec [OF assms None, of v] by (simp add: heap_insert_def bindings_def)
next
  case (Some w)
  then show ?thesis using heap_update_spec [OF assms Some, of v] by (auto simp: heap_insert_def bindings_def)
qed

text \<open>The array after \<^verbatim>\<open>swap_remove\<close>, its order around the moved node and its mapping.\<close>

lemma swap_remove_maps:
  assumes "maps d m" "i < length d" "swap_remove d i = Some (d', x)"
  shows "x = d ! i" "mset d' + {#x#} = mset d" "length d' = length d - 1" "fst x \<notin> fst ` set d'"
    "i \<noteq> length d' \<Longrightarrow> d' = (butlast d)[i := last d] \<and> i < length (butlast d)"
    "i = length d' \<Longrightarrow> d' = butlast d \<and> last d = d ! i"
    "maps d' (if i \<noteq> length d' then m(fst x := None, fst (d' ! i) \<mapsto> i) else m(fst x := None))"
proof -
  have d': "d' = butlast (d[i := last d])" and x: "x = d ! i" using assms(2,3) by (auto simp: swap_remove_def)
  have ne: "d \<noteq> []" using assms(2) by auto
  show "x = d ! i" by (rule x)
  show len: "length d' = length d - 1" by (simp add: d')
  have mid: "d' = (butlast d)[i := last d] \<and> i < length (butlast d)" if "i \<noteq> length d'"
    using that assms(2) by (auto simp: d' butlast_list_update)
  then show "i \<noteq> length d' \<Longrightarrow> d' = (butlast d)[i := last d] \<and> i < length (butlast d)" .
  have at_end: "d' = butlast d \<and> last d = d ! i" if "i = length d'"
  proof -
    have i: "i = length d - 1" using that len by simp
    then have "d[i := last d] = d" using ne by (simp add: last_conv_nth)
    with i ne show ?thesis by (simp add: d' last_conv_nth)
  qed
  then show "i = length d' \<Longrightarrow> d' = butlast d \<and> last d = d ! i" .
  show mset: "mset d' + {#x#} = mset d"
  proof (cases "i = length d'")
    case True
    then have "mset d = mset (butlast d @ [last d])" using ne by simp
    with at_end [OF True] show ?thesis by (simp only: x mset_append) simp
  next
    case False
    then have i: "i < length (butlast d)" "d' = (butlast d)[i := last d]" using mid by auto
    have "mset d = mset (butlast d @ [last d])" using ne by simp
    then have "mset d = add_mset (last d) (mset (butlast d))" by (simp only: mset_append) simp
    with i show ?thesis using nth_mem_mset [of i "butlast d"] by (simp add: mset_update x nth_butlast)
  qed
  show mp: "maps d' (if i \<noteq> length d' then m(fst x := None, fst (d' ! i) \<mapsto> i) else m(fst x := None))"
  proof (cases "i = length d'")
    case True
    then show ?thesis using maps_butlast [OF assms(1) ne] at_end by (simp add: x)
  next
    case False
    then have i: "i < length (butlast d)" "d' = (butlast d)[i := last d]" using mid by auto
    have "maps (butlast d) (m(fst (last d) := None))" by (rule maps_butlast [OF assms(1) ne])
    from maps_replace [OF this i(1), of "last d"]
    have "maps d' (m(fst (last d) := None, fst (d ! i) := None, fst (last d) \<mapsto> i))" using i by (simp add: nth_butlast)
    moreover have "m(fst (last d) := None, fst (d ! i) := None, fst (last d) \<mapsto> i) = m(fst (d ! i) := None, fst (last d) \<mapsto> i)"
      by (auto simp: fun_eq_iff)
    ultimately show ?thesis using False i by (simp only: x) simp
  qed
  show "fst x \<notin> fst ` set d'"
  proof
    assume "fst x \<in> fst ` set d'"
    then obtain j where j: "j < length d'" "fst (d' ! j) = fst x" by (auto simp: in_set_conv_nth)
    have "fst (d' ! i) \<noteq> fst x" if "i \<noteq> length d'"
    proof
      assume "fst (d' ! i) = fst x"
      then have "fst (last d) = fst (d ! i)" using mid [OF that] x by simp
      moreover have "m (fst (last d)) = Some (length d - 1)"
        using maps_key [OF assms(1), of "length d - 1"] ne by (simp add: last_conv_nth)
      ultimately have "length d - 1 = i" using maps_key [OF assms(1,2)] by (metis option.inject)
      with that len show False by simp
    qed
    with mp maps_key [OF mp j(1)] j show False by (auto split: if_splits)
  qed
qed

lemma order_both: "order_above d i \<Longrightarrow> order_below d i \<Longrightarrow> heap_order d"
  using par_less unfolding order_above_def order_below_def heap_order_def by (metis less_irrefl)

lemma moved_order:
  assumes "heap_order d" "i < length (butlast d)"
  shows "snd (last d) \<le> snd (d ! i) \<Longrightarrow> order_below ((butlast d)[i := last d]) i"
    "snd (d ! i) \<le> snd (last d) \<Longrightarrow> order_above ((butlast d)[i := last d]) i"
  using order_lower [OF heap_order_butlast [OF assms(1)] assms(2), of "last d"]
    order_raise [OF heap_order_butlast [OF assms(1)] assms(2), of "last d"] assms(2)
  by (simp_all add: nth_butlast)

lemma bindings_removed:
  assumes "heap_ok h" "sifted d' h'" "mset d' + {#x#} = mset (hdata h)" "fst x \<notin> fst ` set d'"
  shows "heap_ok h'" "bindings h' = (bindings h)(fst x := None)" "bindings h (fst x) = Some (snd x)"
proof -
  have mp: "maps (hdata h) (mapping h)" using assms(1) by (simp add: heap_ok_def)
  have sets: "set (hdata h) = insert x (set d')"
    using arg_cong [OF assms(3), of set_mset] by simp
  show "heap_ok h'" using assms(2) by (simp add: sifted_def)
  show "bindings h (fst x) = Some (snd x)" by (simp add: bindings_Some [OF mp] sets)
  have "bindings h' k = Some v \<longleftrightarrow> ((bindings h)(fst x := None)) k = Some v" for k v
  proof (cases "k = fst x")
    case True
    then have "(k, v) \<notin> set d'" using assms(4) by (metis fst_conv image_eqI)
    with True show ?thesis by (simp add: sifted_bindings [OF assms(2)])
  qed (auto simp: sifted_bindings [OF assms(2)] bindings_Some [OF mp] sets)
  then show "bindings h' = (bindings h)(fst x := None)" by (intro ext) (metis not_Some_eq)
qed

lemma heap_remove_spec:
  assumes "heap_ok h"
  shows "\<exists>h'. heap_remove h k = Some (h', bindings h k) \<and> heap_ok h' \<and> bindings h' = (bindings h)(k := None)"
proof (cases "mapping h k")
  case None
  then have "(bindings h)(k := None) = bindings h" by (auto simp: bindings_def fun_eq_iff)
  with None assms show ?thesis by (simp add: heap_remove_def bindings_def)
next
  case (Some i)
  have ok: "heap_order (hdata h)" "maps (hdata h) (mapping h)" using assms by (auto simp: heap_ok_def)
  then have i: "i < length (hdata h)" "fst (hdata h ! i) = k" using Some by (auto simp: maps_def)
  then obtain d x where sw: "swap_remove (hdata h) i = Some (d, x)" by (simp add: swap_remove_def)
  note rem = swap_remove_maps [OF ok(2) i(1) sw]
  have k: "fst x = k" using rem(1) i(2) by simp
  let ?h = "\<lparr>hdata = d, mapping = (mapping h)(k := None)\<rparr>"
  define h' where "h' = (if i \<noteq> length d
    then if snd (d ! i) < snd x then sift_down i ?h else if snd (d ! i) > snd x then sift_up i ?h
         else ?h\<lparr>mapping := (mapping ?h)(fst (d ! i) \<mapsto> i)\<rparr>
    else ?h)"
  have "sifted d h'"
  proof (cases "i = length d")
    case True
    then show ?thesis
      using rem(6,7) heap_order_butlast [OF ok(1)] k by (simp add: h'_def sifted_def heap_ok_def)
  next
    case False
    then have d: "d = (butlast (hdata h))[i := last (hdata h)]" "i < length (butlast (hdata h))" using rem(5) by auto
    then have di: "d ! i = last (hdata h)" "i < length d" using False by auto
    have mp: "maps d ((mapping ?h)(fst (d ! i) \<mapsto> i))" using rem(7) False k by simp
    note moved = moved_order [OF ok(1) d(2), folded d(1) di(1)]
    consider "snd (d ! i) < snd x" | "snd x < snd (d ! i)" | "snd (d ! i) = snd x" by fastforce
    then show ?thesis
    proof cases
      case 1
      then show ?thesis using sift_down_sifted [of i ?h] moved(1) mp di False rem(1) by (simp add: h'_def)
    next
      case 2
      then show ?thesis using sift_up_sifted [of i ?h] moved(2) mp di False rem(1) by (auto simp: h'_def)
    next
      case 3
      then show ?thesis using order_both [OF moved(2,1)] mp False rem(1) by (simp add: h'_def sifted_def heap_ok_def)
    qed
  qed
  note new = bindings_removed [OF assms this rem(2,4), unfolded k]
  moreover have "heap_remove h k = Some (h', Some (snd x))"
    using Some sw by (simp add: heap_remove_def h'_def)
  ultimately show ?thesis by auto
qed

lemma heap_pop_spec:
  assumes "heap_ok h" "heap_pop h = (h', ret)"
  shows "case ret of
      None \<Rightarrow> h' = h \<and> bindings h = Map.empty
    | Some (k, v) \<Rightarrow> heap_ok h' \<and> bindings h k = Some v \<and> bindings h' = (bindings h)(k := None) \<and>
        (\<forall>w\<in>ran (bindings h). w \<le> v)"
proof (cases "hdata h")
  case Nil
  then have "bindings h = Map.empty"
    using assms(1) bindings_Some [of h] by (auto simp: heap_ok_def fun_eq_iff) (metis not_Some_eq)
  with Nil assms(2) show ?thesis by (auto simp: heap_pop_def swap_remove_def)
next
  case (Cons y ys)
  have ok: "heap_order (hdata h)" "maps (hdata h) (mapping h)" using assms(1) by (auto simp: heap_ok_def)
  have zero: "0 < length (hdata h)" using Cons by simp
  obtain d x where sw: "swap_remove (hdata h) 0 = Some (d, x)" using Cons by (simp add: swap_remove_def)
  note rem = swap_remove_maps [OF ok(2) zero sw]
  let ?h = "\<lparr>hdata = d, mapping = mapping h\<rparr>" and ?g = "\<lparr>hdata = d, mapping = (mapping h)(fst x := None)\<rparr>"
  have h': "h' = (if d \<noteq> [] then sift_down 0 ?h else ?h)\<lparr>mapping := (mapping (if d \<noteq> [] then sift_down 0 ?h else ?h))(fst x := None)\<rparr>"
    and ret: "ret = Some x"
    using assms(2) sw by (auto simp: heap_pop_def Let_def)
  have "sifted d h'"
  proof (cases "d = []")
    case True
    then show ?thesis using rem(7) by (simp add: h' sifted_def heap_ok_def heap_order_def)
  next
    case False
    then have d: "d = (butlast (hdata h))[0 := last (hdata h)]" "0 < length (butlast (hdata h))" using rem(5) by auto
    then have di: "d ! 0 = last (hdata h)" "0 < length d" using False by auto
    have "snd (last (hdata h)) \<le> snd (hdata h ! 0)" using heap_order_top [OF ok(1), of "last (hdata h)"] Cons by simp
    then have "order_below d 0" using moved_order(1) [OF ok(1) d(2)] d(1) by simp
    then have "sifted d (sift_down 0 ?g)" using sift_down_sifted [of 0 ?g] rem(7) di False by simp
    moreover have "h' = sift_down 0 ?g"
      using False sift_down_unmap [of "fst x" ?h 0] rem(4) di(2) by (simp add: h')
    ultimately show ?thesis by simp
  qed
  note new = bindings_removed [OF assms(1) this rem(2,4)]
  have "w \<le> snd x" if "w \<in> ran (bindings h)" for w
  proof -
    from that obtain k where "(k, w) \<in> set (hdata h)" by (auto simp: ran_def bindings_Some [OF ok(2)])
    from heap_order_top [OF ok(1) this] rem(1) show ?thesis by simp
  qed
  with new show ?thesis by (cases x) (simp add: ret)
qed

section \<open>The interface clients rely on\<close>

text \<open>
  A keyed priority queue: \<open>view\<close> is the finite map it stands for, insertion binds a key, popping
  removes a largest value. The facts below are the bookkeeping of clients that keep a running
  total next to the queue, and the order in which a queue is drained.
\<close>

locale keyed_heap =
  fixes ok :: "'h \<Rightarrow> bool" and view :: "'h \<Rightarrow> 'k \<Rightarrow> 'v::linorder option"
    and put :: "'h \<Rightarrow> 'k \<Rightarrow> 'v \<Rightarrow> ('h \<times> 'v option) option" and pop :: "'h \<Rightarrow> 'h \<times> ('k \<times> 'v) option"
  assumes view_finite: "ok h \<Longrightarrow> finite (dom (view h))"
    and put_law: "ok h \<Longrightarrow> \<exists>h'. put h k v = Some (h', view h k) \<and> ok h' \<and> view h' = (view h)(k \<mapsto> v)"
    and pop_empty: "ok h \<Longrightarrow> pop h = (h', None) \<Longrightarrow> h' = h \<and> view h = Map.empty"
    and pop_law: "ok h \<Longrightarrow> pop h = (h', Some (k, v)) \<Longrightarrow>
      ok h' \<and> view h k = Some v \<and> view h' = (view h)(k := None) \<and> (\<forall>w\<in>ran (view h). w \<le> v)"
begin

definition total :: "('v \<Rightarrow> nat) \<Rightarrow> 'h \<Rightarrow> nat" where
  "total f h = (\<Sum>k\<in>dom (view h). f (the (view h k)))"

lemma total_upd:
  assumes "ok h" "view h' = (view h)(k := x)"
  shows "total f h' + (case view h k of None \<Rightarrow> 0 | Some v \<Rightarrow> f v) = total f h + (case x of None \<Rightarrow> 0 | Some v \<Rightarrow> f v)"
proof -
  let ?D = "dom (view h) - {k}"
  have fin: "finite ?D" using view_finite [OF assms(1)] by simp
  have rest: "(\<Sum>j\<in>?D. f (the (view h' j))) = (\<Sum>j\<in>?D. f (the (view h j)))"
    by (rule sum.cong) (auto simp: assms(2))
  have "total f h = (\<Sum>j\<in>?D. f (the (view h j))) + (case view h k of None \<Rightarrow> 0 | Some v \<Rightarrow> f v)"
  proof (cases "view h k")
    case None
    then have "?D = dom (view h)" by auto
    with None show ?thesis by (simp add: total_def)
  next
    case (Some v)
    then have "k \<in> dom (view h)" by auto
    with Some show ?thesis by (simp add: total_def sum.remove [OF view_finite [OF assms(1)]])
  qed
  moreover have "total f h' = (\<Sum>j\<in>?D. f (the (view h' j))) + (case x of None \<Rightarrow> 0 | Some v \<Rightarrow> f v)"
  proof (cases x)
    case None
    then have "dom (view h') = ?D" by (auto simp: assms(2))
    with None show ?thesis by (simp add: total_def)
  next
    case (Some v)
    then have D: "k \<in> dom (view h')" "dom (view h') - {k} = ?D" "the (view h' k) = v" by (auto simp: assms(2))
    moreover have "finite (dom (view h'))" using view_finite [OF assms(1)] by (simp add: assms(2))
    ultimately show ?thesis using Some by (simp add: total_def sum.remove [where x = k])
  qed
  ultimately show ?thesis using rest by simp
qed

lemma total_ge: "ok h \<Longrightarrow> view h k = Some v \<Longrightarrow> f v \<le> total f h"
  unfolding total_def using view_finite member_le_sum [of k "dom (view h)" "\<lambda>k. f (the (view h k))"]
  by (metis domI option.sel zero_le)

fun drain :: "nat \<Rightarrow> 'h \<Rightarrow> ('k \<times> 'v) list" where
  "drain 0 h = []"
| "drain (Suc n) h = (case pop h of (h', None) \<Rightarrow> [] | (h', Some x) \<Rightarrow> x # drain n h')"

lemma drain_sorted:
  assumes "ok h" "card (dom (view h)) \<le> n"
  shows "sorted_wrt (\<lambda>x y. snd y \<le> snd x) (drain n h) \<and> distinct (map fst (drain n h)) \<and>
    set (drain n h) = {(k, v). view h k = Some v}"
  using assms
proof (induction n arbitrary: h)
  case 0
  then have "dom (view h) = {}" using view_finite by auto
  then show ?case by (auto simp: dom_def)
next
  case (Suc n)
  obtain h' x where pop: "pop h = (h', x)" by (cases "pop h")
  show ?case
  proof (cases x)
    case None
    then show ?thesis using pop_empty [OF Suc.prems(1)] pop by simp
  next
    case (Some kv)
    obtain k v where kv: "kv = (k, v)" by (cases kv)
    note law = pop_law [OF Suc.prems(1), of h' k v] pop Some kv
    then have h': "ok h'" "view h k = Some v" "view h' = (view h)(k := None)" "\<forall>w\<in>ran (view h). w \<le> v" by auto
    have "dom (view h') = dom (view h) - {k}" by (auto simp: h'(3))
    then have "card (dom (view h')) \<le> n" using Suc.prems view_finite h'(2) by (simp add: card_Diff_singleton domI)
    note IH = Suc.IH [OF h'(1) this]
    have "\<forall>y\<in>set (drain n h'). snd y \<le> v" using IH h'(3,4) by (auto simp: ran_def split: if_splits)
    moreover have "k \<notin> fst ` set (drain n h')" using IH h'(3) by auto
    moreover have "{(j, w). view h j = Some w} = insert (k, v) {(j, w). view h' j = Some w}"
      using h'(2,3) by (auto split: if_splits)
    ultimately show ?thesis using IH pop Some kv by simp
  qed
qed

end

interpretation hm: keyed_heap heap_ok bindings heap_insert heap_pop
proof
  fix h h' :: "('k, 'v::linorder) heap_map" and k v
  show "heap_ok h \<Longrightarrow> finite (dom (bindings h))" by (rule heap_len_bindings)
  show "heap_ok h \<Longrightarrow> \<exists>h'. heap_insert h k v = Some (h', bindings h k) \<and> heap_ok h' \<and> bindings h' = (bindings h)(k \<mapsto> v)"
    by (rule heap_insert_spec)
  show "heap_ok h \<Longrightarrow> heap_pop h = (h', None) \<Longrightarrow> h' = h \<and> bindings h = Map.empty"
    by (drule (1) heap_pop_spec) simp
  show "heap_ok h \<Longrightarrow> heap_pop h = (h', Some (k, v)) \<Longrightarrow>
      heap_ok h' \<and> bindings h k = Some v \<and> bindings h' = (bindings h)(k := None) \<and> (\<forall>w\<in>ran (bindings h). w \<le> v)"
    by (drule (1) heap_pop_spec) simp
qed

end
