(* ===== verification/Garbage_Collector.thy ===== *)
theory Garbage_Collector
  imports Heap_Map
begin

text \<open>
  \<^verbatim>\<open>transaction_pool/garbage_collector.rs\<close>: the priority of senders for eviction, a client of the heap
  map through the interface \<open>keyed_heap\<close>, with a running total of collectable transactions.
\<close>

section \<open>Definitions\<close>

datatype gc_value = GcValue (gc_count: nat) (gc_has_ready_tx: bool) (gc_first_tx_gas_price: u256) (gc_timestamp: u64)

text \<open>\<^verbatim>\<open>Ord\<close>: the tuple of the count and the reversed other fields, in lexicographic order.\<close>

definition gc_value_before :: "gc_value \<Rightarrow> gc_value \<Rightarrow> bool" where
  "gc_value_before a b \<longleftrightarrow>
     gc_count a < gc_count b \<or> gc_count a = gc_count b \<and>
      (gc_has_ready_tx b < gc_has_ready_tx a \<or> gc_has_ready_tx a = gc_has_ready_tx b \<and>
       (gc_first_tx_gas_price b < gc_first_tx_gas_price a \<or> gc_first_tx_gas_price a = gc_first_tx_gas_price b \<and>
        gc_timestamp b < gc_timestamp a))"

instantiation gc_value :: linorder
begin

definition less_gc_value :: "gc_value \<Rightarrow> gc_value \<Rightarrow> bool" where
  "less_gc_value a b \<longleftrightarrow> gc_value_before a b"

definition less_eq_gc_value :: "gc_value \<Rightarrow> gc_value \<Rightarrow> bool" where
  "less_eq_gc_value a b \<longleftrightarrow> a < b \<or> a = b"

instance
proof
  fix x y z :: gc_value
  show "(x < y) = (x \<le> y \<and> \<not> y \<le> x)" by (auto simp: less_eq_gc_value_def less_gc_value_def gc_value_before_def)
  show "x \<le> x" by (simp add: less_eq_gc_value_def)
  show "x \<le> y \<Longrightarrow> y \<le> z \<Longrightarrow> x \<le> z" by (auto simp: less_eq_gc_value_def less_gc_value_def gc_value_before_def)
  show "x \<le> y \<Longrightarrow> y \<le> x \<Longrightarrow> x = y" by (auto simp: less_eq_gc_value_def less_gc_value_def gc_value_before_def)
  show "x \<le> y \<or> y \<le> x" by (cases x; cases y) (auto simp: less_eq_gc_value_def less_gc_value_def gc_value_before_def)
qed

end

record 'k garbage_collector =
  gc_heap :: "('k, gc_value) heap_map"
  gc_size :: nat

definition gc_default :: "'k garbage_collector" where
  "gc_default = \<lparr>gc_heap = heap_new, gc_size = 0\<rparr>"

definition gc_insert ::
  "'k garbage_collector \<Rightarrow> 'k \<Rightarrow> nat \<Rightarrow> u64 \<Rightarrow> bool \<Rightarrow> u256 \<Rightarrow> 'k garbage_collector option" where
  "gc_insert g sender cnt timestamp has_ready_tx first_tx_gas_price =
     do {
       let v = GcValue cnt has_ready_tx first_tx_gas_price timestamp;
       rest \<leftarrow> (case heap_get (gc_heap g) sender of
                 Some origin \<Rightarrow> csub (gc_size g) (gc_count origin)
               | None \<Rightarrow> Some (gc_size g));
       size' \<leftarrow> cadd 64 rest cnt;
       (h, _) \<leftarrow> heap_insert (gc_heap g) sender v;
       Some \<lparr>gc_heap = h, gc_size = size'\<rparr>
     }"

definition gc_pop :: "'k garbage_collector \<Rightarrow> ('k garbage_collector \<times> ('k \<times> gc_value) option) option" where
  "gc_pop g =
     (case heap_pop (gc_heap g) of
        (h, None) \<Rightarrow> Some (g\<lparr>gc_heap := h\<rparr>, None)
      | (h, Some (k, v)) \<Rightarrow>
          do {size' \<leftarrow> csub (gc_size g) (gc_count v); Some (\<lparr>gc_heap = h, gc_size = size'\<rparr>, Some (k, v))})"

definition gc_clear :: "'k garbage_collector \<Rightarrow> 'k garbage_collector" where
  "gc_clear g = \<lparr>gc_heap = heap_clear (gc_heap g), gc_size = 0\<rparr>"

definition gc_get_timestamp :: "'k garbage_collector \<Rightarrow> 'k \<Rightarrow> u64 option" where
  "gc_get_timestamp g sender = map_option gc_timestamp (heap_get (gc_heap g) sender)"

definition gc_is_empty :: "'k garbage_collector \<Rightarrow> bool" where
  "gc_is_empty g = heap_is_empty (gc_heap g)"

definition gc_top :: "'k garbage_collector \<Rightarrow> ('k \<times> gc_value) option" where
  "gc_top g = heap_top (gc_heap g)"

section \<open>The size is the sum of the counts\<close>

definition gc_view :: "'k garbage_collector \<Rightarrow> 'k \<rightharpoonup> gc_value" where
  "gc_view g = bindings (gc_heap g)"

definition gc_ok :: "'k garbage_collector \<Rightarrow> bool" where
  "gc_ok g \<longleftrightarrow> heap_ok (gc_heap g) \<and> gc_size g = (\<Sum>k\<in>dom (gc_view g). gc_count (the (gc_view g k)))"

lemma gc_ok_total: "gc_ok g \<longleftrightarrow> heap_ok (gc_heap g) \<and> gc_size g = hm.total gc_count (gc_heap g)"
  by (simp add: gc_ok_def gc_view_def hm.total_def)

lemma gc_default_ok: "gc_ok gc_default" "gc_view gc_default = Map.empty"
  by (simp_all add: gc_ok_def gc_view_def gc_default_def heap_ok_new)

lemma gc_insert_spec:
  assumes "gc_ok g" "gc_size g + cnt < 2 ^ 64"
  shows "\<exists>g'. gc_insert g k cnt ts ready price = Some g' \<and> gc_ok g' \<and>
    gc_view g' = (gc_view g)(k \<mapsto> GcValue cnt ready price ts)"
proof -
  let ?v = "GcValue cnt ready price ts" and ?h = "gc_heap g"
  have ok: "heap_ok ?h" "gc_size g = hm.total gc_count ?h" using assms(1) by (auto simp: gc_ok_total)
  obtain h where h: "heap_insert ?h k ?v = Some (h, bindings ?h k)" "heap_ok h" "bindings h = (bindings ?h)(k \<mapsto> ?v)"
    using heap_insert_spec [OF ok(1)] by blast
  note tot = hm.total_upd [OF ok(1) h(3), of gc_count]
  show ?thesis
  proof (cases "bindings ?h k")
    case None
    with tot have "hm.total gc_count h = gc_size g + cnt" by (simp add: ok(2))
    with None h assms(2) show ?thesis
      by (simp add: gc_insert_def heap_get_bindings [OF ok(1)] gc_ok_total gc_view_def cadd_def)
  next
    case (Some old)
    have le: "gc_count old \<le> gc_size g" using hm.total_ge [OF ok(1) Some] by (simp add: ok(2))
    with tot Some have "hm.total gc_count h = gc_size g - gc_count old + cnt" by (simp add: ok(2))
    with Some le h assms(2) show ?thesis
      by (simp add: gc_insert_def heap_get_bindings [OF ok(1)] gc_ok_total gc_view_def cadd_def csub_def)
  qed
qed

lemma gc_pop_spec:
  assumes "gc_ok g"
  shows "\<exists>g' ret. gc_pop g = Some (g', ret) \<and> gc_ok g' \<and>
    (case ret of
       None \<Rightarrow> gc_view g = Map.empty \<and> g' = g
     | Some (k, v) \<Rightarrow> gc_view g k = Some v \<and> gc_view g' = (gc_view g)(k := None) \<and> (\<forall>w\<in>ran (gc_view g). w \<le> v))"
proof -
  let ?h = "gc_heap g"
  have ok: "heap_ok ?h" "gc_size g = hm.total gc_count ?h" using assms by (auto simp: gc_ok_total)
  obtain h ret where pop: "heap_pop ?h = (h, ret)" by fastforce
  note spec = heap_pop_spec [OF ok(1) pop]
  show ?thesis
  proof (cases ret)
    case None
    with pop spec assms show ?thesis by (simp add: gc_pop_def gc_view_def)
  next
    case (Some kv)
    obtain k v where kv: "kv = (k, v)" by (cases kv)
    from spec Some kv have h: "heap_ok h" "bindings ?h k = Some v" "bindings h = (bindings ?h)(k := None)"
      "\<forall>w\<in>ran (bindings ?h). w \<le> v" by auto
    have "gc_count v \<le> gc_size g" using hm.total_ge [OF ok(1) h(2)] by (simp add: ok(2))
    moreover have "hm.total gc_count h = gc_size g - gc_count v"
      using hm.total_upd [OF ok(1) h(3), of gc_count] h(2) by (simp add: ok(2))
    ultimately show ?thesis
      using pop Some kv h by (simp add: gc_pop_def gc_ok_total gc_view_def csub_def)
  qed
qed

section \<open>Properties\<close>

text \<open>
  C16: \<^verbatim>\<open>HeapMap\<close> refines a finite map with a largest element: after any of its operations the array is
  a max-heap in step with the position map; insert and remove change exactly one binding and return
  the old value, pop removes a binding with a largest value, none of them panics.
\<close>

theorem heap_map_refines:
  assumes "heap_ok h"
  shows "(\<exists>h'. heap_insert h k v = Some (h', bindings h k) \<and> heap_ok h' \<and> bindings h' = (bindings h)(k \<mapsto> v)) \<and>
    (\<exists>h'. heap_remove h k = Some (h', bindings h k) \<and> heap_ok h' \<and> bindings h' = (bindings h)(k := None)) \<and>
    (\<exists>h'. heap_update_with h k f = Some h' \<and> heap_ok h' \<and>
       bindings h' = (case bindings h k of None \<Rightarrow> bindings h | Some v \<Rightarrow> (bindings h)(k \<mapsto> f v))) \<and>
    (case heap_pop h of
       (h', None) \<Rightarrow> bindings h = Map.empty
     | (h', Some (k, v)) \<Rightarrow> heap_ok h' \<and> bindings h k = Some v \<and> bindings h' = (bindings h)(k := None) \<and>
         (\<forall>w\<in>ran (bindings h). w \<le> v)) \<and>
    heap_get h k = bindings h k \<and> heap_len h = card (dom (bindings h))"
proof -
  obtain h' ret where pop: "heap_pop h = (h', ret)" by fastforce
  from heap_pop_spec [OF assms this]
  have "case heap_pop h of
       (h', None) \<Rightarrow> bindings h = Map.empty
     | (h', Some (k, v)) \<Rightarrow> heap_ok h' \<and> bindings h k = Some v \<and> bindings h' = (bindings h)(k := None) \<and>
         (\<forall>w\<in>ran (bindings h). w \<le> v)"
    by (auto simp: pop split: option.splits)
  then show ?thesis
    using heap_insert_spec [OF assms] heap_remove_spec [OF assms] heap_update_with_spec [OF assms]
      heap_get_bindings [OF assms] heap_len_bindings(1) [OF assms] by blast
qed

theorem heap_map_refines_witness:
  "\<exists>h'. heap_insert (heap_new :: (nat, nat) heap_map) 3 4 = Some (h', None) \<and> heap_ok h' \<and> bindings h' = [3 \<mapsto> 4]"
  using heap_map_refines [OF heap_ok_new(1), of "3 :: nat" "4 :: nat" "\<lambda>v. v"] by (simp add: heap_ok_new(2))

text \<open>
  C17: the collector's size is the number of collectable transactions of all senders after every
  insertion (which replaces the sender's entry) and pop, so neither underflows; pop yields a sender
  with the highest eviction priority and removes it: no sender has more collectable transactions;
  none with as many is unready where it is ready; none that also agrees in readiness has a lower
  price of the first transaction; and none that also agrees in the price is older.
\<close>

theorem garbage_collector_accounts:
  assumes "gc_ok g" "gc_size g + n < 2 ^ 64"
  shows "(\<exists>g'. gc_insert g k n ts ready price = Some g' \<and> gc_ok g' \<and>
      gc_view g' = (gc_view g)(k \<mapsto> GcValue n ready price ts)) \<and>
    (\<exists>g' ret. gc_pop g = Some (g', ret) \<and> gc_ok g' \<and>
       (case ret of
          None \<Rightarrow> gc_view g = Map.empty \<and> g' = g
        | Some (k, v) \<Rightarrow> gc_view g k = Some v \<and> gc_view g' = (gc_view g)(k := None) \<and>
            (\<forall>w\<in>ran (gc_view g). gc_count w \<le> gc_count v \<and>
               (gc_count w = gc_count v \<longrightarrow> gc_has_ready_tx v \<longrightarrow> gc_has_ready_tx w) \<and>
               (gc_count w = gc_count v \<longrightarrow> gc_has_ready_tx w = gc_has_ready_tx v \<longrightarrow>
                  gc_first_tx_gas_price v \<le> gc_first_tx_gas_price w \<and>
                  (gc_first_tx_gas_price w = gc_first_tx_gas_price v \<longrightarrow> gc_timestamp v \<le> gc_timestamp w)))))"
proof -
  let ?first = "\<lambda>w v. gc_count w \<le> gc_count v \<and>
    (gc_count w = gc_count v \<longrightarrow> gc_has_ready_tx v \<longrightarrow> gc_has_ready_tx w) \<and>
    (gc_count w = gc_count v \<longrightarrow> gc_has_ready_tx w = gc_has_ready_tx v \<longrightarrow>
       gc_first_tx_gas_price v \<le> gc_first_tx_gas_price w \<and>
       (gc_first_tx_gas_price w = gc_first_tx_gas_price v \<longrightarrow> gc_timestamp v \<le> gc_timestamp w))"
  have first: "?first w v" if "w \<le> v" for v w
    using that by (auto simp: less_eq_gc_value_def less_gc_value_def gc_value_before_def)
  obtain g' ret where pop: "gc_pop g = Some (g', ret)" "gc_ok g'"
    "case ret of
       None \<Rightarrow> gc_view g = Map.empty \<and> g' = g
     | Some (k, v) \<Rightarrow> gc_view g k = Some v \<and> gc_view g' = (gc_view g)(k := None) \<and> (\<forall>w\<in>ran (gc_view g). w \<le> v)"
    using gc_pop_spec [OF assms(1)] by blast
  have "case ret of
       None \<Rightarrow> gc_view g = Map.empty \<and> g' = g
     | Some (k, v) \<Rightarrow> gc_view g k = Some v \<and> gc_view g' = (gc_view g)(k := None) \<and> (\<forall>w\<in>ran (gc_view g). ?first w v)"
  proof (cases ret)
    case (Some kv)
    obtain k v where kv: "kv = (k, v)" by (cases kv)
    have "\<forall>w\<in>ran (gc_view g). ?first w v"
      using pop(3) Some kv by (intro ballI first) simp
    then show ?thesis using pop(3) Some kv by simp
  qed (use pop(3) in simp)
  with pop(1,2) show ?thesis
    by - (rule conjI [OF gc_insert_spec [OF assms]], intro exI conjI)
qed

theorem garbage_collector_accounts_witness:
  "\<exists>g'. gc_insert (gc_default :: nat garbage_collector) 7 3 10 False 2 = Some g' \<and> gc_ok g' \<and>
     gc_view g' = [7 \<mapsto> GcValue 3 False 2 10]"
  using garbage_collector_accounts [OF gc_default_ok(1), of 3 "7 :: nat" 10 False 2]
  by (simp add: gc_default_ok(2)) (simp add: gc_default_def)

end
