(* ===== verification/Base_Price.thy ===== *)
theory Base_Price
  imports Mazze_Prelude
begin

text \<open>
  \<^verbatim>\<open>crates/primitives/src/block_header/base_price.rs\<close>: the base price of the next block from the gas
  used, and the inverse computation used when packing: the gas values between which the next price
  equals a given one. \<^verbatim>\<open>U256\<close> operators panic on overflow.
\<close>

section \<open>Definitions\<close>

definition DENOM :: nat where
  "DENOM = 8"

definition compute_next_price :: "u256 \<Rightarrow> u256 \<Rightarrow> u256 \<Rightarrow> u256 \<Rightarrow> u256 option" where
  "compute_next_price gas_target gas_used last_base_price min_base_price =
     do {
       double \<leftarrow> cmul 256 gas_target 2;
       let gas_actual = (if gas_used > double then double else gas_used);
       next_base_price \<leftarrow>
         (if gas_target = 0 \<or> gas_target = gas_actual then Some last_base_price
          else do {
            let (gas_delta, delta_sign) =
              (if gas_actual > gas_target then (gas_actual - gas_target, True) else (gas_target - gas_actual, False));
            assert_that (gas_delta \<le> gas_target);
            prod \<leftarrow> cmul 256 gas_delta last_base_price;
            quot \<leftarrow> cdiv prod gas_target;
            delta \<leftarrow> cdiv quot DENOM;
            let price_delta = (if delta = 0 then 1 else delta);
            if delta_sign then cadd 256 last_base_price price_delta
            else if last_base_price \<noteq> 0 then csub last_base_price price_delta
            else Some 0
          });
       Some (max next_base_price min_base_price)
     }"

definition estimate_gas_used_boundary :: "u256 \<Rightarrow> u256 \<Rightarrow> u256 \<Rightarrow> (u256 option \<times> u256 option) option" where
  "estimate_gas_used_boundary gas_target current_base_price last_base_price =
     (if gas_target = 0 then Some (None, Some 1)
      else if last_base_price = 0 then
        (if current_base_price = 0 then do {u \<leftarrow> cadd 256 gas_target 1; Some (None, Some u)}
         else if current_base_price = 1
         then do {d \<leftarrow> cmul 256 gas_target 2; u \<leftarrow> cadd 256 d 1; Some (Some gas_target, Some u)}
         else do {d \<leftarrow> cmul 256 gas_target 2; Some (Some d, None)})
      else do {
        let max_price_delta = max 1 (last_base_price div DENOM);
        upper_base_price \<leftarrow> cadd 256 last_base_price max_price_delta;
        lower_base_price \<leftarrow> csub last_base_price max_price_delta;
        if current_base_price > upper_base_price then do {d \<leftarrow> cmul 256 gas_target 2; Some (Some d, None)}
        else if current_base_price < lower_base_price then Some (None, Some 0)
        else if current_base_price = last_base_price
        then do {l \<leftarrow> csub gas_target 1; u \<leftarrow> cadd 256 gas_target 1; Some (Some l, Some u)}
        else do {
          let (price_delta, delta_sign) =
            (if current_base_price > last_base_price then (current_base_price - last_base_price, True)
             else (last_base_price - current_base_price, False));
          assert_that (price_delta \<noteq> 0);
          lower_bound \<leftarrow>
            (if price_delta = 1 then Some 0
             else do {
               a \<leftarrow> cmul 256 price_delta gas_target;
               b \<leftarrow> cmul 256 a DENOM;
               c \<leftarrow> csub b 1;
               cdiv c last_base_price
             });
          p \<leftarrow> cadd 256 price_delta 1;
          a \<leftarrow> cmul 256 p gas_target;
          b \<leftarrow> cmul 256 a DENOM;
          c \<leftarrow> cadd 256 b last_base_price;
          d \<leftarrow> csub c 1;
          upper_bound \<leftarrow> cdiv d last_base_price;
          if delta_sign then do {
            lo \<leftarrow> cadd 256 gas_target lower_bound;
            up \<leftarrow> cadd 256 gas_target upper_bound;
            double \<leftarrow> cmul 256 gas_target 2;
            cap \<leftarrow> cadd 256 double 1;
            Some (Some lo, Some (min up cap))
          }
          else do {
            up \<leftarrow> csub gas_target lower_bound;
            Some (csub gas_target upper_bound, Some up)
          }
        }
      })"

definition estimate_max_possible_gas :: "u256 \<Rightarrow> u256 \<Rightarrow> u256 \<Rightarrow> u256 option" where
  "estimate_max_possible_gas gas_target current_base_price last_base_price =
     do {
       (_, upper_boundary) \<leftarrow> estimate_gas_used_boundary gas_target current_base_price last_base_price;
       case upper_boundary of
         None \<Rightarrow> cmul 256 gas_target 2
       | Some x \<Rightarrow> Some (if x = 0 then 0 else x - 1)
     }"

definition compute_next_price_tuple :: "u256 \<times> u256 \<times> u256 \<times> u256 \<Rightarrow> u256 option" where
  "compute_next_price_tuple x = (case x of (a, b, c, d) \<Rightarrow> compute_next_price a b c d)"

section \<open>The price as a function of the gas used\<close>

definition delta_of :: "nat \<Rightarrow> nat \<Rightarrow> nat \<Rightarrow> nat" where
  "delta_of target gap lst = max 1 (gap * lst div target div 8)"

definition next_price :: "nat \<Rightarrow> nat \<Rightarrow> nat \<Rightarrow> nat" where
  "next_price target gas lst =
     (if gas = target then lst
      else if gas > target then lst + delta_of target (gas - target) lst
      else lst - delta_of target (target - gas) lst)"

lemma delta_of_le: "0 < target \<Longrightarrow> gap \<le> target \<Longrightarrow> delta_of target gap lst \<le> max 1 (lst div 8)"
proof -
  assume "0 < target" "gap \<le> target"
  then have "gap * lst div target \<le> lst"
    by (metis div_le_mono div_mult_self1_is_m mult_le_mono1)
  then show ?thesis unfolding delta_of_def by (intro max.mono div_le_mono) auto
qed

text \<open>The bound under which nothing below overflows.\<close>

definition prices_fit :: "nat \<Rightarrow> nat \<Rightarrow> bool" where
  "prices_fit target lst \<longleftrightarrow> target * lst + 8 * target + lst + 2 < 2 ^ 252"

lemma compute_next_price_eq:
  assumes "prices_fit target lst" "0 < target"
  shows "compute_next_price target gas lst mn = Some (max (next_price target (min gas (2 * target)) lst) mn)"
proof -
  define g where "g = min gas (2 * target)"
  have fit: "target * 2 < 2 ^ 256" "target * lst < 2 ^ 256" "lst + max 1 (lst div 8) < 2 ^ 256"
    using assms(1) unfolding prices_fit_def by (auto simp: max_def)
  have g: "(if gas > target * 2 then target * 2 else gas) = g" "g \<le> 2 * target" by (auto simp: g_def)
  have double: "cmul 256 target 2 = Some (target * 2)" using fit by simp
  have prod: "cmul 256 gap lst = Some (gap * lst)" if "gap \<le> target" for gap
    using le_less_trans [OF mult_le_mono1 [OF that] fit(2)] by simp
  have delta: "(if x div 8 = 0 then 1 else x div 8) = max 1 (x div 8)" for x :: nat by simp
  consider "g = target" | "target < g" | "g < target" by linarith
  then have "(if target = 0 \<or> target = g then Some lst
      else do {
        let (gas_delta, delta_sign) = (if g > target then (g - target, True) else (target - g, False));
        assert_that (gas_delta \<le> target);
        prod \<leftarrow> cmul 256 gas_delta lst;
        quot \<leftarrow> cdiv prod target;
        delta \<leftarrow> cdiv quot DENOM;
        let price_delta = (if delta = 0 then 1 else delta);
        if delta_sign then cadd 256 lst price_delta
        else if lst \<noteq> 0 then csub lst price_delta
        else Some 0
      }) = Some (next_price target g lst)"
  proof cases
    case 2
    then have gap: "g - target \<le> target" using g(2) by simp
    then have "lst + delta_of target (g - target) lst < 2 ^ 256" using delta_of_le [OF assms(2) gap, of lst] fit(3) by simp
    then have "cadd 256 lst (max 1 ((g - target) * lst div target div 8)) = Some (next_price target g lst)"
      using 2 by (simp add: next_price_def delta_of_def)
    with 2 gap prod [OF gap] assms(2) show ?thesis
      unfolding Let_def by (simp add: cdiv_def DENOM_def assert_that_def delta del: cadd_eq_Some cmul_eq_Some One_nat_def)
  next
    case 3
    then have gap: "target - g \<le> target" by simp
    have "delta_of target (target - g) lst \<le> lst" if "lst \<noteq> 0"
      using delta_of_le [OF assms(2) gap, of lst] that by auto
    then have "lst \<noteq> 0 \<Longrightarrow> csub lst (max 1 ((target - g) * lst div target div 8)) = Some (next_price target g lst)"
      using 3 by (simp add: next_price_def delta_of_def)
    with 3 gap prod [OF gap] assms(2) show ?thesis
      unfolding Let_def by (simp add: cdiv_def DENOM_def assert_that_def delta next_price_def del: csub_eq_Some cmul_eq_Some One_nat_def)
  qed (simp add: next_price_def)
  then show ?thesis
    unfolding compute_next_price_def double bind.bind_lunit Let_def g(1) by (simp add: g_def)
qed

section \<open>The inverse\<close>

lemma delta_of_less: "0 < target \<Longrightarrow> 1 < d \<Longrightarrow> delta_of target gap lst < d \<longleftrightarrow> gap * lst < d * target * 8"
  unfolding delta_of_def by (simp add: div_mult2_eq [symmetric] div_less_iff_less_mult mult.assoc)

lemma delta_of_greater: "0 < target \<Longrightarrow> 0 < d \<Longrightarrow> d < delta_of target gap lst \<longleftrightarrow> (d + 1) * target * 8 \<le> gap * lst"
  using delta_of_less [of target "Suc d" gap lst] by (auto simp: not_less [symmetric] less_Suc_eq_le)

lemma delta_of_pos: "0 < delta_of target gap lst"
  by (simp add: delta_of_def)

lemma floor_bound: "0 < l \<Longrightarrow> 0 < n \<Longrightarrow> x \<le> (n - 1) div l \<longleftrightarrow> x * l < (n :: nat)"
  by (auto simp: less_eq_div_iff_mult_less_eq)

lemma ceil_bound: "0 < l \<Longrightarrow> (n + l - 1) div l \<le> x \<longleftrightarrow> n \<le> x * (l :: nat)"
  using div_less_iff_less_mult [of l "n + l - 1" "Suc x"] by (auto simp: less_Suc_eq_le)

text \<open>A pair of bounds is right: below the first the price is lower, from the second on higher.\<close>

definition bounds_ok :: "nat \<Rightarrow> nat \<Rightarrow> nat \<Rightarrow> nat option \<times> nat option \<Rightarrow> bool" where
  "bounds_ok target cur lst b \<longleftrightarrow> pred_option (\<lambda>u. u \<le> 2 * target + 1) (snd b) \<and>
     (\<forall>g\<le>2 * target.
        (next_price target g lst < cur \<longleftrightarrow> (case fst b of None \<Rightarrow> False | Some lo \<Rightarrow> g \<le> lo)) \<and>
        (cur < next_price target g lst \<longleftrightarrow> (case snd b of None \<Rightarrow> False | Some up \<Rightarrow> up \<le> g)))"

definition lower_of :: "nat \<Rightarrow> nat \<Rightarrow> nat \<Rightarrow> nat" where
  "lower_of target d lst = (if d = 1 then 0 else (d * target * 8 - 1) div lst)"

definition upper_of :: "nat \<Rightarrow> nat \<Rightarrow> nat \<Rightarrow> nat" where
  "upper_of target d lst = ((d + 1) * target * 8 + lst - 1) div lst"

lemma lower_of_iff:
  assumes "0 < target" "0 < lst" "0 < d"
  shows "gap \<le> lower_of target d lst \<longleftrightarrow> gap = 0 \<or> delta_of target gap lst < d"
proof (cases "d = 1")
  case True
  then show ?thesis using delta_of_pos [of target gap lst] by (simp add: lower_of_def)
next
  case False
  then have "1 < d" "0 < d * target * 8" using assms by auto
  then show ?thesis
    using floor_bound [OF assms(2) \<open>0 < d * target * 8\<close>, of gap] by (auto simp: lower_of_def delta_of_less [OF assms(1)])
qed

lemma upper_of_iff:
  assumes "0 < target" "0 < lst" "0 < d"
  shows "upper_of target d lst \<le> gap \<longleftrightarrow> d < delta_of target gap lst"
  using ceil_bound [OF assms(2), of "(d + 1) * target * 8" gap] by (simp add: upper_of_def delta_of_greater [OF assms(1,3)])

lemma upper_of_pos: "0 < target \<Longrightarrow> 0 < lst \<Longrightarrow> 0 < d \<Longrightarrow> 0 < upper_of target d lst"
  using upper_of_iff [of target lst d 0] by (simp add: delta_of_def)

lemma bounds_above:
  assumes "0 < target" "0 < lst" "0 < d"
  shows "bounds_ok target (lst + d) lst (Some (target + lower_of target d lst), Some (min (target + upper_of target d lst) (target * 2 + 1)))"
proof -
  define L U where "L = lower_of target d lst" and "U = upper_of target d lst"
  have "(next_price target g lst < lst + d \<longleftrightarrow> g \<le> target + L) \<and>
      (lst + d < next_price target g lst \<longleftrightarrow> min (target + U) (target * 2 + 1) \<le> g)" if "g \<le> 2 * target" for g
  proof (cases "target < g")
    case True
    let ?D = "delta_of target (g - target) lst"
    have "next_price target g lst = lst + ?D" using True by (simp add: next_price_def)
    moreover have "g - target \<le> L \<longleftrightarrow> ?D < d" "U \<le> g - target \<longleftrightarrow> d < ?D"
      unfolding L_def U_def using lower_of_iff [OF assms] upper_of_iff [OF assms] True by auto
    ultimately show ?thesis using True that by auto
  next
    case False
    then have "next_price target g lst \<le> lst" by (simp add: next_price_def)
    moreover have "0 < U" unfolding U_def by (rule upper_of_pos [OF assms])
    ultimately show ?thesis using False assms(3) by auto
  qed
  then show ?thesis by (simp add: bounds_ok_def L_def U_def)
qed

lemma bounds_below:
  assumes "0 < target" "0 < d" "d \<le> max 1 (lst div 8)" "d \<le> lst"
  shows "lower_of target d lst \<le> target"
    "bounds_ok target (lst - d) lst (csub target (upper_of target d lst), Some (target - lower_of target d lst))"
proof -
  have lst: "0 < lst" using assms by auto
  show le: "lower_of target d lst \<le> target"
  proof (cases "d = 1")
    case False
    then have "d \<le> lst div 8" using assms(2,3) by auto
    then have "d * 8 \<le> lst" by (simp add: less_eq_div_iff_mult_less_eq)
    then have "d * target * 8 \<le> lst * target" by (metis mult.assoc mult.commute mult_le_mono1)
    then have "(d * target * 8 - 1) div lst \<le> lst * target div lst"
      by (intro div_le_mono order_trans [OF diff_le_self])
    with False lst show ?thesis by (simp add: lower_of_def)
  qed (simp add: lower_of_def)
  define L U where "L = lower_of target d lst" and "U = upper_of target d lst"
  have pos: "0 < U" unfolding U_def by (rule upper_of_pos [OF assms(1) lst assms(2)])
  have "(next_price target g lst < lst - d \<longleftrightarrow> U \<le> target \<and> g \<le> target - U) \<and>
      (lst - d < next_price target g lst \<longleftrightarrow> target - L \<le> g)" for g
  proof (cases "g < target")
    case True
    let ?D = "delta_of target (target - g) lst"
    have "next_price target g lst = lst - ?D" using True by (simp add: next_price_def)
    moreover have "?D \<le> lst" using delta_of_le [OF assms(1), of "target - g" lst] lst by auto
    then have "lst - ?D < lst - d \<longleftrightarrow> d < ?D" "lst - d < lst - ?D \<longleftrightarrow> ?D < d" using assms(4) by linarith+
    moreover have "U \<le> target \<and> g \<le> target - U \<longleftrightarrow> U \<le> target - g" "target - L \<le> g \<longleftrightarrow> target - g \<le> L"
      using True by linarith+
    moreover have "target - g \<le> L \<longleftrightarrow> ?D < d" "U \<le> target - g \<longleftrightarrow> d < ?D"
      unfolding L_def U_def using lower_of_iff [OF assms(1) lst assms(2)] upper_of_iff [OF assms(1) lst assms(2)] True by auto
    ultimately show ?thesis by simp
  next
    case False
    then have "lst \<le> next_price target g lst" by (simp add: next_price_def)
    then show ?thesis using False pos assms(2,4) lst by auto
  qed
  then show "bounds_ok target (lst - d) lst (csub target (upper_of target d lst), Some (target - lower_of target d lst))"
    by (simp add: bounds_ok_def L_def U_def csub_def)
qed

lemma prices_fit_bounds:
  assumes "prices_fit target lst" "0 < lst" "0 < d" "d \<le> lst"
  shows "cmul 256 d target = Some (d * target)" "cmul 256 (d * target) 8 = Some (d * target * 8)"
    "cadd 256 d 1 = Some (d + 1)" "cmul 256 (d + 1) target = Some ((d + 1) * target)"
    "cmul 256 ((d + 1) * target) 8 = Some ((d + 1) * target * 8)"
    "cadd 256 ((d + 1) * target * 8) lst = Some ((d + 1) * target * 8 + lst)"
    "csub ((d + 1) * target * 8 + lst) 1 = Some ((d + 1) * target * 8 + lst - 1)"
    "cadd 256 target (upper_of target d lst) = Some (target + upper_of target d lst)"
    "cadd 256 target (lower_of target d lst) = Some (target + lower_of target d lst)"
proof -
  have "(d + 1) * target \<le> (lst + 1) * target" using assms(4) by (intro mult_le_mono1) simp
  then have m: "(d + 1) * target \<le> target * lst + target" by (simp add: algebra_simps)
  have fit: "target * lst + 8 * target + lst + 2 < 2 ^ 252" using assms(1) by (simp add: prices_fit_def)
  have up: "upper_of target d lst \<le> (d + 1) * target * 8 + lst" "lower_of target d lst \<le> d * target * 8"
    unfolding upper_of_def lower_of_def by (auto intro: order_trans [OF div_le_dividend])
  have d: "d * target \<le> (d + 1) * target" by simp
  have wide: "(d + 1) * target * 8 + lst + target < 2 ^ 256" using m fit by (simp del: mult_Suc add_mult_distrib)
  show "cmul 256 d target = Some (d * target)" "cmul 256 (d * target) 8 = Some (d * target * 8)"
    "cadd 256 d 1 = Some (d + 1)" "cmul 256 (d + 1) target = Some ((d + 1) * target)"
    "cmul 256 ((d + 1) * target) 8 = Some ((d + 1) * target * 8)"
    "cadd 256 ((d + 1) * target * 8) lst = Some ((d + 1) * target * 8 + lst)"
    "cadd 256 target (upper_of target d lst) = Some (target + upper_of target d lst)"
    "cadd 256 target (lower_of target d lst) = Some (target + lower_of target d lst)"
    using wide up d assms(4) fit by (auto simp: cadd_def cmul_def)
  show "csub ((d + 1) * target * 8 + lst) 1 = Some ((d + 1) * target * 8 + lst - 1)" using assms(2) by simp
qed

lemma lower_bound_eq:
  assumes "0 < lst" "0 < d" "0 < target"
  shows "(if d = 1 then Some 0 else do {c \<leftarrow> csub (d * target * 8) 1; cdiv c lst}) = Some (lower_of target d lst)"
proof -
  have sub: "csub (d * target * 8) 1 = Some (d * target * 8 - 1)" using assms by simp
  show ?thesis unfolding sub bind.bind_lunit lower_of_def using assms(1) by (simp add: cdiv_def)
qed

lemma upper_bound_eq: "0 < lst \<Longrightarrow> cdiv ((d + 1) * target * 8 + lst - 1) lst = Some (upper_of target d lst)"
  by (simp add: upper_of_def cdiv_def)

lemma estimate_bounds_ok:
  assumes fit: "prices_fit target lst" and target: "0 < target"
  shows "\<exists>b. estimate_gas_used_boundary target cur lst = Some b \<and> bounds_ok target cur lst b"
proof -
  have small: "cmul 256 target 2 = Some (target * 2)" "cadd 256 (target * 2) 1 = Some (target * 2 + 1)"
    "cadd 256 target 1 = Some (target + 1)" "csub target 1 = Some (target - 1)"
    "cadd 256 lst (max 1 (lst div 8)) = Some (lst + max 1 (lst div 8))"
    using fit target unfolding prices_fit_def by (auto simp: max_def)
  show ?thesis
  proof (cases "lst = 0")
    case True
    then have "next_price target g 0 = (if g > target then 1 else 0)" for g
      by (simp add: next_price_def delta_of_def)
    then have "bounds_ok target 0 0 (None, Some (target + 1))" "bounds_ok target 1 0 (Some target, Some (target * 2 + 1))"
      "1 < cur \<Longrightarrow> bounds_ok target cur 0 (Some (target * 2), None)"
      by (auto simp: bounds_ok_def)
    with True target small show ?thesis
      by (cases "cur = 0"; cases "cur = 1") (auto simp: estimate_gas_used_boundary_def simp del: cadd_eq_Some cmul_eq_Some)
  next
    case False
    let ?M = "max 1 (lst div 8)"
    have sub: "csub lst ?M = Some (lst - ?M)" using False by auto
    have range: "lst - ?M \<le> next_price target g lst \<and> next_price target g lst \<le> lst + ?M" if "g \<le> 2 * target" for g
      using delta_of_le [OF target, of "g - target" lst] delta_of_le [OF target, of "target - g" lst] that
      by (auto simp: next_price_def intro: diff_le_mono2)
    consider "cur > lst + ?M" | "cur < lst - ?M" | "cur = lst" | "lst < cur" "cur \<le> lst + ?M" | "cur < lst" "lst - ?M \<le> cur"
      by linarith
    then show ?thesis
    proof cases
      case 1
      then have "bounds_ok target cur lst (Some (target * 2), None)" using range by (force simp: bounds_ok_def)
      with 1 show ?thesis using target False small sub
        by (auto simp: estimate_gas_used_boundary_def DENOM_def Let_def simp del: cadd_eq_Some cmul_eq_Some csub_eq_Some)
    next
      case 2
      then have "bounds_ok target cur lst (None, Some 0)" using range by (force simp: bounds_ok_def)
      with 2 show ?thesis using target False small sub
        by (auto simp: estimate_gas_used_boundary_def DENOM_def Let_def simp del: cadd_eq_Some cmul_eq_Some csub_eq_Some)
    next
      case 3
      have "bounds_ok target lst lst (Some (target - 1), Some (target + 1))"
        using delta_of_pos [of target _ lst] target False by (auto simp: bounds_ok_def next_price_def)
      with 3 show ?thesis using target False small sub
        by (auto simp: estimate_gas_used_boundary_def DENOM_def Let_def simp del: cadd_eq_Some cmul_eq_Some csub_eq_Some)
    next
      case 4
      define d where "d = cur - lst"
      have d: "0 < d" "d \<le> lst" "cur = lst + d" using 4 False by (auto simp: d_def)
      note pf = prices_fit_bounds [OF fit _ d(1,2)]
      have "bounds_ok target cur lst (Some (target + lower_of target d lst), Some (min (target + upper_of target d lst) (target * 2 + 1)))"
        using bounds_above [OF target _ d(1)] False d(3) by simp
      moreover have "estimate_gas_used_boundary target cur lst =
          Some (Some (target + lower_of target d lst), Some (min (target + upper_of target d lst) (target * 2 + 1)))"
      proof -
        have conds: "\<not> target = 0" "\<not> lst = 0" "\<not> lst + ?M < cur" "\<not> cur < lst - ?M" "\<not> cur = lst" "lst < cur" "d \<noteq> 0"
          using 4 False target d(1) by auto
        have pos: "0 < lst" using False by simp
        show ?thesis
          unfolding estimate_gas_used_boundary_def DENOM_def Let_def
          by (simp only: conds if_True if_False small sub bind.bind_lunit prod.case assert_that_def simp_thms
              lower_bound_eq [OF pos d(1) target] pf [OF pos] upper_bound_eq [OF pos] d_def [symmetric])
      qed
      ultimately show ?thesis by blast
    next
      case 5
      define d where "d = lst - cur"
      have d: "0 < d" "d \<le> lst" "cur = lst - d" "d \<le> ?M" using 5 False by (auto simp: d_def)
      note pf = prices_fit_bounds [OF fit _ d(1,2)]
      note below = bounds_below [OF target d(1,4,2)]
      have lo: "csub target (lower_of target d lst) = Some (target - lower_of target d lst)" using below(1) by simp
      have "estimate_gas_used_boundary target cur lst =
          Some (csub target (upper_of target d lst), Some (target - lower_of target d lst))"
      proof -
        have conds: "\<not> target = 0" "\<not> lst = 0" "\<not> lst + ?M < cur" "\<not> cur < lst - ?M" "\<not> cur = lst" "\<not> lst < cur" "d \<noteq> 0"
          using 5 False target d(1) by auto
        have pos: "0 < lst" using False by simp
        show ?thesis
          unfolding estimate_gas_used_boundary_def DENOM_def Let_def
          by (simp only: conds if_True if_False small sub bind.bind_lunit prod.case assert_that_def simp_thms
              lower_bound_eq [OF pos d(1) target] pf [OF pos] upper_bound_eq [OF pos] d_def [symmetric] lo)
      qed
      then show ?thesis using below(2) d(3) by simp
    qed
  qed
qed

section \<open>Properties\<close>

text \<open>
  C18: \<^verbatim>\<open>estimate_gas_used_boundary\<close> inverts \<^verbatim>\<open>compute_next_price\<close>: for every gas value up to twice the
  target, the next price is below the given price exactly up to the first bound and above it
  exactly from the second bound on (an absent bound: never); neither computation panics.
\<close>

theorem gas_boundary_inverts_price:
  assumes "prices_fit target lst" "0 < target"
  shows "\<exists>lo up. estimate_gas_used_boundary target cur lst = Some (lo, up) \<and>
    (\<forall>g\<le>2 * target. \<exists>p. compute_next_price target g lst 0 = Some p \<and>
       (p < cur \<longleftrightarrow> (case lo of None \<Rightarrow> False | Some l \<Rightarrow> g \<le> l)) \<and>
       (cur < p \<longleftrightarrow> (case up of None \<Rightarrow> False | Some u \<Rightarrow> u \<le> g)))"
proof -
  obtain lo up where "estimate_gas_used_boundary target cur lst = Some (lo, up)" "bounds_ok target cur lst (lo, up)"
    using estimate_bounds_ok [OF assms] by (metis surj_pair)
  then show ?thesis
    by (intro exI [of _ lo] exI [of _ up]) (simp add: compute_next_price_eq [OF assms] bounds_ok_def min_def)
qed

theorem gas_boundary_inverts_price_witness:
  "estimate_gas_used_boundary 100 22 20 = Some (Some 179, Some 201) \<and> prices_fit 100 20"
proof -
  have "prices_fit 100 20" by (simp add: prices_fit_def)
  then have "\<exists>lo up. estimate_gas_used_boundary 100 22 20 = Some (lo, up)"
    using gas_boundary_inverts_price [of 100 20 22] by auto
  moreover have "estimate_gas_used_boundary 100 22 20 = Some (Some 179, Some 201)"
    by (simp add: estimate_gas_used_boundary_def DENOM_def cmul_def cadd_def csub_def cdiv_def assert_that_def)
  ultimately show ?thesis using \<open>prices_fit 100 20\<close> by simp
qed

text \<open>
  C19: the base price follows demand in bounded steps: gas above the target raises it, gas below
  lowers it (never below zero), each by at least one and at most the larger of one and an eighth;
  at the target it is unchanged; the result is never below the minimum.
\<close>

theorem next_price_step_bounded:
  assumes "prices_fit target lst" "0 < target"
  shows "\<exists>p. compute_next_price target gas lst mn = Some (max p mn) \<and>
    (gas = target \<longrightarrow> p = lst) \<and> (gas > target \<longrightarrow> lst < p \<and> p \<le> lst + max 1 (lst div 8)) \<and>
    (gas < target \<longrightarrow> p \<le> lst \<and> lst - max 1 (lst div 8) \<le> p \<and> (0 < lst \<longrightarrow> p < lst))"
proof -
  define g where "g = min gas (2 * target)"
  have "next_price target g lst = lst" if "gas = target" using that by (simp add: g_def next_price_def)
  moreover have "lst < next_price target g lst \<and> next_price target g lst \<le> lst + max 1 (lst div 8)" if "gas > target"
  proof -
    have "target < g" "g - target \<le> target" using that assms(2) by (auto simp: g_def)
    then show ?thesis using delta_of_le [OF assms(2), of "g - target" lst] delta_of_pos [of target "g - target" lst]
      by (simp add: next_price_def)
  qed
  moreover have "next_price target g lst \<le> lst \<and> lst - max 1 (lst div 8) \<le> next_price target g lst \<and>
      (0 < lst \<longrightarrow> next_price target g lst < lst)" if "gas < target"
  proof -
    have "g < target" using that by (simp add: g_def)
    then show ?thesis using delta_of_le [OF assms(2), of "target - g" lst] delta_of_pos [of target "target - g" lst]
      by (auto simp: next_price_def intro: diff_le_mono2)
  qed
  ultimately show ?thesis
    unfolding compute_next_price_eq [OF assms] g_def [symmetric] by blast
qed

theorem next_price_step_bounded_witness:
  "\<exists>p. compute_next_price 100 150 80 1 = Some (max p 1) \<and> 80 < p \<and> p \<le> 90"
  using next_price_step_bounded [of 100 80 150 1] by (auto simp: prices_fit_def)

lemma max_possible_gas_spec:
  assumes "prices_fit target lst" "0 < target"
  obtains m where "estimate_max_possible_gas target cur lst = Some m" "m \<le> 2 * target"
    "\<forall>g\<le>2 * target. next_price target g lst \<le> cur \<longleftrightarrow> g \<le> m \<and> next_price target 0 lst \<le> cur"
    "cur < next_price target 0 lst \<longrightarrow> m = 0"
proof -
  obtain lo up where est: "estimate_gas_used_boundary target cur lst = Some (lo, up)" and ok: "bounds_ok target cur lst (lo, up)"
    using estimate_bounds_ok [OF assms] by (metis surj_pair)
  have double: "cmul 256 target 2 = Some (target * 2)" using assms(1) by (simp add: prices_fit_def)
  have up: "next_price target g lst \<le> cur \<longleftrightarrow> (case up of None \<Rightarrow> True | Some u \<Rightarrow> g < u)" if "g \<le> 2 * target" for g
  proof -
    have "cur < next_price target g lst \<longleftrightarrow> (case up of None \<Rightarrow> False | Some u \<Rightarrow> u \<le> g)"
      using ok that by (simp add: bounds_ok_def)
    then show ?thesis by (cases up) (auto simp: not_less)
  qed
  show ?thesis
  proof (cases up)
    case None
    then show ?thesis
      using up double est that [of "target * 2"]
      by (fastforce simp: estimate_max_possible_gas_def not_less simp del: cmul_eq_Some)
  next
    case (Some u)
    have "u \<le> 2 * target + 1" using ok Some by (simp add: bounds_ok_def)
    moreover have "cur < next_price target 0 lst \<longleftrightarrow> u = 0"
      using up [of 0] Some by (auto simp: not_less)
    ultimately show ?thesis
      using Some up est that [of "u - 1"] by (fastforce simp: estimate_max_possible_gas_def not_less)
  qed
qed

text \<open>
  C20: \<^verbatim>\<open>estimate_max_possible_gas\<close> is the largest gas use (up to twice the target) that keeps the next
  price at or below the given price; it is zero when even an empty block exceeds it.
\<close>

theorem max_possible_gas_maximal:
  assumes "prices_fit target lst" "0 < target"
  shows "\<exists>m. estimate_max_possible_gas target cur lst = Some m \<and> m \<le> 2 * target \<and>
    (if \<exists>p. compute_next_price target 0 lst 0 = Some p \<and> p \<le> cur
     then \<forall>g\<le>2 * target. (\<exists>p. compute_next_price target g lst 0 = Some p \<and> p \<le> cur) = (g \<le> m)
     else m = 0)"
proof -
  obtain m where m: "estimate_max_possible_gas target cur lst = Some m" "m \<le> 2 * target"
    "\<forall>g\<le>2 * target. next_price target g lst \<le> cur \<longleftrightarrow> g \<le> m \<and> next_price target 0 lst \<le> cur"
    "cur < next_price target 0 lst \<longrightarrow> m = 0"
    using max_possible_gas_spec [OF assms] by blast
  have price: "(\<exists>p. compute_next_price target g lst 0 = Some p \<and> p \<le> cur) \<longleftrightarrow> next_price target g lst \<le> cur"
    if "g \<le> 2 * target" for g
    using that by (simp add: compute_next_price_eq [OF assms] min_def)
  show ?thesis
  proof (cases "next_price target 0 lst \<le> cur")
    case True
    have "(\<exists>p. compute_next_price target g lst 0 = Some p \<and> p \<le> cur) = (g \<le> m)" if "g \<le> 2 * target" for g
      unfolding price [OF that] using m(3) True that by blast
    with m(1,2) show ?thesis
      unfolding price [OF le0] using True by (intro exI [of _ m]) simp
  next
    case False
    with m(1,2,4) show ?thesis
      unfolding price [OF le0] by (intro exI [of _ m]) simp
  qed
qed

theorem max_possible_gas_maximal_witness:
  "\<exists>m. estimate_max_possible_gas 100 22 20 = Some m \<and> m \<le> 200 \<and> prices_fit 100 20"
  using max_possible_gas_maximal [of 100 20 22] by (auto simp: prices_fit_def)

end
