(* ===== verification/Root_Lookup.thy ===== *)
theory Root_Lookup
  imports Mazze_Prelude
begin

text \<open>
  The lookup tables behind integer roots (\<^verbatim>\<open>src/crates/mazze_math/src/nth_root/root_degree\<close>).

  For the degrees 2 to 5 the source builds, at compile time, tables of one byte per slot of
  \<^verbatim>\<open>STEP\<close> consecutive inputs (\<^verbatim>\<open>logarithmic_table.rs\<close>): the slot holds the root of its first
  input and, in the top bit, whether the root changes inside the slot. For the degrees 6 to 12
  a table of powers is searched by bisection (\<^verbatim>\<open>exponential_table.rs\<close>). The lemmas show that every
  lookup returns the floor of the root, for every input below \<^verbatim>\<open>1 << LOOKUP_BITS\<close>.

  A \<^verbatim>\<open>usize\<close> or \<^verbatim>\<open>u64\<close> computation that would overflow is \<open>None\<close>.
\<close>

section \<open>Integer roots\<close>

definition is_root :: "nat \<Rightarrow> nat \<Rightarrow> nat \<Rightarrow> bool" where
  "is_root p x r \<longleftrightarrow> r ^ p \<le> x \<and> x < Suc r ^ p"

fun nat_bits :: "nat \<Rightarrow> nat" where
  "nat_bits n = (if n = 0 then 0 else Suc (nat_bits (n div 2)))"

declare nat_bits.simps [simp del]

definition cpow :: "nat \<Rightarrow> nat \<Rightarrow> nat \<Rightarrow> nat option" where
  "cpow w b e = (if b ^ e < 2 ^ w then Some (b ^ e) else None)"

definition leading_zeros :: "nat \<Rightarrow> nat" where
  "leading_zeros x = 64 - nat_bits x"

definition get_index :: "'a list \<Rightarrow> nat \<Rightarrow> 'a option" where
  "get_index xs i = (if i < length xs then Some (xs ! i) else None)"

section \<open>Tables of roots\<close>

record lookup_param =
  lp_pow :: nat
  lp_max :: nat
  lp_last_max :: nat
  lp_first_root :: nat

record lookup =
  lk_next_root :: nat
  lk_compute :: "nat \<Rightarrow> nat option"
  lk_length :: nat
  lk_flag_bit :: bool
  lk_step :: nat
  lk_skip :: nat

record table_ctx =
  c_i :: nat
  c_x :: nat
  c_next :: nat
  c_slot :: "nat list"
  c_pow :: nat
  c_skip :: nat
  c_step :: nat
  c_flag_bit :: bool

text \<open>One slot: the branch of \<^verbatim>\<open>compute_lookup_table_inner\<close> for a batch of one.\<close>

definition fill_slot :: "table_ctx \<Rightarrow> table_ctx" where
  "fill_slot c =
    (if c_i c < c_skip c then c\<lparr>c_i := c_i c + 1\<rparr>
     else
       let c1 = c\<lparr>c_slot := (c_slot c)[c_i c := c_x c mod 256]\<rparr>;
           c2 = (if c_next c1 \<le> (c_i c1 + 1) * c_step c1 then
                   (let c3 = (if c_next c1 < (c_i c1 + 1) * c_step c1 \<and> c_flag_bit c1
                              then c1\<lparr>c_slot := (c_slot c1)[c_i c1 := or (c_slot c1 ! c_i c1) 128]\<rparr>
                              else c1);
                        c4 = c3\<lparr>c_x := c_x c3 + 1\<rparr>
                    in c4\<lparr>c_next := (c_x c4 + 1) ^ c_pow c4\<rparr>)
                 else c1)
       in c2\<lparr>c_i := c_i c2 + 1\<rparr>)"

function compute_lookup_table_inner :: "table_ctx \<Rightarrow> nat \<Rightarrow> table_ctx" where
  "compute_lookup_table_inner c batch =
    (if batch \<le> 1 then fill_slot c
     else compute_lookup_table_inner (compute_lookup_table_inner c (batch div 2)) (batch div 2))"
  by pat_completeness auto
termination
  by (relation "measure snd") auto

declare compute_lookup_table_inner.simps [simp del]

definition compute_lookup_table :: "nat \<Rightarrow> nat \<Rightarrow> nat \<Rightarrow> nat \<Rightarrow> nat \<Rightarrow> bool \<Rightarrow> nat list" where
  "compute_lookup_table n pow step skip first flag_bit =
    c_slot (compute_lookup_table_inner
      \<lparr>c_i = 0, c_x = first, c_next = (first + 1) ^ pow, c_slot = replicate n 0, c_pow = pow,
       c_skip = skip, c_step = step, c_flag_bit = flag_bit\<rparr> n)"

definition step_size_bound :: "nat \<Rightarrow> nat \<Rightarrow> nat \<Rightarrow> (nat \<Rightarrow> nat \<Rightarrow> nat) \<Rightarrow> nat" where
  "step_size_bound pow root max_leading_zero gap =
    (case (cpow 64 root pow, cpow 64 (root + 1) pow) of
       (Some a, Some b) \<Rightarrow> max max_leading_zero (leading_zeros (gap a b))
     | _ \<Rightarrow> max_leading_zero)"

primrec step_size_loop :: "nat \<Rightarrow> nat \<Rightarrow> nat \<Rightarrow> nat \<Rightarrow> nat \<times> nat" where
  "step_size_loop pow root mlz 0 = (root, mlz)"
| "step_size_loop pow root mlz (Suc k) =
    step_size_loop pow (root + 1)
      (step_size_bound pow root mlz (\<lambda>a b. xor (a - 1) (b - 1))) k"

definition estimate_step_size :: "nat \<Rightarrow> nat \<Rightarrow> nat" where
  "estimate_step_size pow start_root =
    (let (root, mlz) = step_size_loop pow start_root 0 10;
         mlz' = step_size_bound pow root mlz (\<lambda>a b. b - a)
     in 2 ^ (64 - 1 - mlz'))"

definition lookup_compute :: "nat \<Rightarrow> nat \<Rightarrow> bool \<Rightarrow> nat list \<Rightarrow> nat \<Rightarrow> nat option" where
  "lookup_compute pow step flag_bit table input = do {
     ans \<leftarrow> get_index table (input div step);
     let (flag, root) =
       (if flag_bit then (0 < and ans 128, and ans 127) else (True, ans));
     if \<not> flag then Some root
     else do {
       next_pow \<leftarrow> cpow 64 (root + 1) pow;
       Some (if input < next_pow then root else root + 1)
     }
   }"

definition build_lookup :: "lookup_param \<Rightarrow> lookup" where
  "build_lookup p =
    (let full_house = (lp_pow p < 8 \<and> lp_max p = 2 ^ (8 * lp_pow p));
         step = estimate_step_size (lp_pow p) (lp_first_root p);
         len = lp_max p div step;
         skip = lp_last_max p div step;
         flag_bit = (1 < step \<and> \<not> full_house);
         table = compute_lookup_table len (lp_pow p) step skip (lp_first_root p) flag_bit;
         last_root = (if flag_bit then and (table ! (len - 1)) 127 else table ! (len - 1));
         next_root = (if lp_max p < (last_root + 1) ^ lp_pow p then last_root
                      else (last_root + 1) mod 256)
     in \<lparr>lk_next_root = next_root,
         lk_compute = lookup_compute (lp_pow p) step flag_bit table,
         lk_length = len, lk_flag_bit = flag_bit, lk_step = step, lk_skip = skip\<rparr>)"

definition init_lookup_params :: "nat \<Rightarrow> nat \<Rightarrow> lookup_param" where
  "init_lookup_params pow mx =
    \<lparr>lp_pow = pow, lp_max = mx, lp_last_max = 4 ^ pow, lp_first_root = 4\<rparr>"

definition build_lookup_params :: "lookup_param \<Rightarrow> lookup \<Rightarrow> nat \<Rightarrow> lookup_param" where
  "build_lookup_params last_param last_build mx =
    \<lparr>lp_pow = lp_pow last_param, lp_max = mx, lp_last_max = lp_max last_param,
     lp_first_root = lk_next_root last_build\<rparr>"

definition nth_root_lookup_in_nibble :: "nat \<Rightarrow> nat \<Rightarrow> nat option" where
  "nth_root_lookup_in_nibble n input =
    (if input < 4 ^ n then
       (if 3 ^ n \<le> input then Some 3
        else if 2 ^ n \<le> input then Some 2
        else if 1 \<le> input then Some 1
        else Some 0)
     else None)"

text \<open>The common body of \<^verbatim>\<open>sqrt_lookup\<close>, \<^verbatim>\<open>cbrt_lookup\<close>, \<^verbatim>\<open>rt4_lookup\<close> and \<^verbatim>\<open>rt5_lookup\<close>.\<close>

definition lookup_cascade :: "nat \<Rightarrow> nat \<Rightarrow> lookup_param \<Rightarrow> nat \<Rightarrow> nat \<Rightarrow> nat \<Rightarrow> nat option" where
  "lookup_cascade lookup_bits n p1 max2 max3 input =
    (if \<not> input < 2 ^ lookup_bits then None
     else case nth_root_lookup_in_nibble n input of
       Some ans \<Rightarrow> Some ans
     | None \<Rightarrow>
         (let b1 = build_lookup p1;
              p2 = build_lookup_params p1 b1 max2;
              b2 = build_lookup p2;
              p3 = build_lookup_params p2 b2 max3;
              b3 = build_lookup p3
          in if input < lp_max p1 then lk_compute b1 input
             else if input < lp_max p2 then lk_compute b2 input
             else if input < lp_max p3 then lk_compute b3 input
             else None))"

definition sqrt_lookup :: "nat \<Rightarrow> nat option" where
  "sqrt_lookup = lookup_cascade 16 2
     \<lparr>lp_pow = 2, lp_max = 2 ^ 9, lp_last_max = 16, lp_first_root = 4\<rparr> (2 ^ 12) (2 ^ 16)"

definition cbrt_lookup :: "nat \<Rightarrow> nat option" where
  "cbrt_lookup = lookup_cascade 20 3 (init_lookup_params 3 (2 ^ 12)) (2 ^ 16) (2 ^ 20)"

definition rt4_lookup :: "nat \<Rightarrow> nat option" where
  "rt4_lookup = lookup_cascade 25 4 (init_lookup_params 4 (2 ^ 15)) (2 ^ 20) (2 ^ 25)"

definition rt5_lookup :: "nat \<Rightarrow> nat option" where
  "rt5_lookup = lookup_cascade 28 5 (init_lookup_params 5 (2 ^ 17)) (2 ^ 22) (2 ^ 28)"

section \<open>Tables of powers\<close>

definition make_table_u32 :: "nat \<Rightarrow> nat \<Rightarrow> nat list" where
  "make_table_u32 n pow =
    map (\<lambda>i. let v = (i + 2) ^ pow in if u32_max < v then 0 else v) [0..<n]"

definition make_table_u64 :: "nat \<Rightarrow> nat \<Rightarrow> nat list" where
  "make_table_u64 n pow = map (\<lambda>i. (i + 2) ^ pow) [0..<n]"

function search_loop :: "nat \<Rightarrow> nat list \<Rightarrow> nat \<Rightarrow> nat \<Rightarrow> nat option" where
  "search_loop input table index step =
    (if 1 < step then do {
       let step = step div 2;
       v \<leftarrow> get_index table index;
       index \<leftarrow> (if input < v \<or> v = 0 then csub index step else Some (index + step));
       search_loop input table index step
     } else do {
       v \<leftarrow> get_index table index;
       idx \<leftarrow> (if input < v \<or> v = 0 then csub index 1 else Some index);
       Some (2 + idx)
     })"
  by pat_completeness auto
termination
  by (relation "measure (\<lambda>(input, table, index, step). step)") auto

declare search_loop.simps [simp del]

definition search_table :: "nat \<Rightarrow> nat list \<Rightarrow> nat \<Rightarrow> nat option" where
  "search_table input table pow =
    (if input < 2 ^ pow then Some (if 1 \<le> input then 1 else 0)
     else search_loop input table (length table div 2) (length table div 2))"

section \<open>Degrees\<close>

definition lookup_bits :: "nat \<Rightarrow> nat" where
  "lookup_bits n =
    (if n = 2 then 16 else if n = 3 then 20 else if n = 4 then 25 else if n = 5 then 28
     else if n = 6 then 30 else if n = 7 then 28 else if n = 8 then 32 else if n = 9 then 36
     else if n = 10 then 40 else if n = 11 then 44 else if n = 12 then 48 else 0)"

definition nth_root_lookup :: "nat \<Rightarrow> nat \<Rightarrow> nat option" where
  "nth_root_lookup n input =
    (if n = 2 then sqrt_lookup input
     else if n = 3 then cbrt_lookup input
     else if n = 4 then rt4_lookup input
     else if n = 5 then rt5_lookup input
     else if n = 6 then search_table input (make_table_u32 32 6) 6
     else if n = 7 \<or> n = 8 then search_table input (make_table_u32 16 n) n
     else if n \<in> {9, 10, 11, 12} then search_table input (make_table_u64 16 n) n
     else None)"

section \<open>Facts about roots\<close>

lemma is_root_unique: "is_root p x r \<Longrightarrow> is_root p x s \<Longrightarrow> r = s"
proof -
  have lt: "\<not> a < b" if "is_root p x a" "is_root p x b" for a b
    using that power_mono [of "Suc a" b p] by (force simp: is_root_def)
  show "is_root p x r \<Longrightarrow> is_root p x s \<Longrightarrow> r = s"
    using lt nat_neq_iff by blast
qed

lemma is_root_mono: "is_root p x r \<Longrightarrow> is_root p y s \<Longrightarrow> x \<le> y \<Longrightarrow> r \<le> s"
  using power_mono [of "Suc s" r p] by (force simp: is_root_def not_less [symmetric])

lemma pow_gap_mono:
  "(x::nat) \<le> y \<Longrightarrow> int (Suc x) ^ p - int x ^ p \<le> int (Suc y) ^ p - int y ^ p"
proof (induction p)
  case (Suc p)
  have split: "int (Suc z) ^ Suc p - int z ^ Suc p
      = int (Suc z) ^ p + int z * (int (Suc z) ^ p - int z ^ p)" for z
    by (simp add: algebra_simps)
  have "int x * (int (Suc x) ^ p - int x ^ p) \<le> int y * (int (Suc y) ^ p - int y ^ p)"
    using Suc by (intro mult_mono) (auto simp: power_mono)
  moreover have "int (Suc x) ^ p \<le> int (Suc y) ^ p"
    using Suc.prems by (intro power_mono) auto
  ultimately show ?case
    unfolding split by linarith
qed simp

lemma pow_gap_ge:
  fixes a x y p :: nat
  assumes "x \<le> y" and "a + x ^ p \<le> Suc x ^ p"
  shows "a + y ^ p \<le> Suc y ^ p"
proof -
  have "int a + int x ^ p \<le> int (Suc x) ^ p"
    using assms(2) by (metis of_nat_add of_nat_le_iff of_nat_power)
  then have "int (a + y ^ p) \<le> int (Suc y ^ p)"
    using pow_gap_mono [OF assms(1), of p] by simp
  then show ?thesis
    by (simp only: of_nat_le_iff)
qed

section \<open>Tables of roots: correctness\<close>

lemma low_bits_byte: "x < 256 \<Longrightarrow> and x 127 = x mod (128::nat)"
  using take_bit_eq_mask [of 7 x] by (simp add: take_bit_eq_mod mask_eq_exp_minus_1)

lemma flag_byte:
  assumes "x < 128"
  shows "or x 128 = x + (128::nat)" "and (or x 128) 127 = x" "0 < and (or x 128) (128::nat)"
    "and x 127 = x" "\<not> 0 < and x (128::nat)"
proof -
  have bit7: "\<not> bit x 7"
    using assms by (simp add: bit_iff_odd)
  have b128: "bit (128::nat) n \<longleftrightarrow> n = 7" for n
    using bit_exp_iff [where 'a = nat, of 7 n] by auto
  show z: "\<not> 0 < and x (128::nat)"
    using bit7 by (auto intro!: bit_eqI simp: bit_and_iff b128)
  show "or x 128 = x + (128::nat)"
    using disjunctive_add_eq_or [of x "128::nat"] z by simp
  then show "and (or x 128) 127 = x"
    using assms low_bits_byte [of "x + 128"] by simp
  have "bit (and (or x 128) (128::nat)) 7"
    by (simp only: bit_and_iff bit_or_iff b128 simp_thms)
  then show "0 < and (or x 128) (128::nat)"
    by (metis bit_0_eq bot_apply bot_bool_def gr_zeroI)
  show "and x 127 = x"
    using assms low_bits_byte [of x] by simp
qed

text \<open>
  The contract of one table: \<open>bound\<close> is the number of roots a byte can hold (128 when the top bit
  is the flag), and no slot contains two changes of the root.
\<close>

definition no_double_step :: "nat \<Rightarrow> nat \<Rightarrow> nat \<Rightarrow> bool" where
  "no_double_step p s x \<longleftrightarrow> ((Suc x ^ p - 1) div s + 1) * s < Suc (Suc x) ^ p"

definition encodes :: "nat \<Rightarrow> nat \<Rightarrow> nat \<Rightarrow> bool \<Rightarrow> nat \<Rightarrow> nat \<Rightarrow> nat \<Rightarrow> bool" where
  "encodes p s lm flag j v r \<longleftrightarrow>
     r ^ p \<le> max (j * s) lm \<and> j * s < Suc r ^ p \<and> (j + 1) * s < Suc (Suc r) ^ p \<and>
     v = (if flag \<and> Suc r ^ p < (j + 1) * s then or r 128 else r)"

definition ctx_ok :: "nat \<Rightarrow> nat \<Rightarrow> nat \<Rightarrow> table_ctx \<Rightarrow> bool" where
  "ctx_ok lm f n c \<longleftrightarrow>
     length (c_slot c) = n \<and> f \<le> c_x c \<and> c_next c = Suc (c_x c) ^ c_pow c \<and>
     c_x c ^ c_pow c \<le> max (c_i c * c_step c) lm \<and>
     c_i c * c_step c < Suc (c_x c) ^ c_pow c \<and>
     (c_i c < c_skip c \<longrightarrow> c_skip c * c_step c < Suc (c_x c) ^ c_pow c) \<and>
     (\<forall>j. c_skip c \<le> j \<longrightarrow> j < c_i c \<longrightarrow>
        (\<exists>r. encodes (c_pow c) (c_step c) lm (c_flag_bit c) j (c_slot c ! j) r))"

lemma power_less_imp_base_less: "(x::nat) ^ p < b ^ p \<Longrightarrow> x < b"
  using power_mono [of b x p] by (meson leD le0 not_le_imp_less)

lemma no_double_stepD:
  assumes "no_double_step p s x" "i * s < Suc x ^ p" "0 < s"
  shows "(i + 1) * s < Suc (Suc x) ^ p"
proof -
  have "i * s \<le> Suc x ^ p - 1"
    using assms(2) by simp
  then have "i \<le> (Suc x ^ p - 1) div s"
    using assms(3) by (simp add: less_eq_div_iff_mult_less_eq)
  then have "(i + 1) * s \<le> ((Suc x ^ p - 1) div s + 1) * s"
    by (intro mult_le_mono) auto
  then show ?thesis
    using assms(1) unfolding no_double_step_def by (rule le_less_trans)
qed

lemma fill_slot_params:
  "c_pow (fill_slot c) = c_pow c" "c_skip (fill_slot c) = c_skip c"
  "c_step (fill_slot c) = c_step c" "c_flag_bit (fill_slot c) = c_flag_bit c"
  "c_i (fill_slot c) = Suc (c_i c)"
  by (auto simp: fill_slot_def Let_def)

lemma inner_funpow: "compute_lookup_table_inner c (2 ^ k) = (fill_slot ^^ (2 ^ k)) c"
proof (induction k arbitrary: c)
  case (Suc k)
  have "\<not> 2 ^ Suc k \<le> (1::nat)" "(2::nat) ^ Suc k div 2 = 2 ^ k"
    using one_less_power [of "2::nat" "Suc k"] by simp_all
  moreover have "(fill_slot ^^ 2 ^ Suc k) c = (fill_slot ^^ 2 ^ k) ((fill_slot ^^ 2 ^ k) c)"
    by (simp add: mult_2 funpow_add)
  ultimately show ?case
    by (subst compute_lookup_table_inner.simps) (simp add: Suc del: power_Suc)
qed (simp add: compute_lookup_table_inner.simps)

lemma fill_slot_ok:
  assumes ok: "ctx_ok lm f n c" and i: "c_i c < n" and s: "0 < c_step c"
    and nd: "\<And>x. f \<le> x \<Longrightarrow> no_double_step (c_pow c) (c_step c) x"
    and fits: "max (c_i c * c_step c) lm < (if c_flag_bit c then 128 else 256) ^ c_pow c"
  shows "ctx_ok lm f n (fill_slot c)"
proof (cases "c_i c < c_skip c")
  case True
  have "(c_i c + 1) * c_step c \<le> c_skip c * c_step c"
    using True by (intro mult_le_mono1) simp
  then show ?thesis
    using ok True unfolding ctx_ok_def by (auto simp: fill_slot_def less_Suc_eq)
next
  case False
  let ?p = "c_pow c" and ?s = "c_step c" and ?x = "c_x c" and ?i = "c_i c"
  let ?v = "if c_flag_bit c \<and> Suc ?x ^ ?p < (?i + 1) * ?s then or ?x 128 else ?x"
  have len: "length (c_slot c) = n" and fx: "f \<le> ?x" and nx: "c_next c = Suc ?x ^ ?p"
    and lo: "?x ^ ?p \<le> max (?i * ?s) lm" and hi: "?i * ?s < Suc ?x ^ ?p"
    and old: "\<And>j. c_skip c \<le> j \<Longrightarrow> j < ?i \<Longrightarrow> \<exists>r. encodes ?p ?s lm (c_flag_bit c) j (c_slot c ! j) r"
    using ok by (auto simp: ctx_ok_def)
  have up: "(?i + 1) * ?s < Suc (Suc ?x) ^ ?p"
    using no_double_stepD [OF nd [OF fx] hi s] .
  have "?x ^ ?p < (if c_flag_bit c then 128 else 256) ^ ?p"
    using lo fits by (rule le_less_trans)
  then have "?x < (if c_flag_bit c then 128 else 256)"
    by (rule power_less_imp_base_less)
  then have byte: "?x < 256"
    by (simp split: if_splits)
  have slot: "c_slot (fill_slot c) = (c_slot c)[?i := ?v]"
    using False byte i len nx by (auto simp: fill_slot_def Let_def)
  have x': "c_x (fill_slot c) = (if Suc ?x ^ ?p \<le> (?i + 1) * ?s then Suc ?x else ?x)"
    using False nx by (simp add: fill_slot_def Let_def)
  have next': "c_next (fill_slot c) = Suc (c_x (fill_slot c)) ^ ?p"
    using False nx by (simp add: fill_slot_def Let_def)
  have new: "encodes ?p ?s lm (c_flag_bit c) ?i ?v ?x"
    using lo hi up by (simp add: encodes_def)
  have enc: "\<exists>r. encodes ?p ?s lm (c_flag_bit c) j ((c_slot c)[?i := ?v] ! j) r"
    if "c_skip c \<le> j" "j < Suc ?i" for j
    using old [of j] new that i len by (cases "j = ?i") (auto simp: less_Suc_eq)
  have lo': "c_x (fill_slot c) ^ ?p \<le> max ((?i + 1) * ?s) lm"
    unfolding x' using lo by (auto simp: max_def split: if_splits)
  have hi': "(?i + 1) * ?s < Suc (c_x (fill_slot c)) ^ ?p"
    unfolding x' using up by (auto simp: not_le)
  have "f \<le> c_x (fill_slot c)"
    unfolding x' using fx by simp
  then show ?thesis
    using enc lo' hi' False len unfolding ctx_ok_def fill_slot_params slot next'
    by simp
qed

text \<open>The conditions under which a table is right, all about the constants of the source.\<close>

definition table_params :: "nat \<Rightarrow> nat \<Rightarrow> nat \<Rightarrow> nat \<Rightarrow> nat \<Rightarrow> nat \<Rightarrow> bool \<Rightarrow> bool" where
  "table_params k p s lm mx f flag \<longleftrightarrow>
     0 < s \<and> 0 < p \<and> p < 8 \<and> mx = 2 ^ k * s \<and> lm < mx \<and>
     f ^ p \<le> lm \<and> lm div s * s < Suc f ^ p \<and>
     mx \<le> (if flag then 128 else 256) ^ p"

lemma table_iter:
  assumes tp: "table_params k p s lm mx f flag"
    and nd: "\<And>x. f \<le> x \<Longrightarrow> no_double_step p s x"
    and c0: "c0 = \<lparr>c_i = 0, c_x = f, c_next = (f + 1) ^ p, c_slot = replicate (2 ^ k) 0,
      c_pow = p, c_skip = lm div s, c_step = s, c_flag_bit = flag\<rparr>"
    and m: "m \<le> 2 ^ k"
  shows "ctx_ok lm f (2 ^ k) ((fill_slot ^^ m) c0) \<and> c_i ((fill_slot ^^ m) c0) = m \<and>
    c_pow ((fill_slot ^^ m) c0) = p \<and> c_skip ((fill_slot ^^ m) c0) = lm div s \<and>
    c_step ((fill_slot ^^ m) c0) = s \<and> c_flag_bit ((fill_slot ^^ m) c0) = flag"
  using m
proof (induction m)
  case 0
  then show ?case
    using tp by (simp add: c0 ctx_ok_def table_params_def)
next
  case (Suc m)
  let ?c = "(fill_slot ^^ m) c0"
  have IH: "ctx_ok lm f (2 ^ k) ?c" "c_i ?c = m" "c_pow ?c = p" "c_skip ?c = lm div s"
    "c_step ?c = s" "c_flag_bit ?c = flag"
    using Suc by auto
  have "max (m * s) lm < mx" "mx \<le> (if flag then 128 else 256) ^ p"
    using Suc.prems tp by (simp_all add: table_params_def)
  then have "max (c_i ?c * c_step ?c) lm < (if c_flag_bit ?c then 128 else 256) ^ c_pow ?c"
    unfolding IH by (rule less_le_trans)
  then have "ctx_ok lm f (2 ^ k) (fill_slot ?c)"
    using fill_slot_ok [OF IH(1)] IH Suc.prems nd tp by (simp add: table_params_def)
  then show ?case
    using IH by (simp add: fill_slot_params)
qed

lemma table_encodes:
  assumes "table_params k p s lm mx f flag" "\<And>x. f \<le> x \<Longrightarrow> no_double_step p s x"
  shows "length (compute_lookup_table (2 ^ k) p s (lm div s) f flag) = 2 ^ k"
    and "lm div s \<le> j \<Longrightarrow> j < 2 ^ k \<Longrightarrow>
      \<exists>r. encodes p s lm flag j (compute_lookup_table (2 ^ k) p s (lm div s) f flag ! j) r"
proof -
  define c where "c = compute_lookup_table_inner \<lparr>c_i = 0, c_x = f, c_next = (f + 1) ^ p,
    c_slot = replicate (2 ^ k) 0, c_pow = p, c_skip = lm div s, c_step = s, c_flag_bit = flag\<rparr> (2 ^ k)"
  have c: "ctx_ok lm f (2 ^ k) c" "c_i c = 2 ^ k" "c_pow c = p" "c_skip c = lm div s"
    "c_step c = s" "c_flag_bit c = flag"
    using table_iter [OF assms refl order_refl] unfolding c_def inner_funpow by blast+
  have t: "compute_lookup_table (2 ^ k) p s (lm div s) f flag = c_slot c"
    by (simp only: compute_lookup_table_def c_def)
  show "length (compute_lookup_table (2 ^ k) p s (lm div s) f flag) = 2 ^ k"
    using c(1) unfolding t ctx_ok_def by blast
  show "lm div s \<le> j \<Longrightarrow> j < 2 ^ k \<Longrightarrow>
      \<exists>r. encodes p s lm flag j (compute_lookup_table (2 ^ k) p s (lm div s) f flag ! j) r"
    using c(1) [unfolded ctx_ok_def c(2-6)] unfolding t by blast
qed

lemma encodes_root_bound:
  assumes tp: "table_params k p s lm mx f flag" and e: "encodes p s lm flag j v r"
    and j: "j < 2 ^ k"
  shows "r < (if flag then 128 else 256)" "Suc r ^ p < 2 ^ 64" "flag \<Longrightarrow> and v 127 = r"
    "\<not> flag \<Longrightarrow> v = r" "flag \<Longrightarrow> 0 < and v 128 \<longleftrightarrow> Suc r ^ p < (j + 1) * s"
proof -
  have "r ^ p \<le> max (j * s) lm"
    using e by (simp add: encodes_def)
  also have "max (j * s) lm < mx"
    using j tp by (simp add: table_params_def)
  finally have "r ^ p < mx" .
  then have "r ^ p < (if flag then 128 else 256) ^ p"
    using tp unfolding table_params_def by linarith
  then show b: "r < (if flag then 128 else 256)"
    by (rule power_less_imp_base_less)
  then have "Suc r ^ p \<le> 256 ^ p"
    by (intro power_mono) (auto split: if_splits)
  also have "(256::nat) ^ p \<le> 256 ^ 7"
    using tp by (intro power_increasing) (auto simp: table_params_def)
  finally show "Suc r ^ p < 2 ^ 64"
    by simp
  show "flag \<Longrightarrow> and v 127 = r" "\<not> flag \<Longrightarrow> v = r" "flag \<Longrightarrow> 0 < and v 128 \<longleftrightarrow> Suc r ^ p < (j + 1) * s"
    using e b flag_byte [of r] by (auto simp: encodes_def)
qed

lemma lookup_compute_root:
  assumes tp: "table_params k p s lm mx f flag"
    and nd: "\<And>x. f \<le> x \<Longrightarrow> no_double_step p s x" and x: "lm \<le> x" "x < mx"
  shows "\<exists>r. lookup_compute p s flag (compute_lookup_table (2 ^ k) p s (lm div s) f flag) x = Some r
    \<and> is_root p x r"
proof -
  let ?t = "compute_lookup_table (2 ^ k) p s (lm div s) f flag" and ?j = "x div s"
  have s: "0 < s"
    using tp by (simp add: table_params_def)
  have j: "?j < 2 ^ k" "lm div s \<le> ?j"
    using tp x by (auto simp: table_params_def less_mult_imp_div_less div_le_mono)
  obtain r where e: "encodes p s lm flag ?j (?t ! ?j) r"
    using table_encodes(2) [OF tp nd j(2,1)] by blast
  note b = encodes_root_bound [OF tp e j(1)]
  have js: "?j * s \<le> x"
    by simp
  have sj: "x < (?j + 1) * s"
    using s dividend_less_div_times [of s x] by simp
  have "r ^ p \<le> max (?j * s) lm"
    using e by (simp add: encodes_def)
  also have "\<dots> \<le> x"
    using js x(1) by simp
  finally have lo: "r ^ p \<le> x" .
  have hi: "x < Suc (Suc r) ^ p"
    using e sj unfolding encodes_def by linarith
  have g: "get_index ?t ?j = Some (?t ! ?j)"
    using j(1) table_encodes(1) [OF tp nd] by (simp add: get_index_def)
  show ?thesis
  proof (cases "flag \<and> \<not> Suc r ^ p < (?j + 1) * s")
    case True
    then have "lookup_compute p s flag ?t x = Some r"
      using g b(3,5) by (simp add: lookup_compute_def)
    moreover have "is_root p x r"
      using True lo sj by (simp add: is_root_def)
    ultimately show ?thesis by blast
  next
    case False
    then have "lookup_compute p s flag ?t x = Some (if x < Suc r ^ p then r else Suc r)"
      using g b by (cases flag) (auto simp: lookup_compute_def cpow_def)
    moreover have "is_root p x (if x < Suc r ^ p then r else Suc r)"
      using lo hi by (auto simp: is_root_def)
    ultimately show ?thesis by blast
  qed
qed

lemma build_lookup_spec:
  fixes k p s lm mx f r :: nat
  defines "flag \<equiv> 1 < s \<and> mx \<noteq> 2 ^ (8 * p)"
  assumes step: "estimate_step_size p f = s"
    and tp: "table_params k p s lm mx f flag"
    and nd: "\<And>x. f \<le> x \<Longrightarrow> no_double_step p s x"
    and lst: "lm \<le> (2 ^ k - 1) * s" "is_root p ((2 ^ k - 1) * s) r"
    and P: "P = \<lparr>lp_pow = p, lp_max = mx, lp_last_max = lm, lp_first_root = f\<rparr>"
  shows "lk_next_root (build_lookup P) = (if mx < (r + 1) ^ p then r else (r + 1) mod 256)"
    and "lm \<le> x \<Longrightarrow> x < mx \<Longrightarrow> \<exists>q. lk_compute (build_lookup P) x = Some q \<and> is_root p x q"
proof -
  let ?t = "compute_lookup_table (2 ^ k) p s (lm div s) f flag"
  have p: "p < 8" "0 < s" "mx = 2 ^ k * s"
    using tp by (auto simp: table_params_def)
  have len: "mx div s = 2 ^ k"
    using p by simp
  have last: "lm div s \<le> 2 ^ k - 1" "2 ^ k - 1 < (2::nat) ^ k"
    using div_le_mono [OF lst(1), of s] p(2) by simp_all
  obtain r' where e: "encodes p s lm flag (2 ^ k - 1) (?t ! (2 ^ k - 1)) r'"
    using table_encodes(2) [OF tp nd last] by blast
  then have "is_root p ((2 ^ k - 1) * s) r'"
    using lst(1) unfolding encodes_def is_root_def by (simp add: max_def)
  then have r': "r' = r"
    using lst(2) is_root_unique by blast
  have dec: "(if flag then and (?t ! (2 ^ k - 1)) 127 else ?t ! (2 ^ k - 1)) = r"
    using encodes_root_bound(3,4) [OF tp e last(2)] r' by simp
  have flag: "(1 < s \<and> \<not> (p < 8 \<and> mx = 2 ^ (8 * p))) = flag"
    using p by (simp add: flag_def)
  show "lk_next_root (build_lookup P) = (if mx < (r + 1) ^ p then r else (r + 1) mod 256)"
    unfolding build_lookup_def Let_def P lookup_param.simps lookup.simps step len flag dec ..
  show "\<exists>q. lk_compute (build_lookup P) x = Some q \<and> is_root p x q" if "lm \<le> x" "x < mx"
    using lookup_compute_root [OF tp nd that]
    unfolding build_lookup_def Let_def P lookup_param.simps lookup.simps step len flag .
qed

lemma no_double_step_gap:
  assumes "s + Suc g ^ p \<le> Suc (Suc g) ^ p" "g \<le> x" "0 < s"
  shows "no_double_step p s x"
proof -
  have "((Suc x ^ p - 1) div s + 1) * s = (Suc x ^ p - 1) div s * s + s"
    by simp
  also have "\<dots> \<le> Suc x ^ p - 1 + s"
    by (intro add_right_mono div_times_less_eq_dividend)
  also have "\<dots> < s + Suc x ^ p"
    using zero_less_power [of "Suc x" p] by linarith
  also have "\<dots> \<le> Suc (Suc x) ^ p"
    using pow_gap_ge [of "Suc g" "Suc x" s p] assms by simp
  finally show ?thesis
    unfolding no_double_step_def .
qed

lemma step_size_loop_numeral:
  "step_size_loop pow root mlz (numeral k) =
    step_size_loop pow (root + 1)
      (step_size_bound pow root mlz (\<lambda>a b. xor (a - 1) (b - 1))) (pred_numeral k)"
  by (simp add: numeral_eq_Suc)

lemma nat_bits_numeral:
  "nat_bits 0 = 0" "nat_bits (Suc 0) = 1" "nat_bits 1 = 1"
  "nat_bits (numeral n) = Suc (nat_bits (numeral n div 2))"
  by (simp_all add: nat_bits.simps)

lemmas step_eval = estimate_step_size_def step_size_loop_numeral step_size_bound_def cpow_def
  leading_zeros_def nat_bits_numeral

lemma step_sizes:
  "estimate_step_size 2 4 = 8" "estimate_step_size 2 22 = 32" "estimate_step_size 2 64 = 128"
  "estimate_step_size 3 4 = 64" "estimate_step_size 3 16 = 1024" "estimate_step_size 3 40 = 4096"
  "estimate_step_size 4 4 = 512" "estimate_step_size 4 13 = 8192"
  "estimate_step_size 4 32 = 131072"
  "estimate_step_size 5 4 = 2048" "estimate_step_size 5 10 = 65536"
  "estimate_step_size 5 21 = 1048576"
  by (simp_all add: step_eval)

definition lookup_right :: "nat \<Rightarrow> nat \<Rightarrow> nat \<Rightarrow> nat \<Rightarrow> nat \<Rightarrow> bool" where
  "lookup_right p mx lm f nr \<longleftrightarrow>
     (let b = build_lookup \<lparr>lp_pow = p, lp_max = mx, lp_last_max = lm, lp_first_root = f\<rparr>
      in lk_next_root b = nr \<and>
         (\<forall>x. lm \<le> x \<longrightarrow> x < mx \<longrightarrow> (\<exists>q. lk_compute b x = Some q \<and> is_root p x q)))"

lemma lookup_rightI:
  assumes "estimate_step_size p f = s" "table_params k p s lm mx f (1 < s \<and> mx \<noteq> 2 ^ (8 * p))"
    and "\<forall>x \<in> {f..<g}. no_double_step p s x" "s + Suc g ^ p \<le> Suc (Suc g) ^ p"
    and "lm \<le> (2 ^ k - 1) * s" "is_root p ((2 ^ k - 1) * s) r"
    and "nr = (if mx < (r + 1) ^ p then r else (r + 1) mod 256)"
  shows "lookup_right p mx lm f nr"
proof -
  have nd: "no_double_step p s x" if "f \<le> x" for x
    using assms(2,3) no_double_step_gap [OF assms(4), of x] that
    by (cases "x < g") (auto simp: table_params_def)
  show ?thesis
    unfolding lookup_right_def Let_def
    using build_lookup_spec [OF assms(1,2) nd assms(5,6) refl] assms(7) by simp
qed

lemma sqrt_tables:
  "lookup_right 2 512 16 4 22" "lookup_right 2 4096 512 22 64" "lookup_right 2 65536 4096 64 0"
  by (rule lookup_rightI [OF step_sizes(1), where k = 6 and g = 4 and r = 22]
           lookup_rightI [OF step_sizes(2), where k = 7 and g = 22 and r = 63]
           lookup_rightI [OF step_sizes(3), where k = 9 and g = 64 and r = 255];
      simp add: table_params_def is_root_def)+

lemma single_root: "{16..<17::nat} = {16}"
  by auto

lemma cbrt_tables:
  "lookup_right 3 4096 64 4 16" "lookup_right 3 65536 4096 16 40"
  "lookup_right 3 1048576 65536 40 101"
  by (rule lookup_rightI [OF step_sizes(4), where k = 6 and g = 4 and r = 15]
           lookup_rightI [OF step_sizes(5), where k = 6 and g = 17 and r = 40]
           lookup_rightI [OF step_sizes(6), where k = 8 and g = 40 and r = 101];
      simp add: table_params_def is_root_def no_double_step_def single_root)+

lemma rt4_tables:
  "lookup_right 4 32768 256 4 13" "lookup_right 4 1048576 32768 13 32"
  "lookup_right 4 33554432 1048576 32 76"
  by (rule lookup_rightI [OF step_sizes(7), where k = 6 and g = 4 and r = 13]
           lookup_rightI [OF step_sizes(8), where k = 7 and g = 13 and r = 31]
           lookup_rightI [OF step_sizes(9), where k = 8 and g = 32 and r = 76];
      simp add: table_params_def is_root_def)+

lemma rt5_tables:
  "lookup_right 5 131072 1024 4 10" "lookup_right 5 4194304 131072 10 21"
  "lookup_right 5 268435456 4194304 21 48"
  by (rule lookup_rightI [OF step_sizes(10), where k = 6 and g = 4 and r = 10]
           lookup_rightI [OF step_sizes(11), where k = 6 and g = 10 and r = 21]
           lookup_rightI [OF step_sizes(12), where k = 8 and g = 21 and r = 48];
      simp add: table_params_def is_root_def)+

lemma nibble_root:
  assumes "0 < n" "nth_root_lookup_in_nibble n x = Some r"
  shows "is_root n x r"
  using assms by (auto simp: nth_root_lookup_in_nibble_def is_root_def zero_power eval_nat_numeral split: if_splits)

lemma lookup_cascade_root:
  assumes t: "lookup_right n m1 (4 ^ n) 4 r1" "lookup_right n m2 m1 r1 r2" "lookup_right n m3 m2 r2 r3"
    and "2 ^ bits \<le> m3" "0 < n" "x < 2 ^ bits"
    and p1: "p1 = \<lparr>lp_pow = n, lp_max = m1, lp_last_max = 4 ^ n, lp_first_root = 4\<rparr>"
  shows "\<exists>r. lookup_cascade bits n p1 m2 m3 x = Some r \<and> is_root n x r"
proof (cases "nth_root_lookup_in_nibble n x")
  case None
  then have "4 ^ n \<le> x"
    by (simp add: nth_root_lookup_in_nibble_def split: if_splits)
  then show ?thesis
    using t assms(4-) None
    by (simp add: lookup_cascade_def lookup_right_def build_lookup_params_def Let_def)
next
  case (Some r)
  then show ?thesis
    using assms(5,6) nibble_root by (simp add: lookup_cascade_def)
qed

section \<open>Tables of powers: correctness\<close>

lemma search_loop_root:
  assumes tab: "\<And>i. i < length table \<Longrightarrow> (input < table ! i \<or> table ! i = 0) \<longleftrightarrow> input < (i + 2) ^ p"
    and "2 ^ k \<le> index" "index + 2 ^ k \<le> length table"
    and "(index - 2 ^ k + 2) ^ p \<le> input" "input < (index + 2 ^ k + 2) ^ p"
  shows "\<exists>r. search_loop input table index (2 ^ k) = Some r \<and> is_root p input r"
  using assms(2-)
proof (induction k arbitrary: index)
  case 0
  have "search_loop input table index 1 =
      Some (if input < (index + 2) ^ p then Suc index else Suc (Suc index))"
    using 0 tab [of index] by (subst search_loop.simps) (auto simp: get_index_def csub_def)
  moreover have "is_root p input (if input < (index + 2) ^ p then Suc index else Suc (Suc index))"
    using 0 by (auto simp: is_root_def not_less)
  ultimately show ?case
    by auto
next
  case (Suc k)
  have big: "1 < (2::nat) ^ Suc k" "(2::nat) ^ Suc k div 2 = 2 ^ k" "0 < (2::nat) ^ k"
    using one_less_power [of "2::nat" "Suc k"] by simp_all
  have dbl: "(2::nat) ^ Suc k = 2 ^ k + 2 ^ k"
    by simp
  have inside: "index < length table" "2 ^ k \<le> index"
    using Suc.prems(1,2) big unfolding dbl by linarith+
  have step: "search_loop input table index (2 ^ Suc k) =
      search_loop input table (if input < (index + 2) ^ p then index - 2 ^ k else index + 2 ^ k) (2 ^ k)"
    using inside tab [of index] big
    by (subst search_loop.simps) (simp add: get_index_def csub_def Let_def del: power_Suc)
  show ?case
  proof (cases "input < (index + 2) ^ p")
    case True
    have "\<exists>r. search_loop input table (index - 2 ^ k) (2 ^ k) = Some r \<and> is_root p input r"
      using Suc.prems inside True unfolding dbl by (intro Suc.IH) auto
    then show ?thesis
      using True unfolding step by simp
  next
    case False
    have "\<exists>r. search_loop input table (index + 2 ^ k) (2 ^ k) = Some r \<and> is_root p input r"
      using Suc.prems False unfolding dbl by (intro Suc.IH) (auto simp: add.assoc)
    then show ?thesis
      using False unfolding step by simp
  qed
qed

lemma search_table_root:
  assumes "\<And>i. i < length table \<Longrightarrow> (input < table ! i \<or> table ! i = 0) \<longleftrightarrow> input < (i + 2) ^ p"
    and "length table = 2 ^ Suc k" "input < (2 ^ Suc k + 2) ^ p" "0 < p"
  shows "\<exists>r. search_table input table p = Some r \<and> is_root p input r"
proof (cases "input < 2 ^ p")
  case True
  then show ?thesis
    using assms(4) by (auto simp: search_table_def is_root_def numeral_2_eq_2 zero_power)
next
  case False
  have half: "length table div 2 = 2 ^ k"
    using assms(2) by simp
  have "\<exists>r. search_loop input table (2 ^ k) (2 ^ k) = Some r \<and> is_root p input r"
    using False assms(2,3) by (intro search_loop_root [OF assms(1)]) (auto simp: mult_2 numeral_2_eq_2)
  then show ?thesis
    using False by (simp add: search_table_def half)
qed

lemma make_table_entry:
  "i < n \<Longrightarrow> x \<le> u32_max \<Longrightarrow>
    (x < make_table_u32 n p ! i \<or> make_table_u32 n p ! i = 0) \<longleftrightarrow> x < (i + 2) ^ p"
  "i < n \<Longrightarrow> (x < make_table_u64 n p ! i \<or> make_table_u64 n p ! i = 0) \<longleftrightarrow> x < (i + 2) ^ p"
  by (auto simp: make_table_u32_def make_table_u64_def Let_def)

lemma make_table_length [simp]:
  "length (make_table_u32 n p) = n" "length (make_table_u64 n p) = n"
  by (simp_all add: make_table_u32_def make_table_u64_def)

lemma search_table_u32:
  "x \<le> u32_max \<Longrightarrow> n = 2 ^ Suc k \<Longrightarrow> x < (2 ^ Suc k + 2) ^ p \<Longrightarrow> 0 < p \<Longrightarrow>
    \<exists>r. search_table x (make_table_u32 n p) p = Some r \<and> is_root p x r"
  by (rule search_table_root) (simp_all only: make_table_entry make_table_length)

lemma search_table_u64:
  "n = 2 ^ Suc k \<Longrightarrow> x < (2 ^ Suc k + 2) ^ p \<Longrightarrow> 0 < p \<Longrightarrow>
    \<exists>r. search_table x (make_table_u64 n p) p = Some r \<and> is_root p x r"
  by (rule search_table_root) (simp_all only: make_table_entry make_table_length)

lemma search_lookup_root:
  assumes "n \<in> {6, 7, 8, 9, 10, 11, 12}" "x < 2 ^ lookup_bits n"
  shows "\<exists>r. nth_root_lookup n x = Some r \<and> is_root n x r"
proof -
  have u32: ?thesis if "n \<in> {7, 8}"
  proof -
    have "x \<le> u32_max" "x < (2 ^ Suc 3 + 2) ^ n" "0 < n"
      using that assms(2) by (auto simp: lookup_bits_def)
    then have "\<exists>r. search_table x (make_table_u32 16 n) n = Some r \<and> is_root n x r"
      by (intro search_table_u32 [where k = 3]) auto
    then show ?thesis
      using that by (auto simp: nth_root_lookup_def)
  qed
  have u64: ?thesis if "n \<in> {9, 10, 11, 12}"
  proof -
    have "x < (2 ^ Suc 3 + 2) ^ n" "0 < n"
      using that assms(2) by (auto simp: lookup_bits_def)
    then have "\<exists>r. search_table x (make_table_u64 16 n) n = Some r \<and> is_root n x r"
      by (intro search_table_u64 [where k = 3]) auto
    then show ?thesis
      using that by (auto simp: nth_root_lookup_def)
  qed
  have six: ?thesis if "n = 6"
  proof -
    have "x \<le> u32_max" "x < (2 ^ Suc 4 + 2) ^ 6"
      using that assms(2) by (auto simp: lookup_bits_def)
    then have "\<exists>r. search_table x (make_table_u32 32 6) 6 = Some r \<and> is_root 6 x r"
      by (intro search_table_u32 [where k = 4]) auto
    then show ?thesis
      using that by (simp add: nth_root_lookup_def)
  qed
  show ?thesis
    using assms(1) u32 u64 six by blast
qed

lemma nth_root_lookup_root:
  assumes "2 \<le> n" "n \<le> 12" "x < 2 ^ lookup_bits n"
  shows "\<exists>r. nth_root_lookup n x = Some r \<and> is_root n x r"
proof -
  consider "n = 2" | "n = 3" | "n = 4" | "n = 5" | "n \<in> {6, 7, 8, 9, 10, 11, 12}"
    using assms(1,2) by atomize_elim (simp, presburger)
  then show ?thesis
  proof cases
    case 1
    then show ?thesis
      using assms(3) lookup_cascade_root [of 2 512 22 4096 64 65536 0 16 x] sqrt_tables
      by (simp add: nth_root_lookup_def sqrt_lookup_def lookup_bits_def)
  next
    case 2
    then show ?thesis
      using assms(3) lookup_cascade_root [of 3 4096 16 65536 40 1048576 101 20 x] cbrt_tables
      by (simp add: nth_root_lookup_def cbrt_lookup_def lookup_bits_def init_lookup_params_def)
  next
    case 3
    then show ?thesis
      using assms(3) lookup_cascade_root [of 4 32768 13 1048576 32 33554432 76 25 x] rt4_tables
      by (simp add: nth_root_lookup_def rt4_lookup_def lookup_bits_def init_lookup_params_def)
  next
    case 4
    then show ?thesis
      using assms(3) lookup_cascade_root [of 5 131072 10 4194304 21 268435456 48 28 x] rt5_tables
      by (simp add: nth_root_lookup_def rt5_lookup_def lookup_bits_def init_lookup_params_def)
  next
    case 5
    then show ?thesis
      using assms(3) by (rule search_lookup_root)
  qed
qed

end
