(* ===== verification/Nth_Root.thy ===== *)
theory Nth_Root
  imports Root_Lookup
begin

text \<open>
  Integer roots by Newton's method (\<^verbatim>\<open>src/crates/mazze_math/src/lib.rs\<close>,
  \<^verbatim>\<open>nth_root/compute.rs\<close>, \<^verbatim>\<open>nth_root/inv.rs\<close>) and the loss ratio of the packing pool that is
  computed with them (\<^verbatim>\<open>packing-pool/src/pool_config.rs\<close>).

  The four instances of the trait \<^verbatim>\<open>NthRoot\<close> (64, 128, 256 and 512 bits) are one family of
  functions with the width as an argument; each starts Newton's method from the root of the leading
  bits, computed one width below, and the 64-bit instance starts from a lookup table or from
  floating point. \<^verbatim>\<open>f64\<close> arithmetic is the parameter \<open>f64_roots\<close>; the hypothesis on it,
  \<open>f64_close\<close>, is that the truncated square root and fourth root are off by at most one. The
  machine square root of \<^verbatim>\<open>num::integer::Roots\<close> is the parameter \<open>isqrt\<close>.

  The loops are partial functions: \<open>None\<close> is a panic or no result at all, so each theorem
  \<open>f x = Some r\<close> includes that the loop ends.
\<close>

section \<open>Powers and Newton's method\<close>

primrec pow_loop :: "nat \<Rightarrow> nat \<Rightarrow> nat list \<Rightarrow> nat \<Rightarrow> nat \<Rightarrow> nat option" where
  "pow_loop w pow [] base acc = Some acc"
| "pow_loop w pow (b # bs) base acc = do {
     acc \<leftarrow> (if odd (pow div 2 ^ b) then cmul w acc base else Some acc);
     base \<leftarrow> (if b < 31 \<and> 0 < pow div 2 ^ (b + 1) then cmul w base base else Some base);
     pow_loop w pow bs base acc
   }"

definition upow :: "nat \<Rightarrow> nat \<Rightarrow> nat \<Rightarrow> nat option" where
  "upow w pow input =
    (if pow = 0 then Some 1
     else if pow = 1 then Some input
     else if pow = 2 then cmul w input input
     else if pow = 3 then do { sq \<leftarrow> cmul w input input; cmul w sq input }
     else pow_loop w pow [0..<32] input 1)"

text \<open>The next iterate; \<open>pow_n\<close> is the checked product, \<open>None\<close> when it overflows.\<close>

definition newton_next :: "nat \<Rightarrow> nat \<Rightarrow> nat \<Rightarrow> nat \<Rightarrow> nat option \<Rightarrow> nat \<Rightarrow> nat option" where
  "newton_next w n input pow_n_1 pow_n root = do {
     fast_compute_root \<leftarrow>
       (if w = 256 then
          (case pow_n of
             None \<Rightarrow> Some None
           | Some pow_n \<Rightarrow> do {
               divisor \<leftarrow> cmul w pow_n_1 n;
               d \<leftarrow> csub pow_n input;
               d \<leftarrow> csub d 1;
               q \<leftarrow> cdiv d divisor;
               r \<leftarrow> csub root q;
               r \<leftarrow> csub r 1;
               Some (Some r)
             })
        else Some None);
     (case fast_compute_root of
        Some root \<Rightarrow> Some root
      | None \<Rightarrow> do {
          q \<leftarrow> cdiv input pow_n_1;
          m \<leftarrow> cmul w root (n - 1);
          t \<leftarrow> cadd w q m;
          cdiv t n
        })
   }"

partial_function (option) newtons_method :: "nat \<Rightarrow> nat \<Rightarrow> nat \<Rightarrow> nat \<Rightarrow> nat option" where
  "newtons_method w n input root = do {
     pow_n_1 \<leftarrow> upow w (n - 1) root;
     let pow_n = cmul w pow_n_1 root;
     if (case pow_n of None \<Rightarrow> False | Some x \<Rightarrow> x \<le> input) then Some root
     else do {
       root \<leftarrow> newton_next w n input pow_n_1 pow_n root;
       newtons_method w n input root
     }
   }"

section \<open>The start value\<close>

datatype init_root = Init nat | Done nat

record f64_roots =
  fr_sqrt :: "nat \<Rightarrow> nat"
  fr_sqrt_sqrt :: "nat \<Rightarrow> nat"
  fr_exp_ln :: "nat \<Rightarrow> nat \<Rightarrow> nat"

definition truncate_to :: "nat \<Rightarrow> nat \<Rightarrow> nat \<Rightarrow> (nat \<times> nat) option" where
  "truncate_to self next_bits multiply = do {
     let bits = nat_bits self;
     let n = multiply;
     let adjust_bits = (n + next_bits mod n - bits mod n) mod n;
     significant_bits \<leftarrow> csub next_bits adjust_bits;
     rest_bits \<leftarrow> csub bits significant_bits;
     Some (self div 2 ^ rest_bits, rest_bits)
   }"

definition check_answer :: "nat \<Rightarrow> nat \<Rightarrow> nat \<Rightarrow> bool" where
  "check_answer n input output \<longleftrightarrow>
     (case cpow 64 output n of None \<Rightarrow> False | Some x \<Rightarrow> x \<le> input) \<and>
     (case cpow 64 (output + 1) n of None \<Rightarrow> True | Some x \<Rightarrow> input < x)"

definition shl :: "nat \<Rightarrow> nat \<Rightarrow> nat \<Rightarrow> nat" where
  "shl w x k = (x * 2 ^ k) mod 2 ^ w"

definition init_root_u64 :: "f64_roots \<Rightarrow> nat \<Rightarrow> nat \<Rightarrow> init_root option" where
  "init_root_u64 fl n self =
    (if self = 0 then Some (Done 0)
     else if self < 2 ^ n then Some (Done 1)
     else if n = 2 then
       (let ans = fr_sqrt fl self
        in if check_answer 2 self ans then Some (Done ans)
           else do { r \<leftarrow> cadd 64 ans 1; Some (Init r) })
     else if n = 4 then
       (let ans = fr_sqrt_sqrt fl self
        in if check_answer 4 self ans then Some (Done ans)
           else do { r \<leftarrow> cadd 64 ans 1; Some (Init r) })
     else if 0 < lookup_bits n then
       (if self < 2 ^ lookup_bits n - 1 then do {
          r \<leftarrow> nth_root_lookup n self;
          Some (Done r)
        } else do {
          (small, rot) \<leftarrow> truncate_to self (lookup_bits n) n;
          r \<leftarrow> nth_root_lookup n small;
          r \<leftarrow> cadd 64 r 1;
          Some (Init (shl 64 r (rot div n)))
        })
     else do {
       r \<leftarrow> cadd 64 (fr_exp_ln fl n self) 1;
       Some (Init r)
     })"

definition finish_root :: "nat \<Rightarrow> nat \<Rightarrow> nat \<Rightarrow> init_root option \<Rightarrow> nat option" where
  "finish_root w n self init = do {
     i \<leftarrow> init;
     (case i of Init init_root \<Rightarrow> newtons_method w n self init_root | Done root \<Rightarrow> Some root)
   }"

definition nth_root_u64 :: "f64_roots \<Rightarrow> nat \<Rightarrow> nat \<Rightarrow> nat option" where
  "nth_root_u64 fl n self = finish_root 64 n self (init_root_u64 fl n self)"

text \<open>
  The wider instances share their shape: below \<open>limit\<close> the root of the narrower type is the
  answer, otherwise the leading \<open>half\<close> bits give the start value.
\<close>

definition init_root_wide ::
  "nat \<Rightarrow> nat \<Rightarrow> nat \<Rightarrow> (nat \<Rightarrow> nat option) \<Rightarrow> nat \<Rightarrow> nat \<Rightarrow> init_root option" where
  "init_root_wide w half limit compute_next n self =
    (if self < limit then do { r \<leftarrow> compute_next self; Some (Done r) }
     else do {
       (nxt, rot) \<leftarrow> truncate_to self half n;
       r \<leftarrow> compute_next nxt;
       r \<leftarrow> cadd w r 1;
       Some (Init (shl w r (rot div n)))
     })"

definition init_root_u128 :: "f64_roots \<Rightarrow> nat \<Rightarrow> nat \<Rightarrow> init_root option" where
  "init_root_u128 fl n = init_root_wide 128 64 u64_max (\<lambda>me. nth_root_u64 fl n (me mod 2 ^ 64)) n"

definition nth_root_u128 :: "f64_roots \<Rightarrow> nat \<Rightarrow> nat \<Rightarrow> nat option" where
  "nth_root_u128 fl n self = finish_root 128 n self (init_root_u128 fl n self)"

definition init_root_u256 :: "f64_roots \<Rightarrow> nat \<Rightarrow> nat \<Rightarrow> init_root option" where
  "init_root_u256 fl n = init_root_wide 256 128 (2 ^ 128)
     (\<lambda>me. if me < 2 ^ 128 then nth_root_u128 fl n me else None) n"

definition nth_root_u256 :: "f64_roots \<Rightarrow> nat \<Rightarrow> nat \<Rightarrow> nat option" where
  "nth_root_u256 fl n self = finish_root 256 n self (init_root_u256 fl n self)"

definition init_root_u512 :: "f64_roots \<Rightarrow> nat \<Rightarrow> nat \<Rightarrow> init_root option" where
  "init_root_u512 fl n = init_root_wide 512 256 (2 ^ 256)
     (\<lambda>me. if me < 2 ^ 256 then nth_root_u256 fl n me else None) n"

definition nth_root_u512 :: "f64_roots \<Rightarrow> nat \<Rightarrow> nat \<Rightarrow> nat option" where
  "nth_root_u512 fl n self = finish_root 512 n self (init_root_u512 fl n self)"

section \<open>Inverse roots and the loss ratio\<close>

definition rotate_right :: "nat \<Rightarrow> int \<Rightarrow> nat" where
  "rotate_right input bits =
    (if 0 \<le> bits then input div 2 ^ nat bits else shl 256 input (nat (- bits)))"

text \<open>\<^verbatim>\<open>isize\<close> division rounds towards zero.\<close>

definition quot_trunc :: "int \<Rightarrow> int \<Rightarrow> int" where
  "quot_trunc a b = sgn a * (\<bar>a\<bar> div b)"

definition nth_inv_root :: "f64_roots \<Rightarrow> nat \<Rightarrow> nat \<Rightarrow> nat \<Rightarrow> nat option" where
  "nth_inv_root fl n p input =
    (if input = 0 then Some u256_max
     else do {
       let min_bits = n * p + 1;
       let bits = nat_bits input;
       let ideal_bits = min_bits + (bits - 1) mod n;
       let adjusted_input = rotate_right input (int bits - int ideal_bits);
       let back_rotate = quot_trunc (int bits - int ideal_bits) (int n);
       root \<leftarrow> nth_root_u256 fl n adjusted_input;
       let root_bits = nat_bits root;
       if root_bits + p \<le> 64 then do {
         q \<leftarrow> cdiv u64_max (root mod 2 ^ 64);
         Some (rotate_right q (back_rotate - 192))
       } else if root_bits + p \<le> 128 then do {
         q \<leftarrow> cdiv u128_max (root mod 2 ^ 128);
         Some (rotate_right q (back_rotate - 128))
       } else do {
         q \<leftarrow> cdiv u256_max root;
         Some (rotate_right q back_rotate)
       }
     })"

definition loss_ratio :: "f64_roots \<Rightarrow> nat \<Rightarrow> nat \<Rightarrow> nat option" where
  "loss_ratio fl degree gas_price =
    (if gas_price = 0 then Some (2 ^ 128)
     else do {
       v \<leftarrow> (if degree = 1 then cdiv u256_max gas_price
             else if degree = 2 then nth_inv_root fl 2 15 gas_price
             else if degree = 3 then nth_inv_root fl 3 15 gas_price
             else if degree = 4 then nth_inv_root fl 4 15 gas_price
             else if degree = 5 then nth_inv_root fl 5 12 gas_price
             else None);
       Some (v div 2 ^ 128)
     })"

section \<open>Square roots of 256-bit integers\<close>

partial_function (option) sqrt_loop :: "nat \<Rightarrow> nat \<Rightarrow> nat option" where
  "sqrt_loop input root = do {
     sq \<leftarrow> cmul 256 root root;
     if input < sq then do {
       q \<leftarrow> cdiv input root;
       t \<leftarrow> cadd 256 q root;
       sqrt_loop input (t div 2)
     } else Some root
   }"

definition sqrt_u256 :: "(nat \<Rightarrow> nat) \<Rightarrow> nat \<Rightarrow> nat option" where
  "sqrt_u256 isqrt input = do {
     let bits = nat_bits input;
     if bits \<le> 64 then Some (isqrt input)
     else do {
       let significant_bits = 64 - bits mod 2;
       let rest_bits = bits - significant_bits;
       let significant_word = input div 2 ^ rest_bits;
       assert_that (significant_word < 2 ^ 64);
       r \<leftarrow> cadd 64 (isqrt significant_word) 1;
       sqrt_loop input (shl 256 r (rest_bits div 2))
     }
   }"

primrec two_fractional_loop ::
  "(nat \<Rightarrow> nat) \<Rightarrow> nat \<Rightarrow> bool \<Rightarrow> nat list \<Rightarrow> nat \<Rightarrow> nat option" where
  "two_fractional_loop isqrt ratio increase [] base = Some base"
| "two_fractional_loop isqrt ratio increase (i # is) base = do {
     let base = (if odd (ratio div 2 ^ i)
                 then (if increase then shl 256 base 1 else base div 2) else base);
     base \<leftarrow> sqrt_u256 isqrt base;
     two_fractional_loop isqrt ratio increase is (shl 256 base 127)
   }"

definition power_two_fractional :: "(nat \<Rightarrow> nat) \<Rightarrow> nat \<Rightarrow> bool \<Rightarrow> nat \<Rightarrow> nat option" where
  "power_two_fractional isqrt ratio increase precision = do {
     assert_that (precision \<le> 127);
     base \<leftarrow> two_fractional_loop isqrt ratio increase [0..<64] (shl 256 1 254);
     Some (base div 2 ^ (254 - precision))
   }"

section \<open>Powers\<close>

lemma pow_loop_eq:
  assumes "0 < base" "0 < acc" "p < 2 ^ 32" "b \<le> 32" "acc * base ^ (p div 2 ^ b) < 2 ^ w"
  shows "pow_loop w p [b..<32] base acc = Some (acc * base ^ (p div 2 ^ b))"
  using assms
proof (induction "32 - b" arbitrary: b base acc)
  case 0
  then show ?case by simp
next
  case (Suc d)
  let ?q = "p div 2 ^ b" and ?q' = "p div 2 ^ (b + 1)"
  define acc' where "acc' = (if odd ?q then acc * base else acc)"
  define base' where "base' = (if b < 31 \<and> 0 < ?q' then base * base else base)"
  have b: "b < 32" "[b..<32] = b # [b + 1..<32]"
    using Suc.hyps(2) by (auto simp: upt_rec)
  have half: "?q' = ?q div 2"
    by (simp add: div_mult2_eq [symmetric] mult.commute)
  have last: "?q' = 0" if "\<not> b < 31"
  proof -
    have "b = 31"
      using that b(1) by simp
    then show ?thesis
      using Suc.prems(3) by simp
  qed
  have "m = m div 2 * 2 + (if odd m then 1 else 0)" for m :: nat
    by presburger
  then have q: "?q = ?q' * 2 + (if odd ?q then 1 else 0)"
    unfolding half .
  have base'': "base' ^ ?q' = (base * base) ^ ?q'"
    using last by (cases "?q' = 0") (auto simp: base'_def)
  have val: "acc' * base' ^ ?q' = acc * base ^ ?q"
    unfolding base'' by (subst q) (simp add: acc'_def power_add power_mult power2_eq_square mult.commute)
  have le_q: "acc * base ^ m < 2 ^ w" if "m \<le> ?q" for m
  proof -
    have "acc * base ^ m \<le> acc * base ^ ?q"
      using Suc.prems(1) that by (intro mult_le_mono2 power_increasing) auto
    then show ?thesis
      using Suc.prems(5) by (rule le_less_trans)
  qed
  have a: "(if odd ?q then cmul w acc base else Some acc) = Some acc'"
    using le_q [of 1] by (auto simp: acc'_def cmul_def odd_pos Suc_leI)
  have "base * base < 2 ^ w" if "0 < ?q'"
  proof -
    have "base * base \<le> acc * base ^ 2"
      using Suc.prems(2) by (simp add: power2_eq_square)
    also have "\<dots> < 2 ^ w"
      using that q by (intro le_q) simp
    finally show ?thesis .
  qed
  then have c: "(if b < 31 \<and> 0 < ?q' then cmul w base base else Some base) = Some base'"
    by (auto simp: base'_def cmul_def)
  have "pow_loop w p [b + 1..<32] base' acc' = Some (acc' * base' ^ ?q')"
  proof (rule Suc.hyps(1))
    show "d = 32 - (b + 1)" "b + 1 \<le> 32" "p < 2 ^ 32"
      using Suc.hyps(2) b(1) Suc.prems(3) by auto
    show "0 < base'" "0 < acc'"
      using Suc.prems(1,2) by (auto simp: base'_def acc'_def)
    show "acc' * base' ^ ?q' < 2 ^ w"
      using Suc.prems(5) unfolding val .
  qed
  then show ?case
    unfolding b(2) pow_loop.simps a c val by simp
qed

lemma upow_eq:
  assumes "0 < x" "p < 2 ^ 32" "x ^ p < 2 ^ w"
  shows "upow w p x = Some (x ^ p)"
proof -
  have sq: "x * x < 2 ^ w" if "2 \<le> p"
    using assms(1,3) power_increasing [OF that, of x] by (simp add: power2_eq_square)
  consider "p = 0" | "p = 1" | "p = 2" | "p = 3" | "3 < p"
    by linarith
  then show ?thesis
  proof cases
    case 4
    then show ?thesis
      using sq assms(3) by (simp add: upow_def cmul_def power3_eq_cube)
  next
    case 5
    then show ?thesis
      using pow_loop_eq [of x 1 p 0 w] assms by (simp add: upow_def)
  qed (use assms(3) in \<open>simp_all add: upow_def cmul_def power2_eq_square\<close>)
qed

section \<open>Newton's method\<close>

lemma weighted_power_mean:
  "int (Suc n) * s * x ^ n \<le> s ^ Suc n + int n * x ^ Suc n" if "0 \<le> s" "0 \<le> x" for s x :: int
proof (induction n)
  case (Suc n)
  let ?f = "\<lambda>n. s ^ Suc n + int n * x ^ Suc n - int (Suc n) * s * x ^ n"
  have "?f (Suc n) = s * ?f n + int (Suc n) * x ^ n * (s - x)\<^sup>2"
    by (simp add: algebra_simps power2_eq_square)
  moreover have "0 \<le> s * ?f n"
    using Suc that by (intro mult_nonneg_nonneg) auto
  moreover have "0 \<le> int (Suc n) * x ^ n * (s - x)\<^sup>2"
    using that by simp
  ultimately show ?case
    by linarith
qed simp

lemma weighted_power_mean_nat:
  fixes s x :: nat
  assumes "0 < n"
  shows "n * s * x ^ (n - 1) \<le> s ^ n + (n - 1) * x ^ n"
proof -
  obtain m where n: "n = Suc m"
    using assms gr0_implies_Suc by blast
  have "int (Suc m * s * x ^ m) \<le> int (s ^ Suc m + m * x ^ Suc m)"
    using weighted_power_mean [of "int s" "int x" m] by (simp add: algebra_simps)
  then show ?thesis
    unfolding n of_nat_le_iff by simp
qed

lemma slow_step_bounds:
  fixes n P r s x :: nat
  assumes mean: "n * s * P \<le> x + (n - 1) * (P * r)" and "x < P * r" "0 < n" "0 < P"
  shows "x div P + r * (n - 1) < n * r" "s \<le> (x div P + r * (n - 1)) div n"
    "(x div P + r * (n - 1)) div n < r"
proof -
  have "x div P < r"
    using assms(2) by (simp add: less_mult_imp_div_less mult.commute)
  moreover have nr: "r + r * (n - 1) = n * r"
    using assms(3) by (cases n) simp_all
  ultimately show lt: "x div P + r * (n - 1) < n * r"
    by linarith
  then show "(x div P + r * (n - 1)) div n < r"
    by (simp add: less_mult_imp_div_less mult.commute)
  have "(n * s - r * (n - 1)) * P \<le> x"
    using mean by (simp add: diff_mult_distrib algebra_simps)
  then have "n * s - r * (n - 1) \<le> x div P"
    using assms(4) by (simp add: less_eq_div_iff_mult_less_eq)
  then have "s * n \<le> x div P + r * (n - 1)"
    by (simp add: mult.commute)
  then show "s \<le> (x div P + r * (n - 1)) div n"
    using assms(3) by (simp add: less_eq_div_iff_mult_less_eq)
qed

lemma fast_step_bounds:
  fixes n P r s x :: nat
  assumes mean: "n * s * P \<le> x + (n - 1) * (P * r)" and "x < P * r" "0 < n" "0 < P" "s < r"
  shows "(P * r - x - 1) div (P * n) < r - s"
proof -
  have "n * s * P + P * r \<le> x + n * (P * r)"
    using mean assms(3) by (cases n) (simp_all add: algebra_simps)
  then have "P * r - x - 1 < n * (P * r) - n * s * P"
    using assms(2) by linarith
  also have "\<dots> = (r - s) * (P * n)"
    by (simp add: diff_mult_distrib algebra_simps)
  finally show ?thesis
    by (rule less_mult_imp_div_less)
qed

lemma newton_next_spec:
  assumes n: "2 \<le> n" and root: "is_root n x s" and r: "x < r ^ n" and w: "n * r ^ (n - 1) < 2 ^ w"
  shows "\<exists>r'. newton_next w n x (r ^ (n - 1)) (cmul w (r ^ (n - 1)) r) r = Some r' \<and> s \<le> r' \<and> r' < r"
proof -
  define P where "P = r ^ (n - 1)"
  have r0: "0 < r"
    using r n by (cases "r = 0") (simp_all add: zero_power)
  have P: "0 < P" "r ^ n = P * r"
    using n r0 power_minus_mult [of n r] by (simp_all add: P_def)
  have sr: "s < r"
    using root r by (intro power_less_imp_base_less [of s n r]) (auto simp: is_root_def)
  have "n * s * P \<le> s ^ n + (n - 1) * (P * r)"
    using weighted_power_mean_nat [of n s r] n P(2) by (simp add: P_def)
  then have mean: "n * s * P \<le> x + (n - 1) * (P * r)"
    using root by (simp add: is_root_def)
  have w': "P * n < 2 ^ w"
    using w by (simp add: P_def mult.commute)
  have Pr: "x < P * r" and n0: "0 < n"
    using r P n by simp_all
  note slow = slow_step_bounds [OF mean Pr n0 P(1)] and fast = fast_step_bounds [OF mean Pr n0 P(1) sr]
  have "r \<le> P"
    using n r0 power_increasing [of 1 "n - 1" r] by (simp add: P_def)
  then have nr: "n * r < 2 ^ w"
    using w' by (metis mult.commute le_less_trans mult_le_mono1)
  have m: "r * (n - 1) < 2 ^ w"
    using nr slow(1) by linarith
  have t: "x div P + r * (n - 1) < 2 ^ w"
    using nr slow(1) by linarith
  have slow_eq: "do { q \<leftarrow> cdiv x P; m \<leftarrow> cmul w r (n - 1); t \<leftarrow> cadd w q m; cdiv t n }
      = Some ((x div P + r * (n - 1)) div n)"
    using m t P(1) n by (simp add: cdiv_def cmul_def cadd_def)
  show ?thesis
  proof (cases "w = 256 \<and> P * r < 2 ^ w")
    case True
    have "newton_next w n x P (cmul w P r) r = Some (r - (P * r - x - 1) div (P * n) - 1)"
      using True w' Pr P(1) n fast
      by (auto simp: newton_next_def cmul_def csub_def cdiv_def)
    then show ?thesis
      using fast unfolding P_def [symmetric] by (intro exI [of _ "r - (P * r - x - 1) div (P * n) - 1"]) auto
  next
    case False
    have "newton_next w n x P (cmul w P r) r = Some ((x div P + r * (n - 1)) div n)"
      using False slow_eq unfolding newton_next_def by (auto simp: cmul_def split: if_splits)
    then show ?thesis
      using slow(2,3) unfolding P_def [symmetric] by blast
  qed
qed

lemma newtons_method_spec:
  assumes "2 \<le> n" "n \<le> 2 ^ 32" "is_root n x s" "s \<le> r" "0 < x" "n * r ^ (n - 1) < 2 ^ w" "x < 2 ^ w"
  shows "newtons_method w n x r = Some s"
  using assms(4,6)
proof (induction r rule: less_induct)
  case (less r)
  have "0 < s"
    using assms(1,3,5) by (cases "s = 0") (auto simp: is_root_def)
  then have r0: "0 < r"
    using less.prems(1) by simp
  have "r ^ (n - 1) \<le> n * r ^ (n - 1)"
    using assms(1) by simp
  then have P: "r ^ (n - 1) < 2 ^ w"  "r ^ n = r ^ (n - 1) * r"
    using less.prems(2) assms(1) power_minus_mult [of n r] by (linarith, simp)
  have u: "upow w (n - 1) r = Some (r ^ (n - 1))"
    using r0 assms(1,2) P(1) by (intro upow_eq) auto
  show ?case
  proof (cases "r ^ n \<le> x")
    case True
    then have "is_root n x r"
      using assms(3) less.prems(1) power_mono [of "Suc s" "Suc r" n] by (auto simp: is_root_def)
    then have "r = s"
      using assms(3) is_root_unique by blast
    moreover have "r ^ (n - 1) * r < 2 ^ w"
      using True assms(7) P(2) by simp
    ultimately show ?thesis
      using True u P(2) by (subst newtons_method.simps) (simp add: cmul_def)
  next
    case False
    then obtain r' where r': "newton_next w n x (r ^ (n - 1)) (cmul w (r ^ (n - 1)) r) r = Some r'"
      "s \<le> r'" "r' < r"
      using newton_next_spec [OF assms(1,3) _ less.prems(2)] by auto
    have "n * r' ^ (n - 1) \<le> n * r ^ (n - 1)"
      using r'(3) by (simp add: power_mono)
    then have "newtons_method w n x r' = Some s"
      using less.prems(2) r'(2,3) by (intro less.IH) linarith+
    moreover have "\<not> (case cmul w (r ^ (n - 1)) r of None \<Rightarrow> False | Some y \<Rightarrow> y \<le> x)"
      using False P(2) by (auto simp: cmul_def)
    ultimately show ?thesis
      using u r'(1) by (subst newtons_method.simps) (simp add: Let_def)
  qed
qed

section \<open>The reference root\<close>

primrec floor_root :: "nat \<Rightarrow> nat \<Rightarrow> nat" where
  "floor_root p 0 = 0"
| "floor_root p (Suc x) =
    (let r = floor_root p x in if Suc r ^ p \<le> Suc x then Suc r else r)"

lemma floor_root_is_root: "0 < p \<Longrightarrow> is_root p x (floor_root p x)"
proof (induction x)
  case (Suc x)
  let ?r = "floor_root p x"
  have "?r ^ p \<le> x" "x < Suc ?r ^ p"
    using Suc by (auto simp: is_root_def)
  moreover have "Suc ?r ^ p < Suc (Suc ?r) ^ p"
    using Suc.prems by (intro power_strict_mono) auto
  ultimately show ?case
    by (auto simp: is_root_def Let_def)
qed (simp add: is_root_def zero_power)

lemma floor_root_eq: "0 < p \<Longrightarrow> is_root p x r \<longleftrightarrow> r = floor_root p x"
  using floor_root_is_root is_root_unique by blast

section \<open>Start values\<close>

lemma nat_bits_less: "x < 2 ^ nat_bits x"
proof (induction x rule: nat_bits.induct)
  case (1 n)
  then show ?case
    by (subst nat_bits.simps) (auto simp: div_less_iff_less_mult mult.commute)
qed

lemma nat_bits_ge: "0 < x \<Longrightarrow> 2 ^ (nat_bits x - 1) \<le> x"
proof (induction x rule: nat_bits.induct)
  case (1 n)
  show ?case
  proof (cases "n div 2 = 0")
    case True
    then have "n = 1"
      using 1(2) by simp
    then show ?thesis
      by (simp add: nat_bits.simps)
  next
    case False
    then have "2 ^ (nat_bits (n div 2) - 1) \<le> n div 2"
      using 1 by simp
    moreover have "0 < nat_bits (n div 2)"
      using False by (subst nat_bits.simps) simp
    ultimately show ?thesis
      using 1(2) by (subst nat_bits.simps) (cases "nat_bits (n div 2)"; simp)
  qed
qed

lemma nat_bits_le_iff: "nat_bits x \<le> k \<longleftrightarrow> x < 2 ^ k"
proof
  show "nat_bits x \<le> k \<Longrightarrow> x < 2 ^ k"
    using nat_bits_less [of x] power_increasing [of "nat_bits x" k "2::nat"]
    by (meson less_le_trans one_le_numeral)
  show "x < 2 ^ k \<Longrightarrow> nat_bits x \<le> k"
  proof (rule ccontr)
    assume x: "x < 2 ^ k" and "\<not> nat_bits x \<le> k"
    then have "k \<le> nat_bits x - 1" and "0 < x"
      using nat_bits_less [of x] by (auto intro: gr0I simp: nat_bits.simps)
    then have "2 ^ k \<le> x"
      using nat_bits_ge [of x] power_increasing [of k "nat_bits x - 1" "2::nat"] by linarith
    then show False
      using x by simp
  qed
qed

lemma truncate_to_spec:
  assumes n: "0 < n" "n \<le> b" and x: "2 ^ b - 1 \<le> x"
  shows "\<exists>k. truncate_to x b n = Some (x div 2 ^ (n * k), n * k) \<and>
    0 < x div 2 ^ (n * k) \<and> x div 2 ^ (n * k) < 2 ^ b"
proof -
  define bits where "bits = nat_bits x"
  define adj where "adj = (n + b mod n - bits mod n) mod n"
  have adj: "adj < n"
    using n by (simp add: adj_def)
  have "(2::nat) ^ (b - 1) < 2 ^ b" "1 \<le> (2::nat) ^ (b - 1)"
    using n by simp_all
  then have pos: "0 < x" "\<not> x < 2 ^ (b - 1)"
    using x by linarith+
  then have bits: "b \<le> bits"
    using nat_bits_le_iff [of x "b - 1"] n by (simp add: bits_def)
  have "(bits + adj) mod n = (bits mod n + (n + b mod n - bits mod n)) mod n"
    unfolding adj_def by (simp only: mod_add_left_eq mod_add_right_eq)
  also have "bits mod n + (n + b mod n - bits mod n) = n + b mod n"
    using mod_less_divisor [OF n(1), of bits] by linarith
  also have "\<dots> mod n = b mod n"
    by simp
  finally have "n dvd bits + adj - b"
    using bits by (intro mod_eq_dvd_iff_nat [THEN iffD1]) simp_all
  then obtain k where k: "bits + adj - b = n * k"
    by (auto simp: dvd_def)
  have rest: "bits - (b - adj) = n * k" "b - adj \<le> bits" "n * k = bits + adj - b"
    using adj n bits k by linarith+
  have t: "truncate_to x b n = Some (x div 2 ^ (n * k), n * k)"
    using adj n bits rest
    by (simp add: truncate_to_def Let_def csub_def flip: bits_def adj_def)
  have "n * k \<le> bits - 1"
    using rest(3) adj n bits by linarith
  then have "(2::nat) ^ (n * k) \<le> 2 ^ (bits - 1)"
    by (intro power_increasing) auto
  also have "\<dots> \<le> x"
    using nat_bits_ge [OF pos(1)] by (simp add: bits_def)
  finally have "0 < x div 2 ^ (n * k)"
    by (simp add: div_greater_zero_iff)
  moreover have "x < 2 ^ b * 2 ^ (n * k)"
  proof -
    have "bits \<le> b + n * k"
      using rest(3) by linarith
    then show ?thesis
      using nat_bits_le_iff [of x "b + n * k"] by (simp add: bits_def power_add)
  qed
  then have "x div 2 ^ (n * k) < 2 ^ b"
    by (rule less_mult_imp_div_less)
  ultimately show ?thesis
    using t by blast
qed

lemma start_bounds:
  assumes n: "0 < n" and q: "is_root n (x div 2 ^ (n * k)) q" "0 < x div 2 ^ (n * k)"
    and s: "is_root n x s"
  shows "s \<le> (q + 1) * 2 ^ k" "(q + 1) * 2 ^ k \<le> 2 * s"
proof -
  let ?m = "x div 2 ^ (n * k)"
  have pw: "(c * 2 ^ k) ^ n = c ^ n * 2 ^ (n * k)" for c :: nat
    by (simp add: power_mult_distrib mult.commute flip: power_mult)
  have "x < (?m + 1) * 2 ^ (n * k)"
    using dividend_less_div_times [of "2 ^ (n * k)" x] by simp
  also have "\<dots> \<le> (q + 1) ^ n * 2 ^ (n * k)"
    using q(1) by (intro mult_le_mono1) (simp add: is_root_def Suc_le_eq)
  finally have "s ^ n < ((q + 1) * 2 ^ k) ^ n"
    using s unfolding pw is_root_def by linarith
  then show "s \<le> (q + 1) * 2 ^ k"
    using power_less_imp_base_less less_imp_le by blast
  have "0 < q"
    using q n by (cases "q = 0") (auto simp: is_root_def)
  have "(q * 2 ^ k) ^ n \<le> ?m * 2 ^ (n * k)"
    using q(1) unfolding pw is_root_def by simp
  also have "\<dots> \<le> x"
    by simp
  finally have "(q * 2 ^ k) ^ n < Suc s ^ n"
    using s unfolding is_root_def by linarith
  then have "q * 2 ^ k < Suc s"
    by (rule power_less_imp_base_less)
  moreover have "(q + 1) * 2 ^ k \<le> (q + q) * 2 ^ k"
    using \<open>0 < q\<close> by (intro mult_le_mono1) simp
  ultimately show "(q + 1) * 2 ^ k \<le> 2 * s"
    unfolding add_mult_distrib by linarith
qed

lemma start_fits:
  assumes n: "2 \<le> n" "n \<le> 7" and w: "64 \<le> w" and s: "s ^ n < 2 ^ w" and r: "r \<le> 2 * s"
  shows "n * r ^ (n - 1) < 2 ^ w"
proof -
  define C where "C = n * 2 ^ (n - 1)"
  have "r ^ (n - 1) \<le> (2 * s) ^ (n - 1)"
    using r by (rule power_mono) simp
  then have "n * r ^ (n - 1) \<le> C * s ^ (n - 1)"
    by (simp add: C_def power_mult_distrib mult.assoc)
  also have "\<dots> < 2 ^ w"
  proof (cases "C \<le> s")
    case True
    then have "C * s ^ (n - 1) \<le> s * s ^ (n - 1)"
      by (rule mult_le_mono1)
    also have "\<dots> = s ^ n"
      using n power_minus_mult [of n s] by (simp add: mult.commute)
    finally show ?thesis
      using s by simp
  next
    case False
    then have "C * s ^ (n - 1) \<le> C * C ^ (n - 1)"
      by (intro mult_le_mono2 power_mono) auto
    also have "\<dots> = C ^ n"
      using n power_minus_mult [of n C] by (simp add: mult.commute)
    also have "\<dots> < 2 ^ 64"
    proof -
      have "n \<in> {2, 3, 4, 5, 6, 7}"
        using n by (simp; presburger)
      then show ?thesis
        by (auto simp: C_def)
    qed
    also have "(2::nat) ^ 64 \<le> 2 ^ w"
      using w by (rule power_increasing) simp
    finally show ?thesis .
  qed
  finally show ?thesis .
qed

lemma root_less_pow: "is_root n x s \<Longrightarrow> x < 2 ^ w \<Longrightarrow> 1 \<le> n \<Longrightarrow> s < 2 ^ w"
  using power_increasing [of 1 n s] by (cases "s = 0") (auto simp: is_root_def)

text \<open>Newton's method from the shifted root of the leading bits.\<close>

lemma leading_bits_newton:
  assumes n: "2 \<le> n" "n \<le> 7" and w: "64 \<le> w" "x < 2 ^ w" and b: "n \<le> b" "2 ^ b - 1 \<le> x" "b \<le> w"
    and f: "\<And>y. y < 2 ^ b \<Longrightarrow> f y = Some (floor_root n y)"
  shows "finish_root w n x (do {
      (small, rot) \<leftarrow> truncate_to x b n;
      r \<leftarrow> f small;
      r \<leftarrow> cadd w r 1;
      Some (Init (shl w r (rot div n)))
    }) = Some (floor_root n x)"
proof -
  have n0: "0 < n"
    using n by simp
  obtain k where t: "truncate_to x b n = Some (x div 2 ^ (n * k), n * k)"
    and small: "0 < x div 2 ^ (n * k)" "x div 2 ^ (n * k) < 2 ^ b"
    using truncate_to_spec [OF n0 b(1,2)] by blast
  let ?m = "x div 2 ^ (n * k)" and ?s = "floor_root n x"
  define q where "q = floor_root n ?m"
  have q: "is_root n ?m q"
    unfolding q_def using n0 by (rule floor_root_is_root)
  have s: "is_root n x ?s"
    using n0 by (rule floor_root_is_root)
  note st = start_bounds [OF n0 q small(1) s]
  have sn: "?s ^ n < 2 ^ w"
    using s w(2) unfolding is_root_def by linarith
  have fits: "n * ((q + 1) * 2 ^ k) ^ (n - 1) < 2 ^ w"
    using start_fits [OF n w(1) sn st(2)] .
  have "(q + 1) * 2 ^ k \<le> ((q + 1) * 2 ^ k) ^ (n - 1)"
    using n by (intro self_le_power) (auto simp: Suc_le_eq)
  also have "\<dots> \<le> n * ((q + 1) * 2 ^ k) ^ (n - 1)"
    using n0 by simp
  finally have lt: "(q + 1) * 2 ^ k < 2 ^ w"
    using fits by linarith
  have "(q + 1) * 1 \<le> (q + 1) * 2 ^ k"
    by (intro mult_le_mono2) simp
  then have "q + 1 < 2 ^ w"
    using lt unfolding mult_1_right by (rule le_less_trans)
  moreover have "newtons_method w n x ((q + 1) * 2 ^ k) = Some ?s"
    using n s st(1) fits w(2) small(1) by (intro newtons_method_spec) (auto intro: gr0I)
  ultimately show ?thesis
    using lt n0 f [OF small(2)] by (simp add: finish_root_def t cadd_def shl_def flip: q_def)
qed

section \<open>The four widths\<close>

definition f64_close :: "f64_roots \<Rightarrow> bool" where
  "f64_close fl \<longleftrightarrow>
     (\<forall>x < 2 ^ 64. fr_sqrt fl x \<le> floor_root 2 x + 1 \<and> floor_root 2 x \<le> fr_sqrt fl x + 1) \<and>
     (\<forall>x < 2 ^ 64. fr_sqrt_sqrt fl x \<le> floor_root 4 x + 1 \<and> floor_root 4 x \<le> fr_sqrt_sqrt fl x + 1)"

lemma check_answer_root: "x < 2 ^ 64 \<Longrightarrow> check_answer n x r \<longleftrightarrow> is_root n x r"
  by (auto simp: check_answer_def cpow_def is_root_def)

lemma float_start:
  assumes n: "n \<in> {2, 4}" and x: "x < 2 ^ 64" "0 < x"
    and near: "a \<le> floor_root n x + 1" "floor_root n x \<le> a + 1"
  shows "finish_root 64 n x
    (if check_answer n x a then Some (Done a) else do { r \<leftarrow> cadd 64 a 1; Some (Init r) })
    = Some (floor_root n x)"
proof (cases "check_answer n x a")
  case True
  then show ?thesis
    using x n by (auto simp: check_answer_root floor_root_eq finish_root_def)
next
  case False
  let ?s = "floor_root n x"
  have s: "is_root n x ?s"
    using n by (intro floor_root_is_root) auto
  have "?s ^ n < (if n = 2 then 2 ^ 32 else 2 ^ 16) ^ n"
    using s x n by (auto simp: is_root_def)
  then have s_lt: "?s < (if n = 2 then 2 ^ 32 else 2 ^ 16)"
    by (rule power_less_imp_base_less)
  have "n * (a + 1) ^ (n - 1) \<le> n * (?s + 2) ^ (n - 1)"
    using near(1) by (intro mult_le_mono2 power_mono) auto
  also have "\<dots> \<le> n * ((if n = 2 then 2 ^ 32 else 2 ^ 16) + 2) ^ (n - 1)"
    using s_lt by (intro mult_le_mono2 power_mono) auto
  also have "\<dots> < 2 ^ 64"
    using n by auto
  finally have "newtons_method 64 n x (a + 1) = Some ?s"
    using n s near(2) x by (intro newtons_method_spec) auto
  moreover have "a + 1 < 2 ^ 64"
    using near(1) s_lt by (auto split: if_splits)
  ultimately show ?thesis
    using False by (simp add: finish_root_def cadd_def)
qed

lemma nth_root_u64_eq:
  assumes n: "2 \<le> n" "n \<le> 7" and x: "x < 2 ^ 64" and fl: "f64_close fl"
  shows "nth_root_u64 fl n x = Some (floor_root n x)"
proof -
  have n0: "0 < n"
    using n by simp
  have big: "lookup_bits n \<le> 64" "n \<le> lookup_bits n" "0 < lookup_bits n"
    using n by (auto simp: lookup_bits_def)
  have lookup: "nth_root_lookup n y = Some (floor_root n y)" if "y < 2 ^ lookup_bits n" for y
    using nth_root_lookup_root [of n y] n that by (auto simp: floor_root_eq)
  consider "x = 0" | "0 < x" "x < 2 ^ n" | "0 < x" "\<not> x < 2 ^ n" "n \<in> {2, 4}"
    | "0 < x" "\<not> x < 2 ^ n" "n \<notin> {2, 4}" "x < 2 ^ lookup_bits n - 1"
    | "0 < x" "\<not> x < 2 ^ n" "n \<notin> {2, 4}" "2 ^ lookup_bits n - 1 \<le> x"
    using not_less by blast
  then show ?thesis
  proof cases
    case 2
    then have "is_root n x 1"
      by (simp add: is_root_def numeral_2_eq_2)
    then have "floor_root n x = 1"
      using n0 by (simp add: floor_root_eq)
    then show ?thesis
      using 2 by (simp add: nth_root_u64_def init_root_u64_def finish_root_def)
  next
    case 3
    have "fr_sqrt fl x \<le> floor_root 2 x + 1" "floor_root 2 x \<le> fr_sqrt fl x + 1"
      "fr_sqrt_sqrt fl x \<le> floor_root 4 x + 1" "floor_root 4 x \<le> fr_sqrt_sqrt fl x + 1"
      using fl x by (auto simp: f64_close_def)
    then show ?thesis
      using 3 x float_start [of n x "if n = 2 then fr_sqrt fl x else fr_sqrt_sqrt fl x"]
      by (auto simp: nth_root_u64_def init_root_u64_def Let_def)
  next
    case 4
    then have "nth_root_lookup n x = Some (floor_root n x)"
      by (intro lookup) simp
    then show ?thesis
      using 4 big by (simp add: nth_root_u64_def init_root_u64_def finish_root_def)
  next
    case 5
    then show ?thesis
      using leading_bits_newton [OF n order_refl x big(2) _ big(1) lookup] big(3)
      by (simp add: nth_root_u64_def init_root_u64_def)
  qed (simp add: nth_root_u64_def init_root_u64_def finish_root_def)
qed

lemma init_root_wide_eq:
  assumes n: "2 \<le> n" "n \<le> 7" and x: "x < 2 ^ w" and b: "64 \<le> b" "b \<le> w"
    and lim: "2 ^ b - 1 \<le> lim" "lim \<le> 2 ^ b"
    and f: "\<And>y. y < 2 ^ b \<Longrightarrow> f y = Some (floor_root n y)"
  shows "finish_root w n x (init_root_wide w b lim f n x) = Some (floor_root n x)"
proof (cases "x < lim")
  case True
  then show ?thesis
    using f [of x] lim(2) by (simp add: init_root_wide_def finish_root_def)
next
  case False
  then show ?thesis
    using leading_bits_newton [OF n _ x _ _ b(2) f] n b lim(1) by (simp add: init_root_wide_def)
qed

lemma nth_root_u128_eq:
  "2 \<le> n \<Longrightarrow> n \<le> 7 \<Longrightarrow> x < 2 ^ 128 \<Longrightarrow> f64_close fl \<Longrightarrow>
    nth_root_u128 fl n x = Some (floor_root n x)"
  unfolding nth_root_u128_def init_root_u128_def
  by (rule init_root_wide_eq) (simp_all add: nth_root_u64_eq)

lemma nth_root_u256_eq:
  "2 \<le> n \<Longrightarrow> n \<le> 7 \<Longrightarrow> x < 2 ^ 256 \<Longrightarrow> f64_close fl \<Longrightarrow>
    nth_root_u256 fl n x = Some (floor_root n x)"
  unfolding nth_root_u256_def init_root_u256_def
  by (rule init_root_wide_eq) (simp_all add: nth_root_u128_eq)

lemma nth_root_u512_eq:
  "2 \<le> n \<Longrightarrow> n \<le> 7 \<Longrightarrow> x < 2 ^ 512 \<Longrightarrow> f64_close fl \<Longrightarrow>
    nth_root_u512 fl n x = Some (floor_root n x)"
  unfolding nth_root_u512_def init_root_u512_def
  by (rule init_root_wide_eq) (simp_all add: nth_root_u256_eq)

section \<open>Inverse roots\<close>

text \<open>The leading bits of the input, scaled to the precision the inverse root works with.\<close>

definition scaled :: "nat \<Rightarrow> nat \<Rightarrow> nat \<Rightarrow> nat \<Rightarrow> nat" where
  "scaled n p k x = (if p \<le> k then x div 2 ^ (n * (k - p)) else x * 2 ^ (n * (p - k)))"

lemma scaled_mono: "x \<le> y \<Longrightarrow> scaled n p k x \<le> scaled n p k y"
  by (simp add: scaled_def div_le_mono)

lemma scaled_bounds:
  assumes x: "2 ^ (n * k + j) \<le> x" "x < 2 ^ (n * k + j + 1)" and j: "j < n"
  shows "2 ^ (n * p + j) \<le> scaled n p k x" "scaled n p k x < 2 ^ (n * p + j + 1)"
proof -
  have down: "2 ^ (n * k + i) = 2 ^ (n * p + i) * (2::nat) ^ (n * (k - p))" if "p \<le> k" for i
    using that by (simp add: diff_mult_distrib2 flip: power_add)
  have up: "2 ^ (n * p + i) = 2 ^ (n * k + i) * (2::nat) ^ (n * (p - k))" if "\<not> p \<le> k" for i
    using that by (simp add: diff_mult_distrib2 flip: power_add)
  show "2 ^ (n * p + j) \<le> scaled n p k x"
  proof (cases "p \<le> k")
    case True
    then show ?thesis
      using x(1) down [OF True, of j] by (simp add: scaled_def less_eq_div_iff_mult_less_eq)
  next
    case False
    then show ?thesis
      using x(1) up [OF False, of j] by (simp add: scaled_def)
  qed
  show "scaled n p k x < 2 ^ (n * p + j + 1)"
  proof (cases "p \<le> k")
    case True
    then show ?thesis
      using x(2) down [OF True, of "j + 1"]
      by (simp add: scaled_def div_less_iff_less_mult add.assoc del: power_Suc)
  next
    case False
    then show ?thesis
      using x(2) up [OF False, of "j + 1"] by (simp add: scaled_def add.assoc del: power_Suc)
  qed
qed

lemma scaled_root_bounds:
  assumes "2 ^ (n * k + j) \<le> x" "x < 2 ^ (n * k + j + 1)" "j < n"
  shows "2 ^ p \<le> floor_root n (scaled n p k x)" "floor_root n (scaled n p k x) < 2 ^ (p + 1)"
proof -
  let ?r = "floor_root n (scaled n p k x)"
  have root: "is_root n (scaled n p k x) ?r"
    using assms(3) by (intro floor_root_is_root) simp
  have "((2::nat) ^ p) ^ n \<le> 2 ^ (n * p + j)"
    by (simp add: mult.commute power_increasing flip: power_mult)
  also have "\<dots> < Suc ?r ^ n"
    using scaled_bounds(1) [OF assms, of p] root unfolding is_root_def by linarith
  finally show "2 ^ p \<le> ?r"
    using power_less_imp_base_less by fastforce
  have "?r ^ n < 2 ^ (n * p + j + 1)"
    using scaled_bounds(2) [OF assms, of p] root unfolding is_root_def by linarith
  also have "\<dots> \<le> (2 ^ (p + 1)) ^ n"
    using assms(3) by (simp add: mult.commute power_increasing algebra_simps flip: power_mult power_Suc)
  finally show "?r < 2 ^ (p + 1)"
    by (rule power_less_imp_base_less)
qed

lemma nat_bits_eq:
  assumes "2 ^ b \<le> x" "x < 2 ^ (b + 1)"
  shows "nat_bits x = b + 1"
  using assms nat_bits_le_iff [of x b] nat_bits_le_iff [of x "b + 1"] by linarith

definition inv_quot :: "nat \<Rightarrow> nat \<Rightarrow> nat \<Rightarrow> nat" where
  "inv_quot n p x =
    u64_max div floor_root n (scaled n p ((nat_bits x - 1) div n) x)"

lemma high_bit:
  assumes "0 < x" "0 < n"
  obtains k j where "2 ^ (n * k + j) \<le> x" "x < 2 ^ (n * k + j + 1)" "j < n"
    "nat_bits x = n * k + j + 1" "(nat_bits x - 1) div n = k"
proof
  let ?b = "nat_bits x - 1"
  have b: "n * (?b div n) + ?b mod n = ?b"
    by simp
  have pos: "0 < nat_bits x"
    using assms(1) by (subst nat_bits.simps) simp
  show "2 ^ (n * (?b div n) + ?b mod n) \<le> x"
    unfolding b by (rule nat_bits_ge [OF assms(1)])
  show "x < 2 ^ (n * (?b div n) + ?b mod n + 1)"
    unfolding b using nat_bits_less [of x] pos by simp
  show "nat_bits x = n * (?b div n) + ?b mod n + 1"
    unfolding b using pos by simp
qed (use assms in simp_all)

lemma inv_quot_bounds:
  assumes "0 < x" "0 < n" "p \<le> 31"
  shows "2 ^ (63 - p) \<le> inv_quot n p x" "inv_quot n p x < 2 ^ (64 - p)"
proof -
  obtain k j where kj: "2 ^ (n * k + j) \<le> x" "x < 2 ^ (n * k + j + 1)" "j < n"
    and k: "(nat_bits x - 1) div n = k"
    using high_bit [OF assms(1,2)] by metis
  let ?r = "floor_root n (scaled n p k x)"
  note rb = scaled_root_bounds [OF kj, of p]
  have q: "inv_quot n p x = u64_max div ?r"
    unfolding inv_quot_def k ..
  have "?r * 2 ^ (63 - p) \<le> (2 ^ (p + 1) - 1) * 2 ^ (63 - p)"
    using rb(2) by (intro mult_le_mono1) simp
  also have "\<dots> = 2 ^ 64 - 2 ^ (63 - p)"
    using assms(3) by (simp add: diff_mult_distrib flip: power_add power_Suc)
  also have "\<dots> \<le> u64_max"
    by (intro diff_le_mono2) simp
  finally show "2 ^ (63 - p) \<le> inv_quot n p x"
    using rb(1) unfolding q by (subst less_eq_div_iff_mult_less_eq) (auto simp: mult.commute intro: less_le_trans [rotated])
  have "u64_max < 2 ^ (64 - p) * 2 ^ p"
    using assms(3) by (simp flip: power_add)
  also have "\<dots> \<le> 2 ^ (64 - p) * ?r"
    using rb(1) by simp
  finally show "inv_quot n p x < 2 ^ (64 - p)"
    unfolding q by (rule less_mult_imp_div_less)
qed

lemma nth_inv_root_eq:
  assumes n: "2 \<le> n" "n \<le> 7" and p: "p \<le> 31" "n * (p + 1) \<le> 256"
    and x: "0 < x" "x < 2 ^ 256" and fl: "f64_close fl"
  shows "nth_inv_root fl n p x = Some (inv_quot n p x * 2 ^ (192 + p - (nat_bits x - 1) div n))"
proof -
  have n0: "0 < n"
    using n by simp
  obtain k j where kj: "2 ^ (n * k + j) \<le> x" "x < 2 ^ (n * k + j + 1)" "j < n"
    and bits: "nat_bits x = n * k + j + 1" and k: "(nat_bits x - 1) div n = k"
    using high_bit [OF x(1) n0] by metis
  let ?r = "floor_root n (scaled n p k x)"
  note rb = scaled_root_bounds [OF kj, of p] and sb = scaled_bounds [OF kj, of p]
  have "nat_bits x \<le> 256"
    using x(2) by (simp add: nat_bits_le_iff)
  then have "n * k \<le> 255"
    using bits by linarith
  then have "2 * k \<le> 255"
    using mult_le_mono1 [OF n(1), of k] by linarith
  then have k127: "k \<le> 127"
    by simp
  have "n * p + j + 1 \<le> 256"
    using p(2) kj(3) by simp
  then have "(2::nat) ^ (n * p + j + 1) \<le> 2 ^ 256"
    by (rule power_increasing) simp
  then have s256: "scaled n p k x < 2 ^ 256"
    using sb(2) by linarith
  have diff: "int (nat_bits x) - int (n * p + 1 + (nat_bits x - 1) mod n) = int n * (int k - int p)"
    using kj(3) unfolding bits by (simp add: algebra_simps)
  have adj: "rotate_right x (int n * (int k - int p)) = scaled n p k x"
  proof (cases "p \<le> k")
    case True
    then have eq: "int n * (int k - int p) = int (n * (k - p))"
      by (simp add: of_nat_diff)
    show ?thesis
      unfolding eq using True by (simp add: rotate_right_def scaled_def del: of_nat_mult)
  next
    case False
    then have eq: "int n * (int k - int p) = - int (n * (p - k))"
      by (simp add: of_nat_diff algebra_simps)
    have "0 < n * (p - k)"
      using False n0 by simp
    then have "\<not> 0 \<le> - int (n * (p - k))"
      by linarith
    then show ?thesis
      unfolding eq rotate_right_def shl_def minus_minus nat_int
      using False s256 by (simp only: scaled_def if_False mod_less)
  qed
  have brot: "quot_trunc (int n * (int k - int p)) (int n) = int k - int p"
    using n0 by (simp add: quot_trunc_def abs_mult sgn_mult mult_sgn_abs)
  have root: "nth_root_u256 fl n (scaled n p k x) = Some ?r"
    using n s256 fl by (rule nth_root_u256_eq)
  have rbits: "nat_bits ?r = p + 1"
    using rb by (rule nat_bits_eq)
  have "(2::nat) ^ (p + 1) \<le> 2 ^ 64"
    using p(1) by (intro power_increasing) auto
  then have r64: "?r mod 2 ^ 64 = ?r" "?r \<noteq> 0"
    using rb by (auto intro!: mod_less)
  have quot: "u64_max div ?r = inv_quot n p x"
    unfolding inv_quot_def k ..
  have "inv_quot n p x * 2 ^ (192 + p - k) < 2 ^ (64 - p) * 2 ^ (192 + p - k)"
    using inv_quot_bounds(2) [OF x(1) n0 p(1)] by simp
  also have "\<dots> = 2 ^ (64 - p + (192 + p - k))"
    by (simp add: power_add)
  also have "\<dots> \<le> 2 ^ 256"
    using p(1) by (intro power_increasing) auto
  finally have fits: "inv_quot n p x * 2 ^ (192 + p - k) < 2 ^ 256" .
  have rot: "rotate_right (inv_quot n p x) (int k - int p - 192) = inv_quot n p x * 2 ^ (192 + p - k)"
  proof -
    have "int k - int p - 192 < 0" "nat (- (int k - int p - 192)) = 192 + p - k"
      using k127 by linarith+
    then show ?thesis
      using fits by (simp add: rotate_right_def shl_def)
  qed
  show ?thesis
    unfolding nth_inv_root_def Let_def diff adj brot root bind.bind_lunit rbits
    using x(1) p(1) r64 rot quot k by (simp add: cdiv_def)
qed

lemma inv_root_antitone:
  assumes n: "2 \<le> n" "n \<le> 7" and p: "p \<le> 31" and x: "0 < x" "x \<le> y" "y < 2 ^ 256"
  shows "inv_quot n p y * 2 ^ (192 + p - (nat_bits y - 1) div n)
    \<le> inv_quot n p x * 2 ^ (192 + p - (nat_bits x - 1) div n)"
proof -
  let ?k = "\<lambda>x. (nat_bits x - 1) div n"
  have y0: "0 < y" and n0: "0 < n"
    using x n by simp_all
  have bits: "nat_bits x \<le> nat_bits y" "nat_bits y \<le> 256"
    using x nat_bits_less [of y] by (auto simp: nat_bits_le_iff intro: le_less_trans)
  have "(nat_bits y - 1) div n \<le> (nat_bits y - 1) div 2"
    using n(1) by (intro div_le_mono2) auto
  also have "\<dots> \<le> 127"
    using bits(2) by simp
  finally have kk: "?k x \<le> ?k y" "?k y \<le> 127"
    using bits(1) by (auto intro!: div_le_mono diff_le_mono)
  show ?thesis
  proof (cases "?k x = ?k y")
    case True
    let ?f = "\<lambda>x. floor_root n (scaled n p (?k y) x)"
    have "?f x \<le> ?f y"
      by (rule is_root_mono [OF floor_root_is_root [OF n0] floor_root_is_root [OF n0]
            scaled_mono [OF x(2)]])
    moreover have "0 < ?f x"
    proof -
      obtain k j where "2 ^ (n * k + j) \<le> x" "x < 2 ^ (n * k + j + 1)" "j < n" "?k x = k"
        using high_bit [OF x(1) n0] by metis
      then show ?thesis
        using scaled_root_bounds(1) [of n k j x p] True by (auto intro: less_le_trans [rotated])
    qed
    ultimately have "inv_quot n p y \<le> inv_quot n p x"
      unfolding inv_quot_def True by (rule div_le_mono2 [rotated])
    then show ?thesis
      using True by simp
  next
    case False
    then have lt: "?k x + 1 \<le> ?k y"
      using kk(1) by simp
    have "inv_quot n p y * 2 ^ (192 + p - ?k y) \<le> 2 ^ (64 - p) * 2 ^ (192 + p - ?k y)"
      using inv_quot_bounds(2) [OF y0 n0 p] by simp
    also have "\<dots> \<le> 2 ^ (63 - p) * 2 ^ (192 + p - ?k x)"
      unfolding power_add [symmetric] using lt kk(2) p by (intro power_increasing) auto
    also have "\<dots> \<le> inv_quot n p x * 2 ^ (192 + p - ?k x)"
      using inv_quot_bounds(1) [OF x(1) n0 p] by simp
    finally show ?thesis .
  qed
qed

section \<open>Square roots of 256-bit integers\<close>

definition isqrt_exact :: "(nat \<Rightarrow> nat) \<Rightarrow> bool" where
  "isqrt_exact isqrt \<longleftrightarrow> (\<forall>x < 2 ^ 64. isqrt x = floor_root 2 x)"

definition sqrt_limit :: nat where
  "sqrt_limit = (2 ^ 32 - 1)\<^sup>2 * 2 ^ 192"

lemma sqrt_loop_spec:
  assumes "is_root 2 x s" "s \<le> r" "0 < x" "r * r < 2 ^ 256" "x < 2 ^ 256"
  shows "sqrt_loop x r = Some s"
  using assms(2,4)
proof (induction r rule: less_induct)
  case (less r)
  have "0 < s"
    using assms(1,3) by (cases "s = 0") (auto simp: is_root_def)
  then have r0: "0 < r"
    using less.prems(1) by simp
  show ?case
  proof (cases "x < r * r")
    case True
    let ?r = "(x div r + r) div 2"
    have "s ^ 2 + r ^ 2 \<le> x + r * r"
      using assms(1) by (simp add: is_root_def power2_eq_square)
    then have mean: "2 * s * r \<le> x + (2 - 1) * (r * r)"
      using weighted_power_mean_nat [of 2 s r] by simp
    have r': "s \<le> ?r" "?r < r"
      using slow_step_bounds [OF mean True _ r0] by simp_all
    have "?r * ?r \<le> r * r"
      using r'(2) by (intro mult_le_mono) auto
    then have IH: "sqrt_loop x ?r = Some s"
      using r' less.prems(2) by (intro less.IH) linarith+
    have "x div r + r < 2 ^ 256"
    proof -
      have "x div r < r"
        using True by (rule less_mult_imp_div_less)
      moreover have "r < 2 ^ 128"
        using less.prems(2) by (intro power_less_imp_base_less [of r 2]) (simp add: power2_eq_square)
      ultimately show ?thesis
        by simp
    qed
    then show ?thesis
      using IH True less.prems(2) r0 by (subst sqrt_loop.simps) (simp add: cmul_def cdiv_def cadd_def)
  next
    case False
    have "Suc s ^ 2 \<le> Suc r ^ 2"
      using less.prems(1) by (intro power_mono) auto
    then have "is_root 2 x r"
      using False assms(1) by (simp add: is_root_def power2_eq_square)
    then have "r = s"
      using assms(1) is_root_unique by blast
    then show ?thesis
      using False less.prems(2) by (subst sqrt_loop.simps) (simp add: cmul_def)
  qed
qed

lemma sqrt_loop_overflow: "2 ^ 256 \<le> r * r \<Longrightarrow> sqrt_loop x r = None"
  by (subst sqrt_loop.simps) (simp add: cmul_def)

lemma sqrt_u256_start:
  assumes x: "x < 2 ^ 256" "64 < nat_bits x" and sq: "isqrt_exact isqrt"
  obtains k q where "sqrt_u256 isqrt x = sqrt_loop x ((q + 1) * 2 ^ k)"
    "is_root 2 (x div 2 ^ (2 * k)) q" "0 < x div 2 ^ (2 * k)" "x div 2 ^ (2 * k) < 2 ^ 64"
    "q < 2 ^ 32" "k \<le> 96" "2 ^ 255 \<le> x \<longrightarrow> k = 96"
proof
  define bits where "bits = nat_bits x"
  define k where "k = (bits - (64 - bits mod 2)) div 2"
  let ?m = "x div 2 ^ (2 * k)"
  have b256: "bits \<le> 256" and b64: "64 < bits"
    using x by (simp_all add: nat_bits_le_iff bits_def)
  have x0: "0 < x"
    using b64 by (cases "x = 0") (simp_all add: bits_def nat_bits_numeral)
  have k: "bits - (64 - bits mod 2) = 2 * k"
    using b64 unfolding k_def by presburger
  have mod: "bits mod 2 \<le> 1"
    by simp
  have "x < 2 ^ (64 + 2 * k)"
    using k b64 unfolding nat_bits_le_iff [symmetric] bits_def by linarith
  then show m64: "?m < 2 ^ 64"
    by (simp add: power_add less_mult_imp_div_less)
  have "(2::nat) ^ (2 * k) \<le> 2 ^ (bits - 1)"
    using k b64 mod by (intro power_increasing) linarith+
  also have "\<dots> \<le> x"
    using nat_bits_ge [OF x0] by (simp only: bits_def)
  finally show "0 < ?m"
    by (simp add: div_greater_zero_iff)
  show root: "is_root 2 ?m (isqrt ?m)"
    using sq m64 by (simp add: isqrt_exact_def floor_root_is_root)
  have "isqrt ?m ^ 2 < (2 ^ 32) ^ 2"
    using root m64 by (simp add: is_root_def)
  then show q32: "isqrt ?m < 2 ^ 32"
    by (rule power_less_imp_base_less)
  have "2 * k \<le> 193"
    using k b256 mod by linarith
  then show k96: "k \<le> 96"
    by simp
  show "2 ^ 255 \<le> x \<longrightarrow> k = 96"
  proof
    assume "2 ^ 255 \<le> x"
    then have "\<not> nat_bits x \<le> 255"
      by (simp add: nat_bits_le_iff)
    then have "bits = 256"
      using b256 bits_def by simp
    then show "k = 96"
      by (simp add: k_def)
  qed
  have "(isqrt ?m + 1) * 2 ^ k \<le> 2 ^ 32 * 2 ^ 96"
    using q32 k96 by (intro mult_le_mono power_increasing) auto
  then have "shl 256 (isqrt ?m + 1) k = (isqrt ?m + 1) * 2 ^ k"
    by (simp add: shl_def)
  then show "sqrt_u256 isqrt x = sqrt_loop x ((isqrt ?m + 1) * 2 ^ k)"
    using b64 m64 q32 k unfolding sqrt_u256_def bits_def [symmetric]
    by (simp add: assert_that_def cadd_def)
qed

lemma sqrt_u256_exact:
  assumes x: "x < sqrt_limit" and sq: "isqrt_exact isqrt"
  shows "sqrt_u256 isqrt x = Some (floor_root 2 x)"
proof (cases "nat_bits x \<le> 64")
  case True
  then show ?thesis
    using sq by (simp add: sqrt_u256_def isqrt_exact_def nat_bits_le_iff)
next
  case False
  have x256: "x < 2 ^ 256"
    using x by (simp add: sqrt_limit_def)
  then obtain k q where k: "sqrt_u256 isqrt x = sqrt_loop x ((q + 1) * 2 ^ k)"
    "is_root 2 (x div 2 ^ (2 * k)) q" "0 < x div 2 ^ (2 * k)" "q < 2 ^ 32" "k \<le> 96"
    using sqrt_u256_start [OF _ _ sq, of x] False by (metis not_le)
  have s: "is_root 2 x (floor_root 2 x)"
    by (simp add: floor_root_is_root)
  have "(q + 1) * 2 ^ k < 2 ^ 128"
  proof (cases "k = 96")
    case True
    have "x div 2 ^ 192 < (2 ^ 32 - 1)\<^sup>2"
      using x by (simp add: sqrt_limit_def less_mult_imp_div_less)
    then have "q\<^sup>2 < (2 ^ 32 - 1)\<^sup>2"
      using k(2) True unfolding is_root_def by simp
    then have "q < 2 ^ 32 - 1"
      by (rule power_less_imp_base_less)
    then show ?thesis
      using True by simp
  next
    case False
    then have "(q + 1) * 2 ^ k \<le> 2 ^ 32 * 2 ^ 95"
      using k(4,5) by (intro mult_le_mono power_increasing) auto
    then show ?thesis
      by simp
  qed
  then have "((q + 1) * 2 ^ k) * ((q + 1) * 2 ^ k) < 2 ^ 128 * 2 ^ 128"
    by (intro mult_strict_mono) auto
  then show ?thesis
    using s start_bounds(1) [OF _ k(2,3) s] k(1,3) x256
    by (auto intro!: sqrt_loop_spec intro: gr0I)
qed

lemma sqrt_u256_panics:
  assumes x: "sqrt_limit \<le> x" "x < 2 ^ 256" and sq: "isqrt_exact isqrt"
  shows "sqrt_u256 isqrt x = None"
proof -
  have big: "2 ^ 255 \<le> x"
    using x(1) by (simp add: sqrt_limit_def)
  then have "64 < nat_bits x"
    using nat_bits_le_iff [of x 64] by (simp add: not_le [symmetric])
  then obtain q where q: "sqrt_u256 isqrt x = sqrt_loop x ((q + 1) * 2 ^ 96)"
    "is_root 2 (x div 2 ^ (2 * 96)) q"
    using sqrt_u256_start [OF x(2) _ sq] big by metis
  have "(2 ^ 32 - 1)\<^sup>2 \<le> x div 2 ^ 192"
    using x(1) by (simp add: sqrt_limit_def less_eq_div_iff_mult_less_eq)
  then have "(2 ^ 32 - 1)\<^sup>2 < Suc q ^ 2"
    using q(2) unfolding is_root_def by simp
  then have "2 ^ 32 - 1 < Suc q"
    by (rule power_less_imp_base_less)
  then have "2 ^ 128 \<le> (q + 1) * 2 ^ 96"
    by simp
  then have "2 ^ 128 * 2 ^ 128 \<le> ((q + 1) * 2 ^ 96) * ((q + 1) * 2 ^ 96)"
    by (intro mult_le_mono)
  then show ?thesis
    using q(1) by (simp add: sqrt_loop_overflow)
qed

definition exact_roots :: f64_roots where
  "exact_roots = \<lparr>fr_sqrt = floor_root 2, fr_sqrt_sqrt = floor_root 4, fr_exp_ln = floor_root\<rparr>"

lemma exact_roots_close: "f64_close exact_roots"
  by (simp add: f64_close_def exact_roots_def)

lemma loss_ratio_decreases:
  assumes "degree \<in> {1, 2, 3, 4, 5}" "p \<le> q" "q < 2 ^ 256" "f64_close fl"
  shows "\<exists>a b. loss_ratio fl degree p = Some a \<and> loss_ratio fl degree q = Some b \<and> b \<le> a \<and> a \<le> 2 ^ 128"
proof -
  define inv where "inv = (\<lambda>x. if degree = 1 then u256_max div x
    else (let m = (if degree = 5 then 12 else 15) in
      inv_quot degree m x * 2 ^ (192 + m - (nat_bits x - 1) div degree)))"
  have eq: "loss_ratio fl degree x = Some (inv x div 2 ^ 128) \<and> inv x div 2 ^ 128 \<le> 2 ^ 128"
    if x: "0 < x" "x < 2 ^ 256" for x
  proof (cases "degree = 1")
    case True
    have "u256_max div x \<le> u256_max"
      by (rule div_le_dividend)
    then have "u256_max div x div 2 ^ 128 \<le> u256_max div 2 ^ 128"
      by (rule div_le_mono)
    then show ?thesis
      using True x(1) by (simp add: loss_ratio_def inv_def cdiv_def)
  next
    case False
    define m :: nat where "m = (if degree = 5 then 12 else 15)"
    have m: "m \<le> 31" "degree * (m + 1) \<le> 256" "2 \<le> degree" "degree \<le> 7"
      using assms(1) False by (auto simp: m_def)
    have "loss_ratio fl degree x = do { v \<leftarrow> nth_inv_root fl degree m x; Some (v div 2 ^ 128) }"
      using assms(1) False x(1) by (auto simp: loss_ratio_def m_def)
    also have "nth_inv_root fl degree m x = Some (inv x)"
      using nth_inv_root_eq [OF m(3,4,1,2) x assms(4)] False by (simp add: inv_def Let_def m_def)
    finally have v: "loss_ratio fl degree x = Some (inv x div 2 ^ 128)"
      by simp
    have "inv x \<le> inv_quot degree m x * 2 ^ (192 + m)"
      using False by (simp add: inv_def Let_def power_increasing flip: m_def)
    also have "\<dots> \<le> 2 ^ (64 - m) * 2 ^ (192 + m)"
      using inv_quot_bounds(2) [OF x(1) _ m(1), of degree] m(3) by simp
    also have "\<dots> = 2 ^ 256"
      unfolding power_add [symmetric] using m(1) by simp
    finally have "inv x div 2 ^ 128 \<le> 2 ^ 256 div 2 ^ 128"
      by (rule div_le_mono)
    then show ?thesis
      using v by simp
  qed
  show ?thesis
  proof (cases "p = 0")
    case True
    then show ?thesis
      using eq [of q] assms(3) by (cases "q = 0") (auto simp: loss_ratio_def)
  next
    case False
    have "inv q \<le> inv p"
      using False assms inv_root_antitone [of degree "if degree = 5 then 12 else 15" p q]
      by (auto simp: inv_def div_le_mono2)
    then show ?thesis
      using eq [of p] eq [of q] False assms(2,3) by (auto simp: div_le_mono)
  qed
qed

section \<open>Properties\<close>

text \<open>C23: Every root lookup (a byte table built at compile time for the degrees 2 to 5, a bisected
  table of powers for 6 to 12) returns the floor of the root, for every input of
  \<^verbatim>\<open>LOOKUP_BITS\<close> bits; in particular no index is out of range.\<close>

theorem nth_root_lookup_exact:
  assumes "2 \<le> n" "n \<le> 12" "x < 2 ^ lookup_bits n"
  shows "nth_root_lookup n x = Some (floor_root n x)"
  using nth_root_lookup_root [OF assms] assms(1) by (auto simp: floor_root_eq)

theorem nth_root_lookup_exact_witness: "nth_root_lookup 3 1000000 = Some 100"
proof -
  have "floor_root 3 1000000 = 100"
    using floor_root_eq [of 3 1000000 100] by (simp add: is_root_def)
  then show ?thesis
    using nth_root_lookup_exact [of 3 1000000] by (simp add: lookup_bits_def)
qed

text \<open>C22: Newton's method ends, without overflow, with the floor of the root, from every start value
  that is not below the root and whose derivative fits the width.\<close>

theorem newtons_method_converges:
  assumes "2 \<le> n" "n \<le> 2 ^ 32" "0 < x" "x < 2 ^ w" "floor_root n x \<le> r" "n * r ^ (n - 1) < 2 ^ w"
  shows "newtons_method w n x r = Some (floor_root n x)"
  using assms by (intro newtons_method_spec floor_root_is_root) auto

theorem newtons_method_converges_witness: "newtons_method 64 3 1000 13 = Some 10"
proof -
  have "floor_root 3 1000 = 10"
    using floor_root_eq [of 3 1000 10] by (simp add: is_root_def)
  then show ?thesis
    using newtons_method_converges [of 3 1000 64 13] by simp
qed

text \<open>C21: \<^verbatim>\<open>nth_root\<close> of the four integer types returns the floor of the root for the degrees 2 to 7,
  provided the floating-point start values of the 64-bit instance are off by at most one.\<close>

theorem nth_root_floor:
  assumes "2 \<le> n" "n \<le> 7" "x < 2 ^ 512" "f64_close fl"
  shows "nth_root_u512 fl n x = Some (floor_root n x) \<and>
    (x < 2 ^ 256 \<longrightarrow> nth_root_u256 fl n x = Some (floor_root n x)) \<and>
    (x < 2 ^ 128 \<longrightarrow> nth_root_u128 fl n x = Some (floor_root n x)) \<and>
    (x < 2 ^ 64 \<longrightarrow> nth_root_u64 fl n x = Some (floor_root n x))"
  using assms nth_root_u512_eq nth_root_u256_eq nth_root_u128_eq nth_root_u64_eq by blast

theorem nth_root_floor_witness:
  "nth_root_u512 exact_roots 5 (10 ^ 100) = Some (10 ^ 20) \<and> nth_root_u64 exact_roots 4 10001 = Some 10"
proof -
  have "floor_root 5 (10 ^ 100) = 10 ^ 20" "floor_root 4 10001 = 10"
    using floor_root_eq [of 5 "10 ^ 100" "10 ^ 20"] floor_root_eq [of 4 10001 10]
    by (simp_all add: is_root_def)
  then show ?thesis
    using nth_root_floor [of 5 "10 ^ 100" exact_roots] nth_root_floor [of 4 10001 exact_roots]
      exact_roots_close by simp
qed

text \<open>C24: The loss ratio of the packing pool is defined for every gas price and every configured
  degree, is at most one (represented as \<open>2 ^ 128\<close>), and never increases with the gas price.\<close>

theorem loss_ratio_antitone:
  assumes "degree \<in> {1, 2, 3, 4, 5}" "p \<le> q" "q < 2 ^ 256" "f64_close fl"
  shows "\<exists>a b. loss_ratio fl degree p = Some a \<and> loss_ratio fl degree q = Some b \<and> b \<le> a \<and> a \<le> 2 ^ 128"
  using assms by (rule loss_ratio_decreases)

theorem loss_ratio_antitone_witness:
  "\<exists>a b. loss_ratio exact_roots 4 1000000000 = Some a \<and>
    loss_ratio exact_roots 4 2000000000 = Some b \<and> b \<le> a \<and> a \<le> 2 ^ 128"
  by (rule loss_ratio_antitone) (simp_all add: exact_roots_close)

text \<open>C25: \<^verbatim>\<open>sqrt_u256\<close> returns the floor of the square root of every input below
  \<open>(2 ^ 32 - 1)\<^sup>2 * 2 ^ 192\<close>; at and above it the start value is \<open>2 ^ 128\<close>, whose square
  overflows, and the function panics.\<close>

theorem sqrt_u256_exact_or_panics:
  assumes "x < 2 ^ 256" "isqrt_exact isqrt"
  shows "sqrt_u256 isqrt x = (if x < sqrt_limit then Some (floor_root 2 x) else None)"
  using assms by (simp add: sqrt_u256_exact sqrt_u256_panics)

theorem sqrt_u256_exact_or_panics_witness:
  "sqrt_u256 (floor_root 2) u256_max = None \<and> sqrt_u256 (floor_root 2) (2 ^ 254) = Some (2 ^ 127)"
proof -
  have "floor_root 2 (2 ^ 254) = 2 ^ 127"
    using floor_root_eq [of 2 "2 ^ 254" "2 ^ 127"] by (simp add: is_root_def)
  then show ?thesis
    using sqrt_u256_exact_or_panics [of u256_max "floor_root 2"]
      sqrt_u256_exact_or_panics [of "2 ^ 254" "floor_root 2"]
    by (simp add: isqrt_exact_def sqrt_limit_def)
qed

end
