(* ===== verification/Power_Two.thy ===== *)
theory Power_Two
  imports Nth_Root Complex_Main
begin

text \<open>
  \<^verbatim>\<open>power_two_fractional\<close> of \<^verbatim>\<open>src/crates/mazze_math/src/lib.rs\<close> in its decreasing direction, against the
  real power of two it approximates. The loop halves and takes square roots bit by bit; the lemmas
  bound the error of one round of it in units of the last of 127 bits.
\<close>

section \<open>The value after some bits\<close>

text \<open>The exact value after the low \<open>i\<close> bits of the ratio, scaled by \<open>2 ^ 127\<close>.\<close>

definition decay_value :: "nat \<Rightarrow> nat \<Rightarrow> real" where
  "decay_value ratio i = 2 ^ 127 * 2 powr (- (real (ratio mod 2 ^ i) / 2 ^ i))"

lemma decay_value_pos: "0 < decay_value ratio i"
  by (simp add: decay_value_def)

lemma decay_value_Suc:
  "(decay_value ratio (Suc i))\<^sup>2 = 2 ^ 127 * decay_value ratio i * (if odd (ratio div 2 ^ i) then 1 / 2 else 1)"
proof -
  let ?x = "real (ratio mod 2 ^ i) / 2 ^ i" and ?bit = "ratio div 2 ^ i mod 2"
  have "ratio mod 2 ^ Suc i = 2 ^ i * ?bit + ratio mod 2 ^ i"
    by (simp add: mod_mult2_eq mult.commute [of 2])
  then have "2 * (real (ratio mod 2 ^ Suc i) / 2 ^ Suc i) = real ?bit + ?x"
    by (simp add: add_divide_distrib)
  then have "(2 powr (- (real (ratio mod 2 ^ Suc i) / 2 ^ Suc i)))\<^sup>2 = 2 powr (- real ?bit) * 2 powr (- ?x)"
    by (simp add: powr_realpow [symmetric] powr_powr powr_add [symmetric] power2_eq_square)
  moreover have "2 powr (- real ?bit) = (if odd (ratio div 2 ^ i) then 1 / 2 else 1 :: real)"
    by (auto simp: powr_minus odd_iff_mod_2_eq_one even_iff_mod_2_eq_zero)
  ultimately show ?thesis
    unfolding decay_value_def power_mult_distrib by (simp add: power2_eq_square)
qed

definition decay_close :: "nat \<Rightarrow> nat \<Rightarrow> nat \<Rightarrow> bool" where
  "decay_close ratio i s \<longleftrightarrow>
     2 ^ 126 \<le> s \<and> s \<le> 2 ^ 127 \<and> real s \<le> decay_value ratio i \<and> decay_value ratio i < real s + 7 / 2"

section \<open>One round of the loop\<close>

lemma decay_round:
  assumes s: "decay_close ratio i s"
    and b: "b = (if odd (ratio div 2 ^ i) then s * 2 ^ 127 div 2 else s * 2 ^ 127)"
  shows "decay_close ratio (Suc i) (floor_root 2 b) \<and> b \<le> 2 ^ 254"
proof -
  define k :: real where "k = (if odd (ratio div 2 ^ i) then 1 / 2 else 1)"
  let ?t = "floor_root 2 b" and ?Y = "decay_value ratio i" and ?Z = "decay_value ratio (Suc i)"
  have lo: "2 ^ 126 \<le> s" and hi: "s \<le> 2 ^ 127" and Y: "real s \<le> ?Y" "?Y < real s + 7 / 2"
    using s by (auto simp: decay_close_def)
  have half: "s * 2 ^ 127 div 2 = s * 2 ^ 126"
    by simp
  have rb: "real b = 2 ^ 127 * real s * k" and b254: "b \<le> 2 ^ 254" and b252: "2 ^ 252 \<le> b"
    using hi lo by (simp_all add: b k_def half)
  have root: "?t\<^sup>2 \<le> b" "b < Suc ?t ^ 2"
    using floor_root_is_root [of 2 b] by (simp_all add: is_root_def)
  have Z: "?Z\<^sup>2 = 2 ^ 127 * ?Y * k"
    unfolding decay_value_Suc k_def ..
  have "(2 ^ 126)\<^sup>2 < Suc ?t ^ 2"
    using root(2) b252 by simp
  then have t126: "2 ^ 126 \<le> ?t"
    using power_less_imp_base_less by fastforce
  have "?t\<^sup>2 < (2 ^ 127 + 1)\<^sup>2"
    using root(1) b254 by simp
  then have t127: "?t \<le> 2 ^ 127"
    using power_less_imp_base_less by fastforce
  have k: "0 < k"
    by (simp add: k_def)
  have "(real ?t)\<^sup>2 \<le> real b"
    using root(1) by (metis of_nat_le_iff of_nat_power)
  also have "\<dots> \<le> ?Z\<^sup>2"
    unfolding rb Z using Y(1) k by (intro mult_right_mono mult_left_mono) auto
  finally have below: "real ?t \<le> ?Z"
    by (rule power2_le_imp_le) (simp add: less_imp_le decay_value_pos)
  have "real b < real (Suc ?t ^ 2)"
    using root(2) by (simp only: of_nat_less_iff)
  then have next_b: "real b < (real ?t + 1)\<^sup>2"
    unfolding of_nat_power of_nat_Suc by (simp only: add.commute)
  have gap: "2 ^ 127 * (7 / 2) * k \<le> 5 * (real ?t + 1)"
  proof (cases "odd (ratio div 2 ^ i)")
    case True
    have "2 ^ 126 \<le> real ?t"
      using t126 by (metis of_nat_le_iff of_nat_numeral of_nat_power)
    with True show ?thesis
      by (simp add: k_def)
  next
    case False
    have "real (2 ^ 126) \<le> real s"
      using lo by (simp only: of_nat_le_iff)
    then have "(7 / 5 * 2 ^ 126)\<^sup>2 \<le> real b"
      using False by (simp add: rb k_def power2_eq_square)
    then have "(7 / 5 * 2 ^ 126)\<^sup>2 < (real ?t + 1)\<^sup>2"
      using next_b by linarith
    then have "7 / 5 * 2 ^ 126 < real ?t + 1"
      by (rule power2_less_imp_less) simp
    with False show ?thesis
      by (simp add: k_def)
  qed
  have "?Z\<^sup>2 < 2 ^ 127 * (real s + 7 / 2) * k"
    unfolding Z using Y(2) k by simp
  also have "\<dots> = real b + 2 ^ 127 * (7 / 2) * k"
    by (simp add: rb algebra_simps)
  also have "\<dots> < (real ?t + 1)\<^sup>2 + 5 * (real ?t + 1)"
    using next_b gap by linarith
  also have "\<dots> \<le> (real ?t + 7 / 2)\<^sup>2"
    by (simp add: power2_eq_square algebra_simps)
  finally have "?Z < real ?t + 7 / 2"
    by (rule power2_less_imp_less) simp
  then show ?thesis
    using below t126 t127 b254 by (simp add: decay_close_def)
qed

lemma decay_loop:
  assumes "isqrt_exact isqrt" "i \<le> 64" "decay_close ratio i s"
  shows "\<exists>r. two_fractional_loop isqrt ratio False [i..<64] (s * 2 ^ 127) = Some (r * 2 ^ 127) \<and> decay_close ratio 64 r"
  using assms(2,3)
proof (induction "64 - i" arbitrary: i s)
  case (Suc d)
  define b where "b = (if odd (ratio div 2 ^ i) then s * 2 ^ 127 div 2 else s * 2 ^ 127)"
  let ?t = "floor_root 2 b"
  have i: "[i..<64] = i # [Suc i..<64]" "Suc i \<le> 64" "d = 64 - Suc i"
    using Suc.hyps(2) by (auto simp: upt_rec)
  have t: "decay_close ratio (Suc i) ?t" "b \<le> 2 ^ 254"
    using decay_round [OF Suc.prems(2) b_def] by auto
  have sq: "sqrt_u256 isqrt b = Some ?t"
    using t(2) by (intro sqrt_u256_exact assms(1)) (simp add: sqrt_limit_def)
  have shl: "shl 256 ?t 127 = ?t * 2 ^ 127"
    using t(1) by (simp add: shl_def decay_close_def)
  from Suc.hyps(1) [OF i(3,2) t(1)] show ?case
    using sq shl unfolding i(1) two_fractional_loop.simps Let_def if_False b_def [symmetric] by simp
qed auto

section \<open>The result\<close>

text \<open>
  C26: \<^verbatim>\<open>power_two_fractional\<close> in its decreasing direction never panics for a precision that the
  assertion admits. At 127 bits its result is at most \<open>2 powr (- ratio / 2 ^ 64)\<close>, scaled by
  \<open>2 ^ 127\<close>, and less than 3.5 units below it, better than the 5.2 units of the comment; at a
  smaller precision, zero included, it is that result without the lower bits.
\<close>

theorem power_two_fractional_decay:
  assumes "isqrt_exact isqrt" "ratio < 2 ^ 64"
  shows "\<exists>r. real r \<le> 2 ^ 127 * 2 powr (- (real ratio / 2 ^ 64)) \<and>
    2 ^ 127 * 2 powr (- (real ratio / 2 ^ 64)) < real r + 7 / 2 \<and>
    (\<forall>precision\<le>127. power_two_fractional isqrt ratio False precision = Some (r div 2 ^ (127 - precision)))"
proof -
  have "decay_close ratio 0 (2 ^ 127)"
    by (simp add: decay_close_def decay_value_def)
  from decay_loop [OF assms(1) le0 this]
  obtain r where r: "two_fractional_loop isqrt ratio False [0..<64] (2 ^ 127 * 2 ^ 127) = Some (r * 2 ^ 127)"
    "decay_close ratio 64 r"
    by auto
  have "power_two_fractional isqrt ratio False p = Some (r div 2 ^ (127 - p))" if "p \<le> 127" for p
  proof -
    have "(2 :: nat) ^ (254 - p) = 2 ^ 127 * 2 ^ (127 - p)"
      unfolding power_add [symmetric] using that by simp
    then have "r * 2 ^ 127 div 2 ^ (254 - p) = r div 2 ^ (127 - p)"
      by (simp add: div_mult2_eq)
    moreover have "shl 256 1 254 = 2 ^ 127 * 2 ^ 127"
      by (simp add: shl_def)
    ultimately show ?thesis
      using that r(1) by (simp only: power_two_fractional_def assert_that_def) simp
  qed
  then show ?thesis
    using r(2) assms(2) by (auto simp: decay_close_def decay_value_def)
qed

text \<open>At one half the result approximates the inverse of the square root of two.\<close>

theorem power_two_fractional_decay_witness:
  "\<exists>r. real r \<le> 2 ^ 127 / sqrt 2 \<and> 2 ^ 127 / sqrt 2 < real r + 7 / 2 \<and>
     power_two_fractional (floor_root 2) (2 ^ 63) False 64 = Some (r div 2 ^ 63)"
proof -
  have half: "real (2 ^ 63) / 2 ^ 64 = 1 / 2"
    by simp
  have "2 powr (1 / 2) = sqrt (2 :: real)"
    by (rule powr_half_sqrt) simp
  then have val: "2 ^ 127 * 2 powr (- (real (2 ^ 63) / 2 ^ 64)) = 2 ^ 127 / sqrt 2"
    unfolding half powr_minus by (simp only: divide_inverse)
  have "isqrt_exact (floor_root 2)" "(2 :: nat) ^ 63 < 2 ^ 64"
    by (simp_all add: isqrt_exact_def)
  from power_two_fractional_decay [OF this, unfolded val]
  obtain r where r: "real r \<le> 2 ^ 127 / sqrt 2" "2 ^ 127 / sqrt 2 < real r + 7 / 2"
    "\<forall>precision\<le>127. power_two_fractional (floor_root 2) (2 ^ 63) False precision = Some (r div 2 ^ (127 - precision))"
    by blast
  have "power_two_fractional (floor_root 2) (2 ^ 63) False 64 = Some (r div 2 ^ (127 - 64))"
    using r(3) by (rule allE [of _ 64]) (simp only:)
  moreover have "(127 :: nat) - 64 = 63"
    by simp
  ultimately show ?thesis
    using r(1,2) by (intro exI [of _ r]) (simp only: simp_thms)
qed

end
