(* ===== verification/Packing_Pool.thy ===== *)
theory Packing_Pool
  imports Treap_Search Packing_Batch Base_Price Nth_Root "HOL-Library.AList"
begin

text \<open>
  The packing pool (\<^verbatim>\<open>crates/mazzecore/packing-pool\<close>: \<^verbatim>\<open>weight.rs\<close>, \<^verbatim>\<open>key_mng.rs\<close>,
  \<^verbatim>\<open>treapmap_config.rs\<close>, \<^verbatim>\<open>pool.rs\<close>): one batch per sender, in a treap ordered by descending price of the
  first transaction, whose weights add up gas limits and loss ratios.

  The treap is the one of \<open>Treap_Map\<close> with the configuration \<open>pool_map_config\<close>; its key manager, a
  hash map from senders to prices, is the association list \<open>ext\<close> without repeated keys.
  The closures given to \<^verbatim>\<open>update\<close> cannot fail (\<^verbatim>\<open>Infallible\<close>), so their error value marks a panic
  (\<open>Panicked\<close>); the only real failure is the one of \<^verbatim>\<open>split_off\<close> on an absent sender.
  A batch in the pool is never empty: every closure computes its \<^verbatim>\<open>pack_info\<close>, which panics on an
  empty batch, before the key manager sees it; \<open>batch_price\<close> is therefore total.

  Sums of weights are exact natural numbers. An addition of the source that does not fit \<^verbatim>\<open>U256\<close>
  panics; \<open>finish_update\<close> accounts for it by \<open>sum_fits\<close>. Every sum that an update computes is the sum
  of some entries of the map before or after it, and the sums on the way from a changed node to the
  root are recomputed: an update of a pool whose sums fit panics exactly when the sum of all
  entries after it, the one at the root, does not fit.
\<close>

section \<open>Weights\<close>

record pp_weight =
  w_gas_limit :: u256
  w_min_gas_price :: u256
  w_weighted_loss_ratio :: u256
  w_max_loss_ratio :: u256

definition pp_empty :: pp_weight where
  "pp_empty = \<lparr>w_gas_limit = 0, w_min_gas_price = u256_max, w_weighted_loss_ratio = 0, w_max_loss_ratio = 0\<rparr>"

definition pp_consolidate :: "pp_weight \<Rightarrow> pp_weight \<Rightarrow> pp_weight" where
  "pp_consolidate a b =
     \<lparr>w_gas_limit = w_gas_limit a + w_gas_limit b,
      w_min_gas_price = min (w_min_gas_price a) (w_min_gas_price b),
      w_weighted_loss_ratio = w_weighted_loss_ratio a + w_weighted_loss_ratio b,
      w_max_loss_ratio = max (w_max_loss_ratio a) (w_max_loss_ratio b)\<rparr>"

definition pp_accure :: "pp_weight \<Rightarrow> pp_weight \<Rightarrow> pp_weight" where
  "pp_accure a b =
     (let a = a\<lparr>w_gas_limit := w_gas_limit a + w_gas_limit b\<rparr>;
          a = a\<lparr>w_weighted_loss_ratio := w_weighted_loss_ratio a + w_weighted_loss_ratio b\<rparr>;
          a = a\<lparr>w_max_loss_ratio := max (w_max_loss_ratio a) (w_max_loss_ratio b)\<rparr>
      in a\<lparr>w_min_gas_price := min (w_min_gas_price a) (w_min_gas_price b)\<rparr>)"

section \<open>Keys\<close>

type_synonym 'a pp_ext = "('a \<times> u256) list"
type_synonym ('tx, 'a) pp_config = "('a, u256, 'tx batch, pp_weight, 'a pp_ext) treap_config"
type_synonym ('tx, 'a) pp_entry = "('a, u256, 'tx batch, pp_weight) entry"
type_synonym ('tx, 'a, 'r) pp_map = "('a, u256, 'tx batch, pp_weight, 'a pp_ext, 'r) treap_map"

definition batch_price :: "('tx, 'a) tx_ops \<Rightarrow> 'tx batch \<Rightarrow> u256" where
  "batch_price T b = (case first_gas_price T b of Some p \<Rightarrow> p | None \<Rightarrow> 0)"

definition pp_view_update ::
  "('tx, 'a) tx_ops \<Rightarrow> 'a pp_ext \<Rightarrow> 'a \<Rightarrow> 'tx batch option \<Rightarrow> 'tx batch option \<Rightarrow> 'a pp_ext" where
  "pp_view_update T ext key val old_val =
     (case (val, old_val) of
        (Some v, _) \<Rightarrow> AList.update key (batch_price T v) ext
      | (None, Some _) \<Rightarrow> AList.delete key ext
      | (None, None) \<Rightarrow> ext)"

definition pp_next_node_dir :: "u256 \<times> 'a::linorder \<Rightarrow> u256 \<times> 'a \<Rightarrow> direction option" where
  "pp_next_node_dir me other =
     (if fst other < fst me then Some Left
      else if fst me < fst other then Some Right
      else if snd me < snd other then Some Left
      else if snd other < snd me then Some Right
      else None)"

definition pool_map_config :: "('tx, 'a::linorder) tx_ops \<Rightarrow> ('tx, 'a) pp_config" where
  "pool_map_config T =
     \<lparr>next_node_dir = pp_next_node_dir, weight_empty = pp_empty, consolidate = pp_consolidate,
      accure = pp_accure, ext_default = [], view_update = pp_view_update T, ext_len = length,
      get_sort_key = map_of, make_sort_key = (\<lambda>_ _ b. batch_price T b)\<rparr>"

section \<open>The pool\<close>

record ('tx, 'a, 'r) packing_pool =
  pool_map :: "('tx, 'a, 'r) pp_map"
  pool_config :: packing_pool_config

datatype pool_abort = Panicked | NotPresent

definition sum_fits :: "('tx, 'a, 'r) pp_map \<Rightarrow> bool" where
  "sum_fits m =
     (case root m of
        Empty \<Rightarrow> True
      | Node _ s _ _ _ \<Rightarrow> w_gas_limit s < 2 ^ 256 \<and> w_weighted_loss_ratio s < 2 ^ 256)"

definition pool_new :: "('tx, 'a::linorder) tx_ops \<Rightarrow> packing_pool_config \<Rightarrow> 'r \<Rightarrow> ('tx, 'a, 'r) packing_pool" where
  "pool_new T cfg r = \<lparr>pool_map = treap_new (pool_map_config T) r, pool_config = cfg\<rparr>"

definition pool_len :: "('tx, 'a::linorder) tx_ops \<Rightarrow> ('tx, 'a, 'r) packing_pool \<Rightarrow> nat" where
  "pool_len T P = treap_len (pool_map_config T) (pool_map P)"

definition pool_iter :: "('tx, 'a, 'r) packing_pool \<Rightarrow> 'tx list list" where
  "pool_iter P = map txs (treap_values (pool_map P))"

definition pool_contains :: "('tx, 'a::linorder) tx_ops \<Rightarrow> ('tx, 'a, 'r) packing_pool \<Rightarrow> 'a \<Rightarrow> bool" where
  "pool_contains T P addr = treap_contains_key (pool_map_config T) (pool_map P) addr"

definition get_transactions :: "('tx, 'a::linorder) tx_ops \<Rightarrow> ('tx, 'a, 'r) packing_pool \<Rightarrow> 'a \<Rightarrow> 'tx list option" where
  "get_transactions T P addr = map_option txs (treap_get (pool_map_config T) (pool_map P) addr)"

text \<open>\<^verbatim>\<open>clear\<close> makes a fresh map, with a freshly seeded random source.\<close>

definition pool_clear :: "('tx, 'a::linorder) tx_ops \<Rightarrow> 'r \<Rightarrow> ('tx, 'a, 'r) packing_pool \<Rightarrow> ('tx, 'a, 'r) packing_pool" where
  "pool_clear T r P = P\<lparr>pool_map := treap_new (pool_map_config T) r\<rparr>"

definition make_apply_outcome ::
  "f64_roots \<Rightarrow> packing_pool_config \<Rightarrow> pack_info \<Rightarrow> pack_info \<Rightarrow> ('tx, 'a) pp_entry \<Rightarrow> 't \<Rightarrow>
   (('tx, 'a) pp_entry \<times> 't apply_outcome) option" where
  "make_apply_outcome fl cfg old_info new_info node ret = do {
     let change_gas_price = (pi_first_gas_price old_info \<noteq> pi_first_gas_price new_info);
     let change_gas_limit = (pi_total_gas_limit old_info \<noteq> pi_total_gas_limit new_info);
     if change_gas_price then do {
       let gas_price = pi_first_gas_price new_info;
       r \<leftarrow> loss_ratio fl (loss_ratio_degree cfg) gas_price;
       wl \<leftarrow> cmul 256 (pi_total_gas_limit new_info) r;
       Some (node\<lparr>e_sort := gas_price,
                  e_weight := (e_weight node)\<lparr>w_max_loss_ratio := r,
                    w_gas_limit := pi_total_gas_limit new_info, w_weighted_loss_ratio := wl\<rparr>\<rparr>,
             \<lparr>out = ret, update_weight_flag = True, update_key = True, delete_item = False\<rparr>)
     } else if change_gas_limit then do {
       wl \<leftarrow> cmul 256 (pi_total_gas_limit new_info) (w_max_loss_ratio (e_weight node));
       Some (node\<lparr>e_weight := (e_weight node)\<lparr>w_gas_limit := pi_total_gas_limit new_info,
                    w_weighted_loss_ratio := wl\<rparr>\<rparr>,
             \<lparr>out = ret, update_weight_flag = True, update_key = False, delete_item = False\<rparr>)
     } else Some (node, \<lparr>out = ret, update_weight_flag = False, update_key = False, delete_item = False\<rparr>)
   }"

definition make_outcome_on_delete :: "('tx, 'a) pp_entry \<Rightarrow> ('tx, 'a) pp_entry \<times> 'tx list apply_outcome" where
  "make_outcome_on_delete node =
     (node\<lparr>e_val := (e_val node)\<lparr>txs := []\<rparr>\<rparr>,
      \<lparr>out = txs (e_val node), update_weight_flag = False, update_key = False, delete_item = True\<rparr>)"

text \<open>\<^verbatim>\<open>make_node\<close> up to the priority, which is the next value of the random source.\<close>

definition make_node ::
  "('tx, 'a) tx_ops \<Rightarrow> f64_roots \<Rightarrow> packing_pool_config \<Rightarrow> 'tx batch \<Rightarrow>
   (u64 \<Rightarrow> ('a, u256, 'tx batch, pp_weight) tree) option" where
  "make_node T fl cfg b = do {
     key \<leftarrow> batch_sender T b;
     gas_price \<leftarrow> first_gas_price T b;
     r \<leftarrow> loss_ratio fl (loss_ratio_degree cfg) gas_price;
     wl \<leftarrow> cmul 256 r (total_gas_limit b);
     Some (node_new key b gas_price
       \<lparr>w_gas_limit = total_gas_limit b, w_min_gas_price = gas_price,
        w_weighted_loss_ratio = wl, w_max_loss_ratio = r\<rparr>)
   }"

definition closure_result ::
  "('tx, 'a) pp_entry \<Rightarrow> (('tx, 'a) pp_entry \<times> 't apply_outcome) option \<Rightarrow>
   ('tx, 'a) pp_entry \<times> (pool_abort + 't apply_outcome)" where
  "closure_result node res =
     (case res of None \<Rightarrow> (node, Inl Panicked) | Some (node', oc) \<Rightarrow> (node', Inr oc))"

definition insert_node ::
  "('tx, 'a) tx_ops \<Rightarrow> f64_roots \<Rightarrow> packing_pool_config \<Rightarrow> ('r \<Rightarrow> 'r \<times> u64) \<Rightarrow> 'tx batch \<Rightarrow> 't \<Rightarrow> 'r \<Rightarrow>
   'r \<times> (pool_abort + ('a, u256, 'tx batch, pp_weight) tree \<times> 't)" where
  "insert_node T fl cfg nx b ret r =
     (case make_node T fl cfg b of
        None \<Rightarrow> (r, Inl Panicked)
      | Some node \<Rightarrow> (let (r', p) = nx r in (r', Inr (node p, ret))))"

definition finish_update ::
  "('tx, 'a, 'r) packing_pool \<Rightarrow> ('tx, 'a, 'r) pp_map \<times> (pool_abort + 't) option \<Rightarrow> 't option \<Rightarrow>
   (('tx, 'a, 'r) packing_pool \<times> 't) option" where
  "finish_update P res absent =
     (case res of
        (m, Some (Inr ret)) \<Rightarrow> if sum_fits m then Some (P\<lparr>pool_map := m\<rparr>, ret) else None
      | (m, Some (Inl NotPresent)) \<Rightarrow> map_option (Pair (P\<lparr>pool_map := m\<rparr>)) absent
      | _ \<Rightarrow> None)"

definition insert_closure ::
  "('tx, 'a) tx_ops \<Rightarrow> f64_roots \<Rightarrow> packing_pool_config \<Rightarrow> 'tx \<Rightarrow> ('tx, 'a) pp_entry \<Rightarrow>
   ('tx, 'a) pp_entry \<times> (pool_abort + ('tx list \<times> (insert_error + unit)) apply_outcome)" where
  "insert_closure T fl cfg tx node =
     closure_result node (do {
       old_info \<leftarrow> pack_info_of T (e_val node);
       (b, ret) \<leftarrow> batch_insert T cfg (e_val node) tx;
       new_info \<leftarrow> pack_info_of T b;
       make_apply_outcome fl cfg old_info new_info (node\<lparr>e_val := b\<rparr>) ret
     })"

definition pool_insert ::
  "('tx, 'a::linorder) tx_ops \<Rightarrow> f64_roots \<Rightarrow> ('r \<Rightarrow> 'r \<times> u64) \<Rightarrow> ('tx, 'a, 'r) packing_pool \<Rightarrow> 'tx \<Rightarrow>
   (('tx, 'a, 'r) packing_pool \<times> 'tx list \<times> (insert_error + unit)) option" where
  "pool_insert T fl nx P tx =
     (let cfg = pool_config P in
      finish_update P
        (treap_update (pool_map_config T) nx (pool_map P) (sender_of T tx) (insert_closure T fl cfg tx)
          (insert_node T fl cfg nx (batch_new T tx) ([], Inr ())))
        None)"

definition replace_closure ::
  "('tx, 'a) tx_ops \<Rightarrow> f64_roots \<Rightarrow> packing_pool_config \<Rightarrow> 'tx batch \<Rightarrow> ('tx, 'a) pp_entry \<Rightarrow>
   ('tx, 'a) pp_entry \<times> (pool_abort + 'tx list apply_outcome)" where
  "replace_closure T fl cfg b node =
     closure_result node (do {
       old_info \<leftarrow> pack_info_of T (e_val node);
       new_info \<leftarrow> pack_info_of T b;
       make_apply_outcome fl cfg old_info new_info (node\<lparr>e_val := b\<rparr>) (txs (e_val node))
     })"

definition pool_replace ::
  "('tx, 'a::linorder) tx_ops \<Rightarrow> f64_roots \<Rightarrow> ('r \<Rightarrow> 'r \<times> u64) \<Rightarrow> ('tx, 'a, 'r) packing_pool \<Rightarrow> 'tx batch \<Rightarrow>
   (('tx, 'a, 'r) packing_pool \<times> 'tx list) option" where
  "pool_replace T fl nx P b = do {
     let cfg = pool_config P;
     sender \<leftarrow> batch_sender T b;
     finish_update P
       (treap_update (pool_map_config T) nx (pool_map P) sender (replace_closure T fl cfg b)
         (insert_node T fl cfg nx b []))
       None
   }"

definition split_closure ::
  "('tx, 'a) tx_ops \<Rightarrow> f64_roots \<Rightarrow> packing_pool_config \<Rightarrow> u256 \<Rightarrow> bool \<Rightarrow> ('tx, 'a) pp_entry \<Rightarrow>
   ('tx, 'a) pp_entry \<times> (pool_abort + 'tx list apply_outcome)" where
  "split_closure T fl cfg nonce keep_prefix node =
     closure_result node (do {
       old_info \<leftarrow> pack_info_of T (e_val node);
       (b, res) \<leftarrow> split_off_by_nonce T (e_val node) nonce keep_prefix;
       (case res of
          Inl ShouldDelete \<Rightarrow> Some (make_outcome_on_delete (node\<lparr>e_val := b\<rparr>))
        | Inr ret \<Rightarrow> do {
            new_info \<leftarrow> pack_info_of T b;
            make_apply_outcome fl cfg old_info new_info (node\<lparr>e_val := b\<rparr>) ret
          })
     })"

definition pool_split_off ::
  "('tx, 'a::linorder) tx_ops \<Rightarrow> f64_roots \<Rightarrow> ('r \<Rightarrow> 'r \<times> u64) \<Rightarrow> ('tx, 'a, 'r) packing_pool \<Rightarrow> 'a \<Rightarrow> u256 \<Rightarrow> bool \<Rightarrow>
   (('tx, 'a, 'r) packing_pool \<times> 'tx list) option" where
  "pool_split_off T fl nx P sender nonce keep_prefix =
     finish_update P
       (treap_update (pool_map_config T) nx (pool_map P) sender
         (split_closure T fl (pool_config P) nonce keep_prefix) (\<lambda>r. (r, Inl NotPresent)))
       (Some [])"

definition pool_split_off_suffix ::
  "('tx, 'a::linorder) tx_ops \<Rightarrow> f64_roots \<Rightarrow> ('r \<Rightarrow> 'r \<times> u64) \<Rightarrow> ('tx, 'a, 'r) packing_pool \<Rightarrow> 'a \<Rightarrow> u256 \<Rightarrow>
   (('tx, 'a, 'r) packing_pool \<times> 'tx list) option" where
  "pool_split_off_suffix T fl nx P sender nonce = pool_split_off T fl nx P sender nonce True"

definition pool_split_off_prefix ::
  "('tx, 'a::linorder) tx_ops \<Rightarrow> f64_roots \<Rightarrow> ('r \<Rightarrow> 'r \<times> u64) \<Rightarrow> ('tx, 'a, 'r) packing_pool \<Rightarrow> 'a \<Rightarrow> u256 \<Rightarrow>
   (('tx, 'a, 'r) packing_pool \<times> 'tx list) option" where
  "pool_split_off_prefix T fl nx P sender nonce = pool_split_off T fl nx P sender nonce False"

definition pool_remove ::
  "('tx, 'a::linorder) tx_ops \<Rightarrow> f64_roots \<Rightarrow> ('r \<Rightarrow> 'r \<times> u64) \<Rightarrow> ('tx, 'a, 'r) packing_pool \<Rightarrow> 'a \<Rightarrow>
   (('tx, 'a, 'r) packing_pool \<times> 'tx list) option" where
  "pool_remove T fl nx P sender = pool_split_off_suffix T fl nx P sender 0"

section \<open>Searching by weight\<close>

definition can_sample :: "pp_weight \<Rightarrow> u256 \<Rightarrow> bool" where
  "can_sample w gas_limit =
     (if w_gas_limit w \<le> gas_limit then True
      else sat_mul 256 (w_max_loss_ratio w) (w_gas_limit w - gas_limit) < w_weighted_loss_ratio w)"

definition sample_dir ::
  "(pp_weight \<Rightarrow> bool) \<Rightarrow> pp_weight \<Rightarrow> ('tx, 'a) pp_entry \<Rightarrow> pp_weight search_direction" where
  "sample_dir ok left_weight node =
     (if \<not> ok left_weight then SLeft
      else
        let right_weight = pp_consolidate left_weight (e_weight node)
        in if \<not> ok right_weight then SStop else SRight right_weight)"

definition truncate_loss_ratio ::
  "('tx, 'a::linorder) tx_ops \<Rightarrow> ('tx, 'a, 'r) packing_pool \<Rightarrow> u256 \<Rightarrow> u256 option" where
  "truncate_loss_ratio T P block_gas_limit =
     (let select = (\<lambda>base_weight.
            if w_gas_limit base_weight > block_gas_limit
            then Some (w_weighted_loss_ratio base_weight div (w_gas_limit base_weight - block_gas_limit))
            else None)
      in case treap_search (pool_map_config T) (pool_map P) (sample_dir (\<lambda>w. can_sample w block_gas_limit)) of
           Some (Found base_weight _) \<Rightarrow> select base_weight
         | Some (RightMost base_weight) \<Rightarrow> select base_weight
         | _ \<Rightarrow> None)"

definition can_sample_within_1559 :: "u256 \<Rightarrow> u256 \<Rightarrow> u256 \<Rightarrow> pp_weight \<Rightarrow> bool option" where
  "can_sample_within_1559 gas_target parent_base_price min_base_price w =
     (if w_min_gas_price w < min_base_price then Some False
      else do {
        max_target_gas_used \<leftarrow> estimate_max_possible_gas gas_target (w_min_gas_price w) parent_base_price;
        Some (if max_target_gas_used = 0 then False
              else if w_gas_limit w \<le> max_target_gas_used then True
              else sat_mul 256 (w_max_loss_ratio w) (w_gas_limit w - max_target_gas_used)
                     < w_weighted_loss_ratio w)
      })"

text \<open>
  \<open>estimate_max_possible_gas\<close> may panic inside the search closure. The closure of the model then
  stops the search, and the panic is recognised afterwards by evaluating the two conditions at the
  node where it stopped.
\<close>

definition sample_1559_dir ::
  "(pp_weight \<Rightarrow> bool option) \<Rightarrow> pp_weight \<Rightarrow> ('tx, 'a) pp_entry \<Rightarrow> pp_weight search_direction" where
  "sample_1559_dir ok left_weight node =
     (case ok left_weight of
        None \<Rightarrow> SStop
      | Some False \<Rightarrow> SLeft
      | Some True \<Rightarrow>
          let right_weight = pp_consolidate left_weight (e_weight node)
          in if ok right_weight = Some True then SRight right_weight else SStop)"

definition estimate_packing_gas_limit ::
  "('tx, 'a::linorder) tx_ops \<Rightarrow> ('tx, 'a, 'r) packing_pool \<Rightarrow> u256 \<Rightarrow> u256 \<Rightarrow> u256 \<Rightarrow> u256 option" where
  "estimate_packing_gas_limit T P gas_target parent_base_price min_base_price =
     (let ok = can_sample_within_1559 gas_target parent_base_price min_base_price;
          answer = (\<lambda>base_weight.
            estimate_max_possible_gas gas_target (w_min_gas_price base_weight) parent_base_price)
      in case treap_search (pool_map_config T) (pool_map P) (sample_1559_dir ok) of
           Some (Found base_weight node) \<Rightarrow> do {
             _ \<leftarrow> ok base_weight;
             _ \<leftarrow> ok (pp_consolidate base_weight (e_weight node));
             answer base_weight
           }
         | Some (RightMost base_weight) \<Rightarrow> answer base_weight
         | _ \<Rightarrow> Some 0)"

section \<open>The treap contracts\<close>

lemma pp_accure_consolidate: "pp_accure = pp_consolidate"
  by (auto simp: pp_accure_def pp_consolidate_def Let_def fun_eq_iff)

lemma pp_consolidate_assoc: "pp_consolidate (pp_consolidate a b) c = pp_consolidate a (pp_consolidate b c)"
  by (simp add: pp_consolidate_def min.assoc max.assoc)

lemma pp_consolidate_commute: "pp_consolidate a b = pp_consolidate b a"
  by (simp add: pp_consolidate_def min.commute max.commute)

definition pp_ext_ok :: "'a pp_ext \<Rightarrow> ('a \<rightharpoonup> u256) \<Rightarrow> bool" where
  "pp_ext_ok x K \<longleftrightarrow> distinct (map fst x) \<and> map_of x = K"

lemma length_card_dom: "distinct (map fst x) \<Longrightarrow> length x = card (dom (map_of x))"
  by (simp add: dom_map_of_conv_image_fst distinct_card flip: length_map)
    (metis distinct_card length_map list.set_map)

lemma pool_map_config_simps [simp]:
  "next_node_dir (pool_map_config T) = pp_next_node_dir" "weight_empty (pool_map_config T) = pp_empty"
  "consolidate (pool_map_config T) = pp_consolidate" "make_sort_key (pool_map_config T) x k b = batch_price T b"
  "get_sort_key (pool_map_config T) = map_of"
  by (simp_all add: pool_map_config_def)

interpretation pp: rekey_manager "pool_map_config T" pp_ext_ok
  for T :: "('tx, 'a::linorder) tx_ops"
proof
  fix a b c :: "u256 \<times> 'a"
  show "next_node_dir (pool_map_config T) a b = None \<longleftrightarrow> a = b"
    by (auto simp: pp_next_node_dir_def prod_eq_iff split: if_splits)
  show "next_node_dir (pool_map_config T) a b = Some Right \<longleftrightarrow> next_node_dir (pool_map_config T) b a = Some Left"
    by (auto simp: pp_next_node_dir_def split: if_splits)
  show "next_node_dir (pool_map_config T) a b = Some Left \<Longrightarrow> next_node_dir (pool_map_config T) b c = Some Left \<Longrightarrow>
      next_node_dir (pool_map_config T) a c = Some Left"
    by (auto simp: pp_next_node_dir_def split: if_splits)
next
  fix u v w
  show "accure (pool_map_config T) v w = consolidate (pool_map_config T) v w"
    by (simp add: pool_map_config_def pp_accure_consolidate)
  show "consolidate (pool_map_config T) (consolidate (pool_map_config T) u v) w =
      consolidate (pool_map_config T) u (consolidate (pool_map_config T) v w)"
    by (simp add: pp_consolidate_assoc)
  show "consolidate (pool_map_config T) v w = consolidate (pool_map_config T) w v"
    by (simp add: pp_consolidate_commute)
qed (auto simp: pool_map_config_def pp_ext_ok_def pp_view_update_def length_card_dom update_conv'
      distinct_update delete_conv' distinct_delete)

section \<open>The invariant of the pool\<close>

definition tx_fits :: "('tx, 'a) tx_ops \<Rightarrow> 'tx \<Rightarrow> bool" where
  "tx_fits T t \<longleftrightarrow> price_of T t < 2 ^ 256 \<and> nonce_of T t + 1 < 2 ^ 256"

definition pool_batch_ok :: "('tx, 'a) tx_ops \<Rightarrow> 'a \<Rightarrow> 'tx batch \<Rightarrow> bool" where
  "pool_batch_ok T k b \<longleftrightarrow>
     batch_ok T b \<and> sender_of T (hd (txs b)) = k \<and> list_all (tx_fits T) (txs b) \<and> total_gas_limit b < 2 ^ 128"

text \<open>The weight of a node, as \<^verbatim>\<open>assert_consistency\<close> of the source demands it.\<close>

definition weight_matches :: "('tx, 'a) tx_ops \<Rightarrow> f64_roots \<Rightarrow> packing_pool_config \<Rightarrow> 'tx batch \<Rightarrow> pp_weight \<Rightarrow> bool" where
  "weight_matches T fl cfg b w \<longleftrightarrow>
     w_gas_limit w = total_gas_limit b \<and>
     loss_ratio fl (loss_ratio_degree cfg) (batch_price T b) = Some (w_max_loss_ratio w) \<and>
     w_weighted_loss_ratio w = w_max_loss_ratio w * total_gas_limit b"

definition config_ok :: "packing_pool_config \<Rightarrow> bool" where
  "config_ok cfg \<longleftrightarrow> loss_ratio_degree cfg \<in> {1, 2, 3, 4, 5} \<and> 0 < address_tx_count cfg"

definition pool_ok :: "('tx, 'a::linorder) tx_ops \<Rightarrow> f64_roots \<Rightarrow> ('tx, 'a, 'r) packing_pool \<Rightarrow> bool" where
  "pool_ok T fl P \<longleftrightarrow>
     map_ok (pool_map_config T) pp_ext_ok (pool_map P) \<and> sum_fits (pool_map P) \<and>
     config_ok (pool_config P) \<and> f64_close fl \<and>
     (\<forall>k b w. contents (pool_map P) k = Some (b, w) \<longrightarrow>
        pool_batch_ok T k b \<and> weight_matches T fl (pool_config P) b w)"

definition batches_of :: "('tx, 'a, 'r) packing_pool \<Rightarrow> 'a \<rightharpoonup> 'tx batch" where
  "batches_of P k = map_option fst (contents (pool_map P) k)"

lemma batch_price_hd: "batch_ok T b \<Longrightarrow> batch_price T b = price_of T (hd (txs b))"
  by (simp add: batch_price_def batch_ok_first)

lemma pack_info_ok:
  "batch_ok T b \<Longrightarrow> pack_info_of T b =
    Some \<lparr>pi_first_gas_price = batch_price T b, pi_total_gas_limit = total_gas_limit b\<rparr>"
  by (simp add: pack_info_of_def batch_ok_first batch_price_hd)

lemma loss_ratio_total:
  assumes "config_ok cfg" "f64_close fl" "p < 2 ^ 256"
  obtains r where "loss_ratio fl (loss_ratio_degree cfg) p = Some r" "r \<le> 2 ^ 128"
proof -
  have "\<exists>a b. loss_ratio fl (loss_ratio_degree cfg) p = Some a \<and>
      loss_ratio fl (loss_ratio_degree cfg) p = Some b \<and> b \<le> a \<and> a \<le> 2 ^ 128"
    using assms by (intro loss_ratio_decreases) (auto simp: config_ok_def)
  then show ?thesis
    using that by blast
qed

lemma loss_product_fits:
  fixes r g :: nat
  assumes "r \<le> 2 ^ 128" "g < 2 ^ 128"
  shows "r * g < 2 ^ 256"
proof -
  have "r * g \<le> 2 ^ 128 * (2 ^ 128 - 1)"
    using assms by (intro mult_le_mono) auto
  then show ?thesis
    by simp
qed

lemma pool_batch_price: "pool_batch_ok T k b \<Longrightarrow> batch_price T b < 2 ^ 256"
  by (auto simp: pool_batch_ok_def batch_price_hd batch_ok_def tx_fits_def list_all_iff)

lemma make_apply_outcome_spec:
  assumes cfg: "config_ok cfg" "f64_close fl" and b: "pool_batch_ok T k b" "pool_batch_ok T k b'"
    and w: "weight_matches T fl cfg b w"
    and info: "pack_info_of T b = Some old_info" "pack_info_of T b' = Some new_info"
    and e: "e = \<lparr>e_key = k, e_val = b, e_sort = batch_price T b, e_weight = w\<rparr>"
  shows "\<exists>e' oc. make_apply_outcome fl cfg old_info new_info (e\<lparr>e_val := b'\<rparr>) ret = Some (e', oc) \<and>
    e_key e' = k \<and> e_val e' = b' \<and> weight_matches T fl cfg b' (e_weight e') \<and>
    w_min_gas_price (e_weight e') = w_min_gas_price w \<and>
    out oc = ret \<and> \<not> delete_item oc \<and> (update_key oc \<longleftrightarrow> batch_price T b \<noteq> batch_price T b')"
proof -
  have bok: "batch_ok T b" "batch_ok T b'"
    using b by (auto simp: pool_batch_ok_def)
  then have inf: "old_info = \<lparr>pi_first_gas_price = batch_price T b, pi_total_gas_limit = total_gas_limit b\<rparr>"
    "new_info = \<lparr>pi_first_gas_price = batch_price T b', pi_total_gas_limit = total_gas_limit b'\<rparr>"
    using info by (simp_all add: pack_info_ok)
  have g: "total_gas_limit b' < 2 ^ 128"
    using b(2) by (simp add: pool_batch_ok_def)
  obtain r where r: "loss_ratio fl (loss_ratio_degree cfg) (batch_price T b') = Some r" "r \<le> 2 ^ 128"
    using loss_ratio_total [OF cfg pool_batch_price [OF b(2)]] .
  have rg: "total_gas_limit b' * r < 2 ^ 256"
    using loss_product_fits [OF r(2) g] by (simp add: mult.commute)
  have same: "w_max_loss_ratio w = r" if "batch_price T b = batch_price T b'"
    using w r(1) that by (simp add: weight_matches_def)
  show ?thesis
    using w r(1) rg same
    by (auto simp: make_apply_outcome_def inf e cmul_def weight_matches_def mult.commute)
qed

lemma update_fn_ok_closure:
  fixes res :: "('tx, 'a) pp_entry \<Rightarrow> (('tx, 'a) pp_entry \<times> 't apply_outcome) option"
  assumes "\<And>e. skey e = sk \<Longrightarrow>
    (\<exists>i j b ret. res e = make_apply_outcome fl cfg i j (e\<lparr>e_val := b\<rparr>) ret)
    \<or> res e = None \<or> (\<exists>e' oc. res e = Some (e', oc) \<and> delete_item oc)"
  shows "update_fn_ok (\<lambda>e. closure_result e (res e)) sk"
  unfolding update_fn_ok_def
proof (intro allI impI)
  fix e :: "('tx, 'a) pp_entry"
  assume sk: "skey e = sk"
  from assms [OF sk] consider i j b ret where "res e = make_apply_outcome fl cfg i j (e\<lparr>e_val := b\<rparr>) ret"
    | "res e = None" | e' oc where "res e = Some (e', oc)" "delete_item oc"
    by (elim disjE exE conjE)
  then show "case closure_result e (res e) of
      (e', Inl _) \<Rightarrow> skey e' = sk \<and> e_weight e' = e_weight e
    | (e', Inr oc) \<Rightarrow> update_key oc \<or> delete_item oc \<or> skey e' = sk \<and> (update_weight_flag oc \<or> e_weight e' = e_weight e)"
  proof cases
    case 1
    then show ?thesis
      using sk by (auto simp: closure_result_def make_apply_outcome_def skey_def Let_def
          split: option.splits bind_splits)
  qed (use sk in \<open>simp_all add: closure_result_def\<close>)
qed

section \<open>Sums of weights\<close>

text \<open>The sum of a field over all entries, and over the entries of the other senders.\<close>

definition total_of :: "(pp_weight \<Rightarrow> nat) \<Rightarrow> ('tx, 'a, 'r) pp_map \<Rightarrow> nat" where
  "total_of f m = (\<Sum>j\<in>dom (contents m). f (snd (the (contents m j))))"

definition rest_of :: "(pp_weight \<Rightarrow> nat) \<Rightarrow> ('tx, 'a, 'r) pp_map \<Rightarrow> 'a \<Rightarrow> nat" where
  "rest_of f m k = (\<Sum>j\<in>dom (contents m) - {k}. f (snd (the (contents m j))))"

definition room :: "('tx, 'a, 'r) pp_map \<Rightarrow> 'a \<Rightarrow> pp_weight \<Rightarrow> bool" where
  "room m k w \<longleftrightarrow>
     rest_of w_gas_limit m k + w_gas_limit w < 2 ^ 256 \<and>
     rest_of w_weighted_loss_ratio m k + w_weighted_loss_ratio w < 2 ^ 256"

lemma finite_dom_contents: "finite (dom (contents m))"
  by (simp add: contents_def dom_contents_of)

lemma total_of_upd:
  assumes "contents m' = (contents m)(k := c)"
  shows "total_of f m' = rest_of f m k + (case c of None \<Rightarrow> 0 | Some (_, w) \<Rightarrow> f w)"
proof -
  have rest: "dom (contents m') - {k} = dom (contents m) - {k}"
    "(\<Sum>j\<in>dom (contents m) - {k}. f (snd (the (contents m' j)))) = rest_of f m k"
    using assms by (auto simp: rest_of_def intro!: sum.cong)
  show ?thesis
  proof (cases c)
    case None
    then have "dom (contents m') = dom (contents m) - {k}"
      using assms by auto
    then show ?thesis
      using rest(2) None by (simp add: total_of_def)
  next
    case (Some bw)
    then have k: "k \<in> dom (contents m')" "f (snd (the (contents m' k))) = (case bw of (_, w) \<Rightarrow> f w)"
      using assms by (auto split: prod.splits)
    show ?thesis
      unfolding total_of_def sum.remove [OF finite_dom_contents k(1)] rest k(2) using Some by simp
  qed
qed

lemma total_of_rest: "total_of f m = rest_of f m k + (case contents m k of None \<Rightarrow> 0 | Some (_, w) \<Rightarrow> f w)"
  by (rule total_of_upd) simp

lemma sum_list_total:
  assumes "distinct (map e_key (inorder (root m)))"
  shows "(\<Sum>e\<leftarrow>inorder (root m). f (e_weight e)) = total_of f m"
proof -
  let ?es = "inorder (root m)"
  have "(\<Sum>e\<leftarrow>?es. f (e_weight e)) = (\<Sum>e\<leftarrow>?es. f (snd (the (contents m (e_key e)))))"
    using contents_of_Some [OF assms]
    by (intro arg_cong [where f = sum_list] map_cong refl) (metis contents_def option.sel snd_conv)
  also have "\<dots> = (\<Sum>j\<leftarrow>map e_key ?es. f (snd (the (contents m j))))"
    by (simp add: comp_def)
  also have "\<dots> = total_of f m"
    using assms by (simp only: sum_list_distinct_conv_sum_set total_of_def contents_def dom_contents_of set_map)
  finally show ?thesis .
qed

lemma wsum_pool:
  "ws \<noteq> [] \<Longrightarrow> w_gas_limit (wsum (pool_map_config T) ws) = sum_list (map w_gas_limit ws) \<and>
    w_weighted_loss_ratio (wsum (pool_map_config T) ws) = sum_list (map w_weighted_loss_ratio ws)"
proof (induction ws)
  case (Cons w ws)
  then show ?case
    by (cases "ws = []") (simp_all add: pp.wsum_Cons pp_consolidate_def, simp_all add: wsum_def)
qed simp

lemma sum_fits_total:
  assumes "map_ok (pool_map_config T) pp_ext_ok m"
  shows "sum_fits m \<longleftrightarrow> total_of w_gas_limit m < 2 ^ 256 \<and> total_of w_weighted_loss_ratio m < 2 ^ 256"
proof (cases "root m")
  case Empty
  then show ?thesis
    by (simp add: sum_fits_def total_of_def contents_def contents_of_def)
next
  case (Node e s p l r)
  have "sums_ok (pool_map_config T) (root m)" and d: "distinct (map e_key (inorder (root m)))"
    using assms by (auto simp: map_ok_def core_ok_def treap_ok_def entries_ok_def)
  then have s: "s = wsum (pool_map_config T) (map e_weight (inorder (root m)))"
    using pp.n_sum_wsum [of T "root m"] Node by simp
  have "map e_weight (inorder (root m)) \<noteq> []"
    using Node by simp
  from wsum_pool [OF this, of T] show ?thesis
    using sum_list_total [OF d] Node unfolding s [symmetric] by (simp add: sum_fits_def comp_def)
qed

lemma sum_fits_room:
  assumes "map_ok (pool_map_config T) pp_ext_ok m'" "contents m' = (contents m)(k \<mapsto> (b, w))" "room m k w"
  shows "sum_fits m'"
  using assms(3) total_of_upd [OF assms(2)] by (simp add: sum_fits_total [OF assms(1)] room_def)

lemma sum_fits_shrinks:
  assumes "map_ok (pool_map_config T) pp_ext_ok m" "map_ok (pool_map_config T) pp_ext_ok m'" "sum_fits m"
    and "contents m' = (contents m)(k := None)"
  shows "sum_fits m'"
proof -
  have "total_of f m' \<le> total_of f m" for f
    using total_of_upd [OF assms(4)] total_of_rest [of f m k] by simp
  then show ?thesis
    using assms(3) le_less_trans unfolding sum_fits_total [OF assms(1)] sum_fits_total [OF assms(2)] by blast
qed

lemma room_smaller:
  assumes "map_ok (pool_map_config T) pp_ext_ok m" "sum_fits m" "contents m k = Some (b, w)"
    and "w_gas_limit w' \<le> w_gas_limit w" "w_weighted_loss_ratio w' \<le> w_weighted_loss_ratio w"
  shows "room m k w'"
proof -
  have "total_of w_gas_limit m < 2 ^ 256" "total_of w_weighted_loss_ratio m < 2 ^ 256"
    using assms(2) by (simp_all add: sum_fits_total [OF assms(1)])
  then show ?thesis
    using total_of_rest [of w_gas_limit m k] total_of_rest [of w_weighted_loss_ratio m k] assms(3-5)
    by (simp add: room_def)
qed

lemma weight_matches_le:
  assumes "config_ok cfg" "f64_close fl" "pool_batch_ok T k b" "weight_matches T fl cfg b w"
  shows "w_weighted_loss_ratio w \<le> 2 ^ 128 * w_gas_limit w"
proof -
  obtain r where "loss_ratio fl (loss_ratio_degree cfg) (batch_price T b) = Some r" "r \<le> 2 ^ 128"
    using loss_ratio_total [OF assms(1,2) pool_batch_price [OF assms(3)]] .
  then show ?thesis
    using assms(4) by (simp add: weight_matches_def)
qed

lemma room_gas:
  assumes ok: "pool_ok T fl P" and b: "pool_batch_ok T k b" "weight_matches T fl (pool_config P) b w"
    and gas: "rest_of w_gas_limit (pool_map P) k + total_gas_limit b < 2 ^ 128"
  shows "room (pool_map P) k w"
proof -
  let ?m = "pool_map P" and ?d = "\<lambda>f j. f (snd (the (contents (pool_map P) j)))"
  have cfg: "config_ok (pool_config P)" "f64_close fl"
    using ok by (auto simp: pool_ok_def)
  have "?d w_weighted_loss_ratio j \<le> 2 ^ 128 * ?d w_gas_limit j" if j: "j \<in> dom (contents ?m)" for j
  proof -
    obtain b' w' where c: "contents ?m j = Some (b', w')"
      using j by force
    then have "pool_batch_ok T j b'" "weight_matches T fl (pool_config P) b' w'"
      using ok by (auto simp: pool_ok_def)
    from weight_matches_le [OF cfg this] c show ?thesis by simp
  qed
  then have "rest_of w_weighted_loss_ratio ?m k \<le> 2 ^ 128 * rest_of w_gas_limit ?m k"
    unfolding rest_of_def sum_distrib_left by (intro sum_mono) auto
  moreover have "w_gas_limit w = total_gas_limit b" "w_weighted_loss_ratio w \<le> 2 ^ 128 * w_gas_limit w"
    using b(2) weight_matches_le [OF cfg b] by (simp_all add: weight_matches_def)
  ultimately show ?thesis
    using gas by (simp add: room_def)
qed

text \<open>The gas of all batches, and the least price that the weight of a sender accounts for.\<close>

definition pool_gas :: "('tx, 'a, 'r) packing_pool \<Rightarrow> nat" where
  "pool_gas P = (\<Sum>k\<in>dom (batches_of P). total_gas_limit (the (batches_of P k)))"

definition pool_batch_gas :: "('tx, 'a, 'r) packing_pool \<Rightarrow> 'a \<Rightarrow> nat" where
  "pool_batch_gas P k = (case batches_of P k of None \<Rightarrow> 0 | Some b \<Rightarrow> total_gas_limit b)"

definition min_price_of :: "('tx, 'a, 'r) packing_pool \<Rightarrow> 'a \<rightharpoonup> u256" where
  "min_price_of P k = map_option (w_min_gas_price \<circ> snd) (contents (pool_map P) k)"

lemma pool_gas_total:
  assumes "pool_ok T fl P"
  shows "pool_gas P = total_of w_gas_limit (pool_map P)"
    "pool_gas P = rest_of w_gas_limit (pool_map P) k + pool_batch_gas P k"
proof -
  let ?m = "pool_map P"
  have gas: "w_gas_limit w = total_gas_limit b" if "contents ?m j = Some (b, w)" for j b w
    using assms that by (auto simp: pool_ok_def weight_matches_def)
  have "dom (batches_of P) = dom (contents ?m)"
    by (auto simp: batches_of_def dom_def)
  moreover have "total_gas_limit (the (batches_of P j)) = w_gas_limit (snd (the (contents ?m j)))"
    if "j \<in> dom (contents ?m)" for j
    using that gas [of j] by (auto simp: batches_of_def)
  ultimately show t: "pool_gas P = total_of w_gas_limit ?m"
    by (simp add: pool_gas_def total_of_def)
  have "(case contents ?m k of None \<Rightarrow> 0 | Some (_, w) \<Rightarrow> w_gas_limit w) = pool_batch_gas P k"
    using gas [of k] by (auto simp: pool_batch_gas_def batches_of_def split: option.splits)
  then show "pool_gas P = rest_of w_gas_limit ?m k + pool_batch_gas P k"
    unfolding t total_of_rest [of w_gas_limit ?m k] by simp
qed

section \<open>Updates of the pool\<close>

lemma pool_ok_upd:
  assumes "pool_ok T fl P" "map_ok (pool_map_config T) pp_ext_ok m'" "sum_fits m'"
    and "contents m' = (contents (pool_map P))(k := c)"
    and "\<And>b w. c = Some (b, w) \<Longrightarrow> pool_batch_ok T k b \<and> weight_matches T fl (pool_config P) b w"
  shows "pool_ok T fl (P\<lparr>pool_map := m'\<rparr>)"
    "batches_of (P\<lparr>pool_map := m'\<rparr>) = (batches_of P)(k := map_option fst c)"
    "min_price_of (P\<lparr>pool_map := m'\<rparr>) = (min_price_of P)(k := map_option (w_min_gas_price \<circ> snd) c)"
  using assms by (auto simp: pool_ok_def batches_of_def min_price_of_def fun_eq_iff split: if_splits)

lemma insert_fn_ok_node: "insert_fn_ok (insert_node T fl cfg nx b ret)" "insert_fn_ok (\<lambda>r. (r, Inl NotPresent))"
  by (auto simp: insert_fn_ok_def insert_node_def make_node_def split: option.splits bind_splits prod.splits) blast

lemma pool_update_present:
  fixes T :: "('tx, 'a::linorder) tx_ops"
  assumes ok: "pool_ok T fl P" and b: "batches_of P k = Some b"
    and cl: "\<And>sk. update_fn_ok (\<lambda>e. closure_result e (res e)) sk" and ins: "insert_fn_ok ins"
    and res: "\<And>w. res \<lparr>e_key = k, e_val = b, e_sort = batch_price T b, e_weight = w\<rparr> =
      make_apply_outcome fl (pool_config P) old_info new_info
        \<lparr>e_key = k, e_val = b', e_sort = batch_price T b, e_weight = w\<rparr> ret"
    and info: "pack_info_of T b = Some old_info" "pack_info_of T b' = Some new_info"
    and b': "pool_batch_ok T k b'"
    and fits: "\<And>w. weight_matches T fl (pool_config P) b' w \<Longrightarrow> room (pool_map P) k w"
  shows "\<exists>P'. finish_update P (treap_update (pool_map_config T) nx (pool_map P) k
      (\<lambda>e. closure_result e (res e)) ins) absent = Some (P', ret) \<and>
    pool_ok T fl P' \<and> batches_of P' = (batches_of P)(k \<mapsto> b') \<and> pool_config P' = pool_config P \<and>
    min_price_of P' = min_price_of P"
proof -
  let ?C = "pool_map_config T" and ?m = "pool_map P" and ?cl = "\<lambda>e. closure_result e (res e)"
  obtain w where c: "contents ?m k = Some (b, w)"
    using b by (auto simp: batches_of_def)
  let ?e = "\<lparr>e_key = k, e_val = b, e_sort = batch_price T b, e_weight = w\<rparr> :: ('tx, 'a) pp_entry"
  have mok: "map_ok ?C pp_ext_ok ?m" and cfg: "config_ok (pool_config P)" "f64_close fl"
    and bw: "pool_batch_ok T k b" "weight_matches T fl (pool_config P) b w"
    using ok c by (auto simp: pool_ok_def)
  obtain e' oc where e': "res ?e = Some (e', oc)" "e_key e' = k" "e_val e' = b'"
    "weight_matches T fl (pool_config P) b' (e_weight e')" "out oc = ret" "\<not> delete_item oc"
    "update_key oc \<longleftrightarrow> batch_price T b \<noteq> batch_price T b'" "w_min_gas_price (e_weight e') = w_min_gas_price w"
    using make_apply_outcome_spec [OF cfg bw(1) b' bw(2) info refl, of ret] res [of w] by auto
  have "?cl ?e = (e', Inr oc)"
    by (simp add: closure_result_def e'(1))
  then have upd: "?cl \<lparr>e_key = k, e_val = b, e_sort = make_sort_key ?C (ext_map ?m) k b, e_weight = w\<rparr> = (e', Inr oc)"
    by (simp only: pool_map_config_simps)
  obtain m' r where u: "treap_update ?C nx ?m k ?cl ins = (m', r)"
    by fastforce
  have new: "map_ok ?C pp_ext_ok m' \<and> contents m' = (contents ?m)(k \<mapsto> (b', e_weight e')) \<and> r = Some (Inr ret)"
  proof (cases "update_key oc")
    case True
    show ?thesis
      using pp.treap_update_rekey [OF mok c cl ins upd True e'(6,2) u] unfolding e'(3,5) .
  next
    case False
    then have key: "make_sort_key ?C (ext_map ?m) k (e_val e') = make_sort_key ?C (ext_map ?m) k b"
      using e'(3,7) by simp
    show ?thesis
      using pp.treap_update_present(2) [OF mok c cl ins upd u refl False e'(6) key] unfolding e'(3,5) .
  qed
  have fit: "sum_fits m'"
    using new fits [OF e'(4)] sum_fits_room by blast
  have "min_price_of P k = Some (w_min_gas_price w)"
    using c by (simp add: min_price_of_def)
  then have "pool_ok T fl (P\<lparr>pool_map := m'\<rparr>)" "batches_of (P\<lparr>pool_map := m'\<rparr>) = (batches_of P)(k \<mapsto> b')"
    "min_price_of (P\<lparr>pool_map := m'\<rparr>) = min_price_of P"
    using pool_ok_upd [OF ok, of m' k "Some (b', e_weight e')"] new fit b' e'(4,8) by auto
  then show ?thesis
    using u new fit by (intro exI [of _ "P\<lparr>pool_map := m'\<rparr>"]) (simp add: finish_update_def)
qed

lemma make_node_spec:
  assumes "config_ok cfg" "f64_close fl" "pool_batch_ok T k b"
  obtains w where "make_node T fl cfg b = Some (node_new k b (batch_price T b) w)"
    "weight_matches T fl cfg b w" "w_min_gas_price w = batch_price T b"
proof -
  have bok: "batch_ok T b" "sender_of T (hd (txs b)) = k" "total_gas_limit b < 2 ^ 128"
    using assms(3) by (auto simp: pool_batch_ok_def)
  obtain r where r: "loss_ratio fl (loss_ratio_degree cfg) (batch_price T b) = Some r" "r \<le> 2 ^ 128"
    using loss_ratio_total [OF assms(1,2) pool_batch_price [OF assms(3)]] .
  have "r * total_gas_limit b < 2 ^ 256"
    using loss_product_fits [OF r(2) bok(3)] .
  then show ?thesis
    using r(1) bok
    by (intro that [of "\<lparr>w_gas_limit = total_gas_limit b, w_min_gas_price = batch_price T b,
          w_weighted_loss_ratio = r * total_gas_limit b, w_max_loss_ratio = r\<rparr>"])
      (simp_all add: make_node_def batch_ok_first batch_price_hd cmul_def weight_matches_def)
qed

lemma pool_update_absent:
  fixes T :: "('tx, 'a::linorder) tx_ops"
  assumes ok: "pool_ok T fl P" and b: "batches_of P k = None"
    and cl: "\<And>sk. update_fn_ok cl sk" and b': "pool_batch_ok T k b'"
    and fits: "\<And>w. weight_matches T fl (pool_config P) b' w \<Longrightarrow> room (pool_map P) k w"
  shows "\<exists>P'. finish_update P (treap_update (pool_map_config T) nx (pool_map P) k cl
      (insert_node T fl (pool_config P) nx b' ret)) absent = Some (P', ret) \<and>
    pool_ok T fl P' \<and> batches_of P' = (batches_of P)(k \<mapsto> b') \<and> pool_config P' = pool_config P \<and>
    min_price_of P' = (min_price_of P)(k \<mapsto> batch_price T b')"
proof -
  let ?C = "pool_map_config T" and ?m = "pool_map P" and ?ins = "insert_node T fl (pool_config P) nx b' ret"
  have c: "contents ?m k = None"
    using b by (simp add: batches_of_def)
  have mok: "map_ok ?C pp_ext_ok ?m" and cfg: "config_ok (pool_config P)" "f64_close fl"
    using ok by (auto simp: pool_ok_def)
  obtain w where w: "make_node T fl (pool_config P) b' = Some (node_new k b' (batch_price T b') w)"
    "weight_matches T fl (pool_config P) b' w" "w_min_gas_price w = batch_price T b'"
    using make_node_spec [OF cfg b'] .
  obtain r' p where nx: "nx (rng ?m) = (r', p)"
    by fastforce
  have ins: "?ins (rng ?m) = (r', Inr (node_new k b' (batch_price T b') w p, ret))"
    by (simp add: insert_node_def w(1) nx)
  obtain m' r where u: "treap_update ?C nx ?m k cl ?ins = (m', r)"
    by fastforce
  have new: "map_ok ?C pp_ext_ok m' \<and> contents m' = (contents ?m)(k \<mapsto> (b', w)) \<and> r = Some (Inr ret)"
    using pp.treap_update_absent(2) [OF mok c cl insert_fn_ok_node(1) ins u] by simp
  have fit: "sum_fits m'"
    using new fits [OF w(2)] sum_fits_room by blast
  then have "pool_ok T fl (P\<lparr>pool_map := m'\<rparr>)" "batches_of (P\<lparr>pool_map := m'\<rparr>) = (batches_of P)(k \<mapsto> b')"
    "min_price_of (P\<lparr>pool_map := m'\<rparr>) = (min_price_of P)(k \<mapsto> batch_price T b')"
    using pool_ok_upd [OF ok, of m' k "Some (b', w)"] new b' w(2,3) by auto
  then show ?thesis
    using u new fit by (intro exI [of _ "P\<lparr>pool_map := m'\<rparr>"]) (simp add: finish_update_def)
qed

section \<open>Insertion and replacement\<close>

lemma closures_ok:
  "update_fn_ok (insert_closure T fl cfg tx) sk" "update_fn_ok (replace_closure T fl cfg b) sk"
  "update_fn_ok (split_closure T fl cfg n kp) sk"
proof -
  show "update_fn_ok (insert_closure T fl cfg tx) sk"
    unfolding insert_closure_def
    by (rule update_fn_ok_closure [where fl = fl and cfg = cfg]) (auto split: bind_splits; blast)
  show "update_fn_ok (replace_closure T fl cfg b) sk"
    unfolding replace_closure_def
    by (rule update_fn_ok_closure [where fl = fl and cfg = cfg]) (auto split: bind_splits; blast)
  show "update_fn_ok (split_closure T fl cfg n kp) sk"
    unfolding split_closure_def
  proof (rule update_fn_ok_closure [where fl = fl and cfg = cfg], goal_cases)
    case (1 e)
    show ?case
    proof (cases "split_off_by_nonce T (e_val e) n kp")
      case (Some r)
      obtain b res where r: "r = (b, res)"
        by fastforce
      show ?thesis
        by (cases "pack_info_of T (e_val e)"; cases "pack_info_of T b"; cases res)
          (auto simp: Some r make_outcome_on_delete_def split: remove_error.splits)
    qed (auto split: bind_splits)
  qed
qed

lemma linked_prices:
  assumes "successively (linked T) ts" "t \<in> set ts"
  shows "price_of T (hd ts) \<le> price_of T t"
proof -
  have "price_of T (hd ts) \<le> price_of T (ts ! i)" if "i < length ts" for i
    using that
  proof (induction i)
    case 0
    then show ?case by (cases ts) auto
  next
    case (Suc i)
    then have "linked T (ts ! i) (ts ! Suc i)"
      using assms(1) by (simp add: successively_conv_nth)
    then show ?case
      using Suc by (simp add: linked_def)
  qed
  then show ?thesis
    using assms(2) by (auto simp: in_set_conv_nth)
qed

lemma linked_senders: "successively (linked T) ts \<Longrightarrow> t \<in> set ts \<Longrightarrow> sender_of T t = sender_of T (hd ts)"
  by (auto simp: in_set_conv_nth dest: linked_nth)

lemma pool_batch_bounds:
  assumes "pool_batch_ok T k b"
  shows "nonce_of T (hd (txs b)) + length (txs b) < 2 ^ 256" "gas_sum T (txs b) < 2 ^ 256"
proof -
  have ts: "txs b \<noteq> []" "successively (linked T) (txs b)" "list_all (tx_fits T) (txs b)"
    and tot: "total_gas_limit b = gas_sum T (txs b)" "total_gas_limit b < 2 ^ 128"
    using assms by (auto simp: pool_batch_ok_def batch_ok_def)
  let ?i = "length (txs b) - 1"
  have i: "?i < length (txs b)"
    using ts(1) by simp
  then have "nonce_of T (txs b ! ?i) = nonce_of T (hd (txs b)) + ?i"
    using linked_nth [OF ts(2)] by auto
  moreover have "nonce_of T (txs b ! ?i) + 1 < 2 ^ 256"
    using ts(3) i by (auto simp: list_all_length tx_fits_def)
  ultimately show "nonce_of T (hd (txs b)) + length (txs b) < 2 ^ 256"
    using i by linarith
  show "gas_sum T (txs b) < 2 ^ 256"
    using tot by simp
qed

lemma pool_batch_new: "tx_fits T tx \<Longrightarrow> gas_of T tx < 2 ^ 128 \<Longrightarrow> pool_batch_ok T (sender_of T tx) (batch_new T tx)"
  using batch_ok_new [of T tx] by (simp add: pool_batch_ok_def batch_new_def)

lemma gas_sum_mset: "gas_sum T ts = (\<Sum>t\<in>#mset ts. gas_of T t)"
  by (simp add: sum_mset_sum_list flip: mset_map)

lemma insert_promise_gas:
  assumes "insert_promise T cfg b tx b' old res" "batch_ok T b"
  shows "total_gas_limit b' \<le> gas_of T tx + total_gas_limit b"
proof -
  have bok: "batch_ok T b'" and ms: "mset (txs b') + mset old = mset (txs b) + (if res = Inr () then {#tx#} else {#})"
    using assms(1) by (auto simp: insert_promise_def)
  have "gas_sum T (txs b') \<le> (\<Sum>t\<in>#mset (txs b') + mset old. gas_of T t)"
    by (simp add: gas_sum_mset)
  also have "\<dots> \<le> gas_of T tx + gas_sum T (txs b)"
    unfolding ms by (simp add: gas_sum_mset)
  finally show ?thesis
    using bok assms(2) by (simp add: batch_ok_def)
qed

lemma insert_promise_batch:
  assumes p: "insert_promise T cfg b tx b' old res" and b: "pool_batch_ok T (sender_of T tx) b"
    and tx: "tx_fits T tx" "gas_of T tx + total_gas_limit b < 2 ^ 128"
  shows "pool_batch_ok T (sender_of T tx) b'"
proof -
  have bok: "batch_ok T b'" and ms: "mset (txs b') + mset old = mset (txs b) + (if res = Inr () then {#tx#} else {#})"
    using p by (auto simp: insert_promise_def)
  have "set (txs b') \<subseteq> set_mset (mset (txs b') + mset old)"
    by simp
  also have "\<dots> \<subseteq> insert tx (set (txs b))"
    unfolding ms by auto
  finally have sub: "set (txs b') \<subseteq> insert tx (set (txs b))" .
  have gas: "total_gas_limit b' < 2 ^ 128"
    using insert_promise_gas [OF p] b tx(2) by (simp add: pool_batch_ok_def)
  have "hd (txs b') \<in> set (txs b')"
    using bok by (simp add: batch_ok_def)
  then have "sender_of T (hd (txs b')) = sender_of T tx"
    using sub b linked_senders [of T "txs b" "hd (txs b')"] by (auto simp: pool_batch_ok_def batch_ok_def)
  then show ?thesis
    using sub bok gas b tx(1) by (auto simp: pool_batch_ok_def list_all_iff)
qed

definition inserted ::
  "('tx, 'a) tx_ops \<Rightarrow> packing_pool_config \<Rightarrow> 'tx \<Rightarrow> ('a \<rightharpoonup> 'tx batch) \<Rightarrow> ('a \<rightharpoonup> 'tx batch) \<Rightarrow>
   'tx list \<Rightarrow> (insert_error + unit) \<Rightarrow> bool" where
  "inserted T cfg tx B B' old res \<longleftrightarrow>
     (case B (sender_of T tx) of
        None \<Rightarrow> old = [] \<and> res = Inr () \<and> B' = B(sender_of T tx \<mapsto> batch_new T tx)
      | Some b \<Rightarrow> \<exists>b'. batch_insert T cfg b tx = Some (b', old, res) \<and>
          insert_promise T cfg b tx b' old res \<and> B' = B(sender_of T tx \<mapsto> b'))"

lemma pool_insert_spec:
  assumes ok: "pool_ok T fl P" and tx: "tx_fits T tx" "gas_of T tx + pool_gas P < 2 ^ 128"
  shows "\<exists>P' old res. pool_insert T fl nx P tx = Some (P', old, res) \<and> pool_ok T fl P' \<and>
    inserted T (pool_config P) tx (batches_of P) (batches_of P') old res \<and> pool_config P' = pool_config P"
proof (cases "batches_of P (sender_of T tx)")
  case None
  have b: "pool_batch_ok T (sender_of T tx) (batch_new T tx)"
    using tx by (intro pool_batch_new) auto
  have "rest_of w_gas_limit (pool_map P) (sender_of T tx) + total_gas_limit (batch_new T tx) < 2 ^ 128"
    using tx(2) pool_gas_total(2) [OF ok, of "sender_of T tx"] by (simp add: batch_new_def)
  note fits = room_gas [OF ok b _ this]
  from pool_update_absent [OF ok None closures_ok(1) b fits, where nx = nx and ret = "([], Inr ())" and absent = None] None
  show ?thesis
    by (simp add: pool_insert_def Let_def inserted_def) blast
next
  case (Some b)
  let ?cfg = "pool_config P" and ?k = "sender_of T tx"
  have b: "pool_batch_ok T ?k b"
    using ok Some by (auto simp: pool_ok_def batches_of_def)
  have sender: "sender_of T tx = sender_of T (hd (txs b))" and bok: "batch_ok T b"
    and tot: "total_gas_limit b = gas_sum T (txs b)"
    using b by (auto simp: pool_batch_ok_def batch_ok_def)
  have gas: "gas_of T tx + total_gas_limit b < 2 ^ 128"
    using tx(2) Some pool_gas_total(2) [OF ok, of ?k] by (simp add: pool_batch_gas_def)
  have "gas_of T tx + gas_sum T (txs b) < 2 ^ 256"
    using gas tot by simp
  then obtain b' old res where bi: "batch_insert T ?cfg b tx = Some (b', old, res)"
    using batch_insert_total [OF bok sender _ pool_batch_bounds(1) [OF b], of ?cfg] by (metis prod_cases3)
  have "0 < address_tx_count ?cfg"
    using ok by (simp add: pool_ok_def config_ok_def)
  then have p: "insert_promise T ?cfg b tx b' old res"
    using batch_insert_promise [OF bok _ bi] by simp
  have b': "pool_batch_ok T ?k b'"
    using insert_promise_batch [OF p b tx(1) gas] .
  have bok': "batch_ok T b'"
    using b' by (simp add: pool_batch_ok_def)
  have "rest_of w_gas_limit (pool_map P) ?k + total_gas_limit b' < 2 ^ 128"
    using tx(2) Some pool_gas_total(2) [OF ok, of ?k] insert_promise_gas [OF p bok] by (simp add: pool_batch_gas_def)
  note fits = room_gas [OF ok b' _ this]
  have "\<exists>P'. finish_update P (treap_update (pool_map_config T) nx (pool_map P) ?k
      (insert_closure T fl ?cfg tx) (insert_node T fl ?cfg nx (batch_new T tx) ([], Inr ()))) None
      = Some (P', (old, res)) \<and>
    pool_ok T fl P' \<and> batches_of P' = (batches_of P)(?k \<mapsto> b') \<and> pool_config P' = ?cfg \<and>
    min_price_of P' = min_price_of P"
    unfolding insert_closure_def
    by (rule pool_update_present [OF ok Some closures_ok(1) [unfolded insert_closure_def]
          insert_fn_ok_node(1) _ pack_info_ok [OF bok] pack_info_ok [OF bok'] b' fits])
      (simp add: pack_info_ok [OF bok] pack_info_ok [OF bok'] bi)
  then show ?thesis
    using bi p Some unfolding pool_insert_def Let_def inserted_def by auto
qed

lemma pool_replace_spec:
  assumes ok: "pool_ok T fl P" and b': "pool_batch_ok T k b'" "total_gas_limit b' + pool_gas P < 2 ^ 128"
  shows "\<exists>P'. pool_replace T fl nx P b' = Some (P', case batches_of P k of None \<Rightarrow> [] | Some b \<Rightarrow> txs b) \<and>
    pool_ok T fl P' \<and> batches_of P' = (batches_of P)(k \<mapsto> b') \<and> pool_config P' = pool_config P \<and>
    min_price_of P' = (if batches_of P k = None then (min_price_of P)(k \<mapsto> batch_price T b') else min_price_of P)"
proof -
  have "rest_of w_gas_limit (pool_map P) k + total_gas_limit b' < 2 ^ 128"
    using b'(2) pool_gas_total(2) [OF ok, of k] by simp
  note fits = room_gas [OF ok b'(1) _ this]
  have bok': "batch_ok T b'" and k: "sender_of T (hd (txs b')) = k"
    using b' by (simp_all add: pool_batch_ok_def)
  note sender = batch_ok_first(2) [OF bok', unfolded k]
  show ?thesis
  proof (cases "batches_of P k")
    case None
    from pool_update_absent [OF ok None closures_ok(2) b'(1) fits, where nx = nx and ret = "[]" and absent = None] None
    show ?thesis
      by (simp add: pool_replace_def sender Let_def)
  next
    case (Some b)
    have bok: "batch_ok T b"
      using ok Some by (auto simp: pool_ok_def batches_of_def pool_batch_ok_def)
    have "\<exists>P'. finish_update P (treap_update (pool_map_config T) nx (pool_map P) k
        (replace_closure T fl (pool_config P) b') (insert_node T fl (pool_config P) nx b' [])) None
        = Some (P', txs b) \<and>
      pool_ok T fl P' \<and> batches_of P' = (batches_of P)(k \<mapsto> b') \<and> pool_config P' = pool_config P \<and>
      min_price_of P' = min_price_of P"
      unfolding replace_closure_def
      by (rule pool_update_present [OF ok Some closures_ok(2) [unfolded replace_closure_def]
            insert_fn_ok_node(1) _ pack_info_ok [OF bok] pack_info_ok [OF bok'] b'(1) fits])
        (simp add: pack_info_ok [OF bok] pack_info_ok [OF bok'])
    then show ?thesis
      using Some by (simp add: pool_replace_def sender Let_def)
  qed
qed

definition kept_by :: "('tx, 'a) tx_ops \<Rightarrow> u256 \<Rightarrow> bool \<Rightarrow> 'tx \<Rightarrow> bool" where
  "kept_by T n kp t \<longleftrightarrow> (nonce_of T t < n) = kp"

definition batch_of :: "('tx, 'a) tx_ops \<Rightarrow> 'tx list \<Rightarrow> 'tx batch" where
  "batch_of T ts = \<lparr>txs = ts, total_gas_limit = gas_sum T ts\<rparr>"

lemma kept_batch:
  assumes b: "pool_batch_ok T k b" and ne: "filter (kept_by T n kp) (txs b) \<noteq> []"
  shows "pool_batch_ok T k (batch_of T (filter (kept_by T n kp) (txs b)))"
proof -
  let ?ts = "filter (kept_by T n kp) (txs b)"
  have bok: "txs b \<noteq> []" "successively (linked T) (txs b)" "total_gas_limit b = gas_sum T (txs b)"
    using b by (auto simp: pool_batch_ok_def batch_ok_def)
  have "?ts = (if kp then take (n - nonce_of T (hd (txs b))) (txs b) else drop (n - nonce_of T (hd (txs b))) (txs b))"
    using linked_filter_nonce [OF bok(2,1), of n] by (simp add: kept_by_def [abs_def])
  then have lk: "successively (linked T) ?ts"
    using bok(2) by (simp add: successively_take successively_drop)
  have "hd ?ts \<in> set (txs b)"
    using hd_in_set [OF ne] by auto
  then have sender: "sender_of T (hd ?ts) = k"
    using b linked_senders [OF bok(2)] by (simp add: pool_batch_ok_def)
  have "gas_sum T ?ts \<le> gas_sum T (txs b)"
    by (induction "txs b") (auto intro: sum_list_filter_le_nat)
  then have "gas_sum T ?ts < 2 ^ 128"
    using b bok(3) by (simp add: pool_batch_ok_def)
  then show ?thesis
    using lk sender ne b by (auto simp: pool_batch_ok_def batch_ok_def batch_of_def list_all_iff)
qed

lemma kept_weight:
  assumes cfg: "config_ok cfg" "f64_close fl" and b: "pool_batch_ok T k b" and ne: "filter (kept_by T n kp) (txs b) \<noteq> []"
    and w: "weight_matches T fl cfg b w" "weight_matches T fl cfg (batch_of T (filter (kept_by T n kp) (txs b))) w'"
  shows "w_gas_limit w' \<le> w_gas_limit w \<and> w_weighted_loss_ratio w' \<le> w_weighted_loss_ratio w"
proof -
  let ?ts = "filter (kept_by T n kp) (txs b)"
  let ?b' = "batch_of T ?ts"
  have bok: "batch_ok T b" "batch_ok T ?b'" and lk: "successively (linked T) (txs b)"
    using b kept_batch [OF b ne] by (auto simp: pool_batch_ok_def batch_ok_def)
  have gas: "total_gas_limit ?b' \<le> total_gas_limit b"
    using bok(1) sum_list_filter_le_nat [of "gas_of T" "kept_by T n kp" "txs b"]
    by (simp add: batch_of_def batch_ok_def)
  have "hd ?ts \<in> set (txs b)"
    using hd_in_set [OF ne] by auto
  then have "batch_price T b \<le> batch_price T ?b'"
    using linked_prices [OF lk] bok by (simp add: batch_price_hd batch_of_def)
  from loss_ratio_decreases [OF _ this pool_batch_price [OF kept_batch [OF b ne]] cfg(2), of "loss_ratio_degree cfg"]
  have "w_max_loss_ratio w' \<le> w_max_loss_ratio w"
    using cfg(1) w by (auto simp: config_ok_def weight_matches_def)
  then show ?thesis
    using w gas by (simp add: weight_matches_def mult_le_mono)
qed

lemma pool_split_off_spec:
  assumes ok: "pool_ok T fl P"
  shows "\<exists>P'. pool_split_off T fl nx P k n kp =
      Some (P', case batches_of P k of None \<Rightarrow> [] | Some b \<Rightarrow> filter (\<lambda>t. \<not> kept_by T n kp t) (txs b)) \<and>
    pool_ok T fl P' \<and>
    batches_of P' = (batches_of P)(k := (case batches_of P k of None \<Rightarrow> None | Some b \<Rightarrow>
      let ts = filter (kept_by T n kp) (txs b) in if ts = [] then None else Some (batch_of T ts))) \<and>
    pool_config P' = pool_config P"
proof (cases "batches_of P k")
  case None
  let ?C = "pool_map_config T" and ?cl = "split_closure T fl (pool_config P) n kp"
  have c: "contents (pool_map P) k = None" and mok: "map_ok ?C pp_ext_ok (pool_map P)"
    using None ok by (auto simp: batches_of_def pool_ok_def)
  obtain m' r where u: "treap_update ?C nx (pool_map P) k ?cl (\<lambda>r. (r, Inl NotPresent)) = (m', r)"
    by fastforce
  have new: "map_ok ?C pp_ext_ok m' \<and> contents m' = contents (pool_map P) \<and> r = Some (Inl NotPresent)"
    using pp.treap_update_absent(1) [OF mok c closures_ok(3) insert_fn_ok_node(2) refl u refl] .
  have "sum_fits m'"
    using sum_fits_shrinks [OF mok, of m' k] new c ok by (simp add: pool_ok_def fun_upd_idem)
  then have "pool_ok T fl (P\<lparr>pool_map := m'\<rparr>)" "batches_of (P\<lparr>pool_map := m'\<rparr>) = batches_of P"
    using ok new by (auto simp: pool_ok_def batches_of_def)
  then show ?thesis
    using u new None unfolding pool_split_off_def
    by (intro exI [of _ "P\<lparr>pool_map := m'\<rparr>"]) (simp add: finish_update_def fun_upd_idem)
next
  case (Some b)
  let ?ts = "filter (kept_by T n kp) (txs b)"
  have b: "pool_batch_ok T k b"
    using ok Some by (auto simp: pool_ok_def batches_of_def)
  have bok: "batch_ok T b"
    using b by (simp add: pool_batch_ok_def)
  have split: "split_off_by_nonce T b n kp =
      (if ?ts = [] then Some (b, Inl ShouldDelete)
       else Some (batch_of T ?ts, Inr (filter (\<lambda>t. \<not> kept_by T n kp t) (txs b))))"
    using split_off_by_nonce_filter [OF bok pool_batch_bounds(2,1) [OF b], of n kp]
    by (simp add: kept_by_def [abs_def] batch_of_def)
  show ?thesis
  proof (cases "?ts = []")
    case False
    have b': "pool_batch_ok T k (batch_of T ?ts)"
      using kept_batch [OF b False] .
    then have bok': "batch_ok T (batch_of T ?ts)"
      by (simp add: pool_batch_ok_def)
    obtain w where c: "contents (pool_map P) k = Some (b, w)"
      using Some by (auto simp: batches_of_def)
    have "room (pool_map P) k w'" if "weight_matches T fl (pool_config P) (batch_of T ?ts) w'" for w'
      using kept_weight [OF _ _ b False _ that] ok c
      by (intro room_smaller [of T _ k b w]) (auto simp: pool_ok_def)
    note fits = this
    have "\<exists>P'. finish_update P (treap_update (pool_map_config T) nx (pool_map P) k
        (split_closure T fl (pool_config P) n kp) (\<lambda>r. (r, Inl NotPresent))) (Some [])
        = Some (P', filter (\<lambda>t. \<not> kept_by T n kp t) (txs b)) \<and>
      pool_ok T fl P' \<and> batches_of P' = (batches_of P)(k \<mapsto> batch_of T ?ts) \<and> pool_config P' = pool_config P \<and>
      min_price_of P' = min_price_of P"
      unfolding split_closure_def
      by (rule pool_update_present [OF ok Some closures_ok(3) [unfolded split_closure_def]
            insert_fn_ok_node(2) _ pack_info_ok [OF bok] pack_info_ok [OF bok'] b' fits])
        (simp add: pack_info_ok [OF bok] pack_info_ok [OF bok'] split False)
    then show ?thesis
      using Some False unfolding pool_split_off_def Let_def by auto
  next
    case True
    let ?C = "pool_map_config T" and ?cl = "split_closure T fl (pool_config P) n kp"
    obtain w where c: "contents (pool_map P) k = Some (b, w)" and mok: "map_ok ?C pp_ext_ok (pool_map P)"
      using Some ok by (auto simp: batches_of_def pool_ok_def)
    obtain m' r where u: "treap_update ?C nx (pool_map P) k ?cl (\<lambda>r. (r, Inl NotPresent)) = (m', r)"
      by fastforce
    let ?e = "\<lparr>e_key = k, e_val = b, e_sort = make_sort_key ?C (ext_map (pool_map P)) k b, e_weight = w\<rparr>"
    have upd: "?cl ?e = (?e\<lparr>e_val := b\<lparr>txs := []\<rparr>\<rparr>,
        Inr \<lparr>out = txs b, update_weight_flag = False, update_key = False, delete_item = True\<rparr>)"
      by (simp add: split_closure_def pack_info_ok [OF bok] split True closure_result_def make_outcome_on_delete_def)
    have new: "map_ok ?C pp_ext_ok m' \<and> contents m' = (contents (pool_map P))(k := None) \<and> r = Some (Inr (txs b))"
      using pp.treap_update_present(3) [OF mok c closures_ok(3) insert_fn_ok_node(2) upd u refl] by simp
    have all: "filter (\<lambda>t. \<not> kept_by T n kp t) (txs b) = txs b"
      using True by (simp add: filter_empty_conv filter_id_conv)
    have fit: "sum_fits m'"
      using sum_fits_shrinks [OF mok, of m' k] new ok by (simp add: pool_ok_def)
    then have "pool_ok T fl (P\<lparr>pool_map := m'\<rparr>)" "batches_of (P\<lparr>pool_map := m'\<rparr>) = (batches_of P)(k := None)"
      using pool_ok_upd [OF ok, of m' k None] new by auto
    then show ?thesis
      using u new fit Some True all unfolding pool_split_off_def
      by (intro exI [of _ "P\<lparr>pool_map := m'\<rparr>"]) (simp add: finish_update_def)
  qed
qed

lemma pool_new_ok:
  "config_ok cfg \<Longrightarrow> f64_close fl \<Longrightarrow> pool_ok T fl (pool_new T cfg r)"
  "batches_of (pool_new T cfg r) = Map.empty"
  using pp.treap_new_ok [of T r] by (simp_all add: pool_ok_def pool_new_def batches_of_def fun_eq_iff sum_fits_def treap_new_def)

lemma pool_queries:
  assumes "pool_ok T fl P"
  shows "pool_len T P = card (dom (batches_of P))"
    "get_transactions T P k = map_option txs (batches_of P k)"
    "pool_contains T P k \<longleftrightarrow> batches_of P k \<noteq> None"
proof -
  have mok: "map_ok (pool_map_config T) pp_ext_ok (pool_map P)"
    using assms by (simp add: pool_ok_def)
  have "dom (batches_of P) = dom (contents (pool_map P))"
    by (auto simp: batches_of_def dom_def)
  then show "pool_len T P = card (dom (batches_of P))"
    using pp.treap_len_contents [OF mok] by (simp add: pool_len_def)
  show "get_transactions T P k = map_option txs (batches_of P k)" "pool_contains T P k \<longleftrightarrow> batches_of P k \<noteq> None"
    using pp.treap_get_contents [OF mok, of k]
    by (simp_all add: get_transactions_def pool_contains_def treap_contains_key_def batches_of_def)
qed

end
