(* ===== verification/Packing_Sampler.thy ===== *)
theory Packing_Sampler
  imports Packing_Pool Heap_Map
begin

text \<open>
  The random packing algorithm: what \<open>truncate_loss_ratio\<close> (\<^verbatim>\<open>pool.rs\<close>) computes, and the iterator
  \<^verbatim>\<open>TxSampler\<close> (\<^verbatim>\<open>sample.rs\<close>) that packs with it.
\<close>

section \<open>Searching for a threshold\<close>

definition threshold_dir ::
  "('k, 's, 'v, 'w, 'x) treap_config \<Rightarrow> ('w \<Rightarrow> bool) \<Rightarrow> 'w \<Rightarrow> ('k, 's, 'v, 'w) entry \<Rightarrow> 'w search_direction" where
  "threshold_dir C ok b e =
     (if \<not> ok b then SLeft
      else if \<not> ok (consolidate C b (e_weight e)) then SStop else SRight (consolidate C b (e_weight e)))"

context treap_contract
begin

lemma carries_threshold: "carries (consolidate C) (\<lambda>w. w) (threshold_dir C ok)"
  by (auto simp: carries_def threshold_dir_def split: if_splits)

lemma threshold_answer:
  assumes "j < length (inorder (root m))"
  shows "threshold_dir C ok (weight_before C m j) (inorder (root m) ! j) =
    (if \<not> ok (weight_before C m j) then SLeft
     else if \<not> ok (weight_before C m (Suc j)) then SStop else SRight (weight_before C m (Suc j)))"
  using assms by (simp add: threshold_dir_def weight_before_Suc)

text \<open>
  A condition that, once false, stays false on longer prefixes: the search ends after the longest
  prefix that satisfies it.
\<close>

lemma threshold_search:
  assumes sums: "sums_ok C (root m)" and ne: "root m \<noteq> Empty"
    and i: "i \<le> length (inorder (root m))"
    and yes: "\<And>j. j \<le> i \<Longrightarrow> ok (weight_before C m j)"
    and no: "\<And>j. i < j \<Longrightarrow> j \<le> length (inorder (root m)) \<Longrightarrow> \<not> ok (weight_before C m j)"
  shows "treap_search C m (threshold_dir C ok) =
    Some (if i < length (inorder (root m)) then Found (weight_before C m i) (inorder (root m) ! i)
          else RightMost (weight_before C m i))"
proof (cases "i < length (inorder (root m))")
  case True
  let ?es = "inorder (root m)"
  note ans = threshold_answer [of _ m ok, unfolded weight_before_def]
  have "accumulate_weight_search (weight_empty C) (consolidate C) (root m) (threshold_dir C ok) (\<lambda>w. w) =
      Found (weight_before C m i) (?es ! i)"
    unfolding weight_before_def
  proof (rule self_view.search_stop_nth [OF carries_threshold sums refl True])
    show "threshold_dir C ok (prefix_weight (consolidate C) (\<lambda>w. w) (weight_empty C) ?es i) (?es ! i) = SStop"
      using True ans [of i] yes [of i] no [of "Suc i"] by (simp add: weight_before_def)
  next
    fix j assume "j < i"
    then show "goes_right ((), weight_empty C,
        threshold_dir C ok (prefix_weight (consolidate C) (\<lambda>w. w) (weight_empty C) ?es j) (?es ! j))"
      using ans [of j] True yes [of j] yes [of "Suc j"] by (simp add: weight_before_def)
  next
    fix j assume "i < j" "j < length ?es"
    then show "goes_left ((), weight_empty C,
        threshold_dir C ok (prefix_weight (consolidate C) (\<lambda>w. w) (weight_empty C) ?es j) (?es ! j))"
      using ans [of j] no [of j] by (simp add: weight_before_def)
  qed
  then show ?thesis
    using ne True by (simp add: treap_search_def)
next
  case False
  let ?es = "inorder (root m)"
  have i': "i = length ?es"
    using False i by simp
  note ans = threshold_answer [of _ m ok, unfolded weight_before_def]
  have "accumulate_weight_search (weight_empty C) (consolidate C) (root m) (threshold_dir C ok) (\<lambda>w. w) =
      RightMost (acc_weight (consolidate C) (\<lambda>w. w) (weight_empty C) ?es)"
  proof (subst self_view.search_first_nth [OF carries_threshold sums ne refl, of "length ?es"])
    fix j assume "j < length ?es"
    then show "\<exists>w. threshold_dir C ok (prefix_weight (consolidate C) (\<lambda>w. w) (weight_empty C) ?es j) (?es ! j) = SRight w"
      using ans [of j] i' yes [of j] yes [of "Suc j"] by (simp add: weight_before_def)
  qed simp_all
  then show ?thesis
    using ne i' by (simp add: treap_search_def weight_before_def)
qed

end

section \<open>Prefixes of the pool\<close>

abbreviation pool_entries :: "('tx, 'a, 'r) packing_pool \<Rightarrow> ('tx, 'a) pp_entry list" where
  "pool_entries P \<equiv> inorder (root (pool_map P))"

definition entry_gas :: "('tx, 'a) pp_entry \<Rightarrow> nat" where
  "entry_gas e = w_gas_limit (e_weight e)"

definition entry_loss :: "('tx, 'a) pp_entry \<Rightarrow> nat" where
  "entry_loss e = w_max_loss_ratio (e_weight e)"

lemma pool_entry:
  assumes "pool_ok T fl P" "e \<in> set (pool_entries P)"
  shows "contents (pool_map P) (e_key e) = Some (e_val e, e_weight e)"
    "pool_batch_ok T (e_key e) (e_val e)" "weight_matches T fl (pool_config P) (e_val e) (e_weight e)"
    "e_sort e = batch_price T (e_val e)"
proof -
  have core: "core_ok (pool_map_config T) (pool_map P)"
    using assms(1) by (auto simp: pool_ok_def map_ok_def)
  then have d: "distinct (map e_key (pool_entries P))"
    and "\<forall>e\<in>set (pool_entries P). e_sort e = batch_price T (e_val e)"
    by (auto simp: core_ok_def entries_ok_def)
  then show "e_sort e = batch_price T (e_val e)"
    using assms(2) by blast
  show c: "contents (pool_map P) (e_key e) = Some (e_val e, e_weight e)"
    unfolding contents_def contents_of_Some [OF d] using assms(2) by auto
  then show "pool_batch_ok T (e_key e) (e_val e)" "weight_matches T fl (pool_config P) (e_val e) (e_weight e)"
    using assms(1) by (auto simp: pool_ok_def)
qed

lemma pool_sorted:
  assumes "pool_ok T fl P" "i \<le> j" "j < length (pool_entries P)"
  shows "e_sort (pool_entries P ! j) \<le> e_sort (pool_entries P ! i)"
proof (cases "i = j")
  case False
  have "sorted_wrt (klt (pool_map_config T)) (map skey (pool_entries P))"
    using assms(1) by (auto simp: pool_ok_def map_ok_def core_ok_def treap_ok_def ordered_def)
  then have "klt (pool_map_config T) (skey (pool_entries P ! i)) (skey (pool_entries P ! j))"
    using False assms(2,3) by (simp add: sorted_wrt_map sorted_wrt_iff_nth_less)
  then show ?thesis
    by (auto simp: klt_def pp_next_node_dir_def skey_def split: if_splits)
qed simp

lemma pool_loss_sorted:
  assumes "pool_ok T fl P" "i \<le> j" "j < length (pool_entries P)"
  shows "entry_loss (pool_entries P ! i) \<le> entry_loss (pool_entries P ! j)"
proof -
  let ?a = "pool_entries P ! i" and ?b = "pool_entries P ! j"
  have in_set: "?a \<in> set (pool_entries P)" "?b \<in> set (pool_entries P)"
    using assms(2,3) by simp_all
  note a = pool_entry [OF assms(1) in_set(1)] and b = pool_entry [OF assms(1) in_set(2)]
  have "e_sort ?b \<le> e_sort ?a"
    using pool_sorted [OF assms] .
  moreover have "e_sort ?a < 2 ^ 256"
    using pool_batch_price [OF a(2)] a(4) by simp
  ultimately have "\<exists>x y. loss_ratio fl (loss_ratio_degree (pool_config P)) (e_sort ?b) = Some x \<and>
      loss_ratio fl (loss_ratio_degree (pool_config P)) (e_sort ?a) = Some y \<and> y \<le> x \<and> x \<le> 2 ^ 128"
    using assms(1) by (intro loss_ratio_decreases) (auto simp: pool_ok_def config_ok_def)
  then show ?thesis
    using a(3,4) b(3,4) by (auto simp: weight_matches_def entry_loss_def)
qed

lemma pool_entry_weight:
  assumes "pool_ok T fl P" "e \<in> set (pool_entries P)"
  shows "w_weighted_loss_ratio (e_weight e) = entry_loss e * entry_gas e" "entry_loss e \<le> 2 ^ 128"
proof -
  note e = pool_entry [OF assms]
  show "w_weighted_loss_ratio (e_weight e) = entry_loss e * entry_gas e"
    using e(3) by (simp add: weight_matches_def entry_loss_def entry_gas_def)
  have "config_ok (pool_config P)" "f64_close fl"
    using assms(1) by (auto simp: pool_ok_def)
  then obtain r where "loss_ratio fl (loss_ratio_degree (pool_config P)) (batch_price T (e_val e)) = Some r" "r \<le> 2 ^ 128"
    using loss_ratio_total pool_batch_price [OF e(2)] by metis
  then show "entry_loss e \<le> 2 ^ 128"
    using e(3) by (simp add: weight_matches_def entry_loss_def)
qed

text \<open>The weight of a prefix, field by field.\<close>

abbreviation gas_before :: "('tx, 'a, 'r) packing_pool \<Rightarrow> nat \<Rightarrow> nat" where
  "gas_before P i \<equiv> sum_list (map entry_gas (take i (pool_entries P)))"

abbreviation loss_before :: "('tx, 'a, 'r) packing_pool \<Rightarrow> nat \<Rightarrow> nat" where
  "loss_before P i \<equiv> sum_list (map (\<lambda>e. entry_loss e * entry_gas e) (take i (pool_entries P)))"

lemma prefix_fields:
  assumes "pool_ok T fl P" "i \<le> length (pool_entries P)"
  defines "W \<equiv> weight_before (pool_map_config T) (pool_map P) i"
  shows "w_gas_limit W = gas_before P i" "w_weighted_loss_ratio W = loss_before P i"
    "w_max_loss_ratio W = (if i = 0 then 0 else entry_loss (pool_entries P ! (i - 1)))"
proof -
  have "w_gas_limit W = gas_before P i \<and> w_weighted_loss_ratio W = loss_before P i \<and>
    w_max_loss_ratio W = (if i = 0 then 0 else entry_loss (pool_entries P ! (i - 1)))"
    using assms(2) unfolding W_def
  proof (induction i)
    case (Suc i)
    let ?e = "pool_entries P ! i"
    have e: "?e \<in> set (pool_entries P)"
      using Suc.prems by simp
    have "entry_loss (pool_entries P ! (i - 1)) \<le> entry_loss ?e"
      using pool_loss_sorted [OF assms(1), of "i - 1" i] Suc.prems by simp
    then show ?case
      using Suc pool_entry_weight(1) [OF assms(1) e]
      by (simp add: weight_before_Suc pp_consolidate_def take_Suc_conv_app_nth entry_loss_def entry_gas_def)
  qed (simp add: pp_empty_def)
  then show "w_gas_limit W = gas_before P i" "w_weighted_loss_ratio W = loss_before P i"
    "w_max_loss_ratio W = (if i = 0 then 0 else entry_loss (pool_entries P ! (i - 1)))"
    by auto
qed

section \<open>The truncation of the loss ratio\<close>

lemma sum_list_take_le: "sum_list (map f (take i xs)) \<le> sum_list (map f xs)" for f :: "'b \<Rightarrow> nat"
  by (metis append_take_drop_id le_add1 map_append sum_list_append)

text \<open>The sums that a search computes are parts of the sum at the root, so they fit as well.\<close>

lemma pool_weights_fit:
  assumes "pool_ok T fl P"
  shows "gas_before P i < 2 ^ 256" "loss_before P i < 2 ^ 256"
proof -
  let ?es = "pool_entries P"
  have m: "map_ok (pool_map_config T) pp_ext_ok (pool_map P)" "sum_fits (pool_map P)"
    using assms by (auto simp: pool_ok_def)
  then have d: "distinct (map e_key ?es)"
    by (auto simp: map_ok_def core_ok_def entries_ok_def)
  have t: "(\<Sum>e\<leftarrow>?es. w_gas_limit (e_weight e)) < 2 ^ 256" "(\<Sum>e\<leftarrow>?es. w_weighted_loss_ratio (e_weight e)) < 2 ^ 256"
    using m(2) unfolding sum_list_total [OF d] sum_fits_total [OF m(1)] by blast+
  have "(\<Sum>e\<leftarrow>?es. entry_loss e * entry_gas e) = (\<Sum>e\<leftarrow>?es. w_weighted_loss_ratio (e_weight e))"
    using pool_entry_weight(1) [OF assms] by (intro arg_cong [where f = sum_list] map_cong) auto
  then show "loss_before P i < 2 ^ 256"
    using sum_list_take_le [of "\<lambda>e. entry_loss e * entry_gas e" i ?es] t(2) by linarith
  show "gas_before P i < 2 ^ 256"
    using sum_list_take_le [of entry_gas i ?es] t(1) unfolding entry_gas_def by linarith
qed

definition samples :: "('tx, 'a, 'r) packing_pool \<Rightarrow> nat \<Rightarrow> nat \<Rightarrow> bool" where
  "samples P limit i \<longleftrightarrow>
     gas_before P i \<le> limit \<or> entry_loss (pool_entries P ! (i - 1)) * (gas_before P i - limit) < loss_before P i"

lemma can_sample_prefix:
  assumes "pool_ok T fl P" "i \<le> length (pool_entries P)"
  shows "can_sample (weight_before (pool_map_config T) (pool_map P) i) limit \<longleftrightarrow> samples P limit i"
proof -
  have "min x (2 ^ 256 - 1) < loss_before P i \<longleftrightarrow> x < loss_before P i" for x
    using pool_weights_fit(2) [OF assms(1), of i] by linarith
  then show ?thesis
    using prefix_fields [OF assms]
    by (cases "i = 0") (simp_all add: can_sample_def samples_def sat_mul_def)
qed

lemma gap_split: "limit < g \<Longrightarrow> l * (g + g' - limit) = l * (g - limit) + l * g'" for l g g' limit :: nat
  by (metis add_mult_distrib2 less_imp_le ordered_cancel_comm_monoid_diff_class.add_diff_assoc2)

lemma before_Suc:
  "i < length (pool_entries P) \<Longrightarrow> gas_before P (Suc i) = gas_before P i + entry_gas (pool_entries P ! i)"
  "i < length (pool_entries P) \<Longrightarrow> loss_before P (Suc i) =
    loss_before P i + entry_loss (pool_entries P ! i) * entry_gas (pool_entries P ! i)"
  by (simp_all add: take_Suc_conv_app_nth)

lemma samples_stays_false:
  assumes "pool_ok T fl P" "i < length (pool_entries P)" "\<not> samples P limit i"
  shows "\<not> samples P limit (Suc i)"
proof -
  let ?l = "\<lambda>i. entry_loss (pool_entries P ! i)" and ?g' = "entry_gas (pool_entries P ! i)"
  have g: "limit < gas_before P i" and l: "loss_before P i \<le> ?l (i - 1) * (gas_before P i - limit)"
    using assms(3) by (auto simp: samples_def)
  have "?l (i - 1) \<le> ?l i"
    using pool_loss_sorted [OF assms(1), of "i - 1" i] assms(2) by simp
  then have "loss_before P i \<le> ?l i * (gas_before P i - limit)"
    using l mult_le_mono1 order_trans by blast
  then have "loss_before P i + ?l i * ?g' \<le> ?l i * (gas_before P i + ?g' - limit)"
    unfolding gap_split [OF g] by simp
  then show ?thesis
    using g before_Suc [OF assms(2)] by (simp add: samples_def)
qed

lemma threshold_index:
  assumes "p 0" "\<And>j. j < n \<Longrightarrow> \<not> p j \<Longrightarrow> \<not> p (Suc j)"
  shows "\<exists>i \<le> n. (\<forall>j \<le> i. p j) \<and> (\<forall>j. i < j \<longrightarrow> j \<le> n \<longrightarrow> \<not> p j)"
  using assms(2)
proof (induction n)
  case (Suc n)
  then obtain i where i: "i \<le> n" "\<forall>j \<le> i. p j" "\<forall>j. i < j \<longrightarrow> j \<le> n \<longrightarrow> \<not> p j"
    by (meson less_SucI)
  show ?case
  proof (cases "i = n \<and> p (Suc n)")
    case True
    then show ?thesis
      using i by (intro exI [of _ "Suc n"]) (auto simp: le_Suc_eq)
  next
    case False
    then have "\<not> p (Suc n)"
      using i Suc.prems [of n] by (cases "i = n") auto
    then show ?thesis
      using i by (intro exI [of _ i]) (auto simp: le_Suc_eq)
  qed
qed (use assms(1) in simp)

lemma truncate_loss_ratio_index:
  assumes ok: "pool_ok T fl P"
  shows "\<exists>i \<le> length (pool_entries P). (\<forall>j \<le> i. samples P limit j) \<and>
    (\<forall>j. i < j \<longrightarrow> j \<le> length (pool_entries P) \<longrightarrow> \<not> samples P limit j) \<and>
    truncate_loss_ratio T P limit =
      (if limit < gas_before P i then Some (loss_before P i div (gas_before P i - limit)) else None)"
proof -
  let ?C = "pool_map_config T" and ?m = "pool_map P" and ?n = "length (pool_entries P)"
  have "samples P limit 0"
    by (simp add: samples_def)
  then obtain i where i: "i \<le> ?n" "\<And>j. j \<le> i \<Longrightarrow> samples P limit j"
    "\<And>j. i < j \<Longrightarrow> j \<le> ?n \<Longrightarrow> \<not> samples P limit j"
    using threshold_index [of "samples P limit" ?n] samples_stays_false [OF ok] by blast
  have dir: "sample_dir (\<lambda>w. can_sample w limit) = threshold_dir ?C (\<lambda>w. can_sample w limit)"
    by (auto simp: sample_dir_def threshold_dir_def Let_def fun_eq_iff)
  note f = prefix_fields [OF ok i(1)]
  have "truncate_loss_ratio T P limit =
      (if limit < gas_before P i then Some (loss_before P i div (gas_before P i - limit)) else None)"
  proof (cases "root ?m = Empty")
    case True
    then show ?thesis
      by (simp add: truncate_loss_ratio_def treap_search_def)
  next
    case False
    have "sums_ok ?C (root ?m)"
      using ok by (auto simp: pool_ok_def map_ok_def core_ok_def treap_ok_def)
    then have "treap_search ?C ?m (threshold_dir ?C (\<lambda>w. can_sample w limit)) =
        Some (if i < ?n then Found (weight_before ?C ?m i) (pool_entries P ! i)
              else RightMost (weight_before ?C ?m i))"
      using False i by (intro pp.threshold_search) (auto simp: can_sample_prefix [OF ok])
    then show ?thesis
      using f by (simp add: truncate_loss_ratio_def dir Let_def)
  qed
  then show ?thesis
    using i by auto
qed

lemma truncate_loss_ratio_bounds:
  assumes ok: "pool_ok T fl P" and r: "truncate_loss_ratio T P limit = Some r"
  obtains i where "i \<le> length (pool_entries P)" "0 < r" "limit < gas_before P i"
    "\<And>j. j < i \<Longrightarrow> entry_loss (pool_entries P ! j) \<le> r"
    "\<And>j. i \<le> j \<Longrightarrow> j < length (pool_entries P) \<Longrightarrow> r \<le> entry_loss (pool_entries P ! j)"
    "r * (gas_before P i - limit) \<le> loss_before P i" "loss_before P i < (r + 1) * (gas_before P i - limit)"
proof -
  let ?es = "pool_entries P"
  obtain i where i: "i \<le> length ?es" "\<And>j. j \<le> i \<Longrightarrow> samples P limit j"
    "\<And>j. i < j \<Longrightarrow> j \<le> length ?es \<Longrightarrow> \<not> samples P limit j"
    and t: "truncate_loss_ratio T P limit =
      (if limit < gas_before P i then Some (loss_before P i div (gas_before P i - limit)) else None)"
    using truncate_loss_ratio_index [OF ok, of limit] by auto
  let ?d = "gas_before P i - limit" and ?L = "loss_before P i"
  have g: "limit < gas_before P i" and rdef: "r = ?L div ?d"
    using r t by (auto split: if_splits)
  have d: "0 < ?d"
    using g by simp
  have last: "entry_loss (?es ! (i - 1)) * ?d < ?L"
    using i(2) [OF order_refl] g by (simp add: samples_def)
  have i0: "0 < i"
    using g by (cases "i = 0") auto
  have lr: "entry_loss (?es ! (i - 1)) \<le> r"
    using last d unfolding rdef by (simp add: less_eq_div_iff_mult_less_eq)
  have below: "entry_loss (?es ! j) \<le> r" if "j < i" for j
    using pool_loss_sorted [OF ok, of j "i - 1"] that i0 i(1) lr by fastforce
  have pos: "0 < r"
  proof (rule ccontr)
    assume "\<not> 0 < r"
    then have "\<And>j. j < i \<Longrightarrow> entry_loss (?es ! j) = 0"
      using below by fastforce
    then have "?L = 0"
      using i(1) by (auto simp: in_set_conv_nth)
    with last show False
      by linarith
  qed
  have above: "r \<le> entry_loss (?es ! j)" if "i \<le> j" "j < length ?es" for j
  proof -
    have n: "i < length ?es"
      using that by simp
    then have "\<not> samples P limit (Suc i)"
      using i(3) by simp
    then have "?L + entry_loss (?es ! i) * entry_gas (?es ! i)
        \<le> entry_loss (?es ! i) * (gas_before P i + entry_gas (?es ! i) - limit)"
      using before_Suc [OF n] by (simp add: samples_def)
    also have "\<dots> = entry_loss (?es ! i) * ?d + entry_loss (?es ! i) * entry_gas (?es ! i)"
      by (rule gap_split [OF g])
    finally have "?L \<le> entry_loss (?es ! i) * ?d"
      by simp
    then have "r \<le> entry_loss (?es ! i) * ?d div ?d"
      unfolding rdef by (rule div_le_mono)
    then have "r \<le> entry_loss (?es ! i)"
      using d by simp
    also have "\<dots> \<le> entry_loss (?es ! j)"
      using pool_loss_sorted [OF ok that] .
    finally show ?thesis .
  qed
  have "r * ?d \<le> ?L" "?L < (r + 1) * ?d"
    unfolding rdef using dividend_less_div_times [OF d, of ?L] by simp_all
  with i(1) pos g below above show ?thesis
    by (rule that)
qed

section \<open>The sampler\<close>

text \<open>
  A candidate of the queue is a node with a floating-point priority, and candidates compare by
  priority only: the queue of the model holds the priorities, of an arbitrary linear order, and
  \<open>candidate_nodes\<close> the nodes beside them. \<open>prio\<close> is the floating-point division of the source.
  \<open>None\<close> is a panic.
\<close>

datatype sample_tag = RandomPick | CandidateAddress | PriceDesc

record ('tx, 'a, 'p, 'r) tx_sampler =
  s_iter :: "('a, u256, 'tx batch, pp_weight) iter"
  first_unsample :: "('tx, 'a) pp_entry option"
  random_sample_phase :: bool
  candidate_queue :: "('a, 'p) heap_map"
  candidate_nodes :: "('a \<times> ('tx, 'a) pp_entry) list"
  loss_base :: u256
  s_rng :: 'r

type_synonym ('tx, 'a) sample = "'a \<times> 'tx list \<times> sample_tag"

definition sampler_new ::
  "('a, u256, 'tx batch, pp_weight) iter \<Rightarrow> u256 \<Rightarrow> 'r \<Rightarrow> ('tx, 'a, 'p, 'r) tx_sampler" where
  "sampler_new it base r =
     \<lparr>s_iter = it, first_unsample = None, random_sample_phase = True, candidate_queue = heap_new,
      candidate_nodes = [], loss_base = base, s_rng = r\<rparr>"

definition pool_tx_sampler ::
  "('tx, 'a::linorder) tx_ops \<Rightarrow> ('tx, 'a, 'q) packing_pool \<Rightarrow> 'r \<Rightarrow> u256 \<Rightarrow> ('tx, 'a, 'p, 'r) tx_sampler option" where
  "pool_tx_sampler T P r block_gas_limit = do {
     global_loss_base \<leftarrow>
       (case truncate_loss_ratio T P block_gas_limit of Some r \<Rightarrow> cdiv u256_max r | None \<Rightarrow> Some 0);
     Some (sampler_new (treap_iter (pool_map P)) global_loss_base r)
   }"

definition sample_of :: "sample_tag \<Rightarrow> ('tx, 'a) pp_entry \<Rightarrow> ('tx, 'a) sample" where
  "sample_of tag node = (e_key node, txs (e_val node), tag)"

definition price_desc_next ::
  "('tx, 'a, 'p, 'r) tx_sampler \<Rightarrow> ('tx, 'a, 'p, 'r) tx_sampler \<times> ('tx, 'a) sample option" where
  "price_desc_next s =
     (case first_unsample s of
        Some node \<Rightarrow> (s\<lparr>first_unsample := None\<rparr>, Some (sample_of PriceDesc node))
      | None \<Rightarrow>
          (let (node, it) = iter_next (s_iter s)
           in (s\<lparr>s_iter := it\<rparr>, map_option (sample_of PriceDesc) node)))"

definition candidate_next ::
  "('tx, 'a, 'p::linorder, 'r) tx_sampler \<Rightarrow> ('tx, 'a, 'p, 'r) tx_sampler \<times> ('tx, 'a) sample option" where
  "candidate_next s =
     (case heap_pop (candidate_queue s) of
        (q, None) \<Rightarrow> (s\<lparr>candidate_queue := q\<rparr>, None)
      | (q, Some (addr, _)) \<Rightarrow>
          (s\<lparr>candidate_queue := q, candidate_nodes := AList.delete addr (candidate_nodes s)\<rparr>,
           map_option (sample_of CandidateAddress) (map_of (candidate_nodes s) addr)))"

text \<open>One round of the loop of \<^verbatim>\<open>random_sample\<close>: \<open>Inr\<close> returns from the loop, \<open>Inl\<close> continues.\<close>

definition sample_round ::
  "(u64 \<Rightarrow> u64 \<Rightarrow> 'p::linorder) \<Rightarrow> ('r \<Rightarrow> 'r \<times> u64) \<Rightarrow> ('tx, 'a, 'p, 'r) tx_sampler \<Rightarrow> ('tx, 'a) pp_entry \<Rightarrow>
   (('tx, 'a, 'p, 'r) tx_sampler + ('tx, 'a, 'p, 'r) tx_sampler \<times> ('tx, 'a) sample option) option" where
  "sample_round prio nx s node =
     (case cmul 256 (loss_base s) (w_max_loss_ratio (e_weight node)) of
        None \<Rightarrow> Some (Inr (s\<lparr>random_sample_phase := False, first_unsample := Some node\<rparr>, None))
      | Some x \<Rightarrow>
          (let loss_threshold = x div 2 ^ 192;
               target_quality = sat_add 64 (u64_max - loss_threshold) 1;
               (r, sampled) = nx (s_rng s);
               s = s\<lparr>s_rng := r\<rparr>
           in if sampled < target_quality then Some (Inr (s, Some (sample_of RandomPick node)))
              else do {
                d \<leftarrow> cadd 64 sampled 1;
                (q, _) \<leftarrow> heap_insert (candidate_queue s) (e_key node) (prio target_quality d);
                Some (Inl (s\<lparr>candidate_queue := q,
                             candidate_nodes := AList.update (e_key node) node (candidate_nodes s)\<rparr>))
              }))"

lemma iter_next_pending: "iter_next ts = (Some e, ts') \<Longrightarrow> pending ts' < pending ts"
  by (cases ts rule: iter_next.cases) (auto simp: pending_extend_path split: if_splits)

function random_sample ::
  "(u64 \<Rightarrow> u64 \<Rightarrow> 'p::linorder) \<Rightarrow> ('r \<Rightarrow> 'r \<times> u64) \<Rightarrow> ('tx, 'a, 'p, 'r) tx_sampler \<Rightarrow>
   (('tx, 'a, 'p, 'r) tx_sampler \<times> ('tx, 'a) sample option) option" where
  "random_sample prio nx s =
     (case iter_next (s_iter s) of
        (None, it) \<Rightarrow> Some (s\<lparr>s_iter := it\<rparr>, None)
      | (Some node, it) \<Rightarrow>
          (case sample_round prio nx (s\<lparr>s_iter := it\<rparr>) node of
             None \<Rightarrow> None
           | Some (Inr res) \<Rightarrow> Some res
           | Some (Inl s') \<Rightarrow> random_sample prio nx (s'\<lparr>s_iter := it\<rparr>)))"
  by pat_completeness auto
termination
  by (relation "measure (\<lambda>(prio, nx, s). pending (s_iter s))") (auto intro: iter_next_pending sym)

declare random_sample.simps [simp del]

definition sampler_next ::
  "(u64 \<Rightarrow> u64 \<Rightarrow> 'p::linorder) \<Rightarrow> ('r \<Rightarrow> 'r \<times> u64) \<Rightarrow> ('tx, 'a, 'p, 'r) tx_sampler \<Rightarrow>
   (('tx, 'a, 'p, 'r) tx_sampler \<times> ('tx, 'a) sample option) option" where
  "sampler_next prio nx s =
     (if loss_base s = 0 then Some (price_desc_next s)
      else do {
        (s, res) \<leftarrow> (if random_sample_phase s then random_sample prio nx s else Some (s, None));
        (case res of
           Some x \<Rightarrow> Some (s, Some x)
         | None \<Rightarrow>
             (case candidate_next s of
                (s, Some x) \<Rightarrow> Some (s, Some x)
              | (s, None) \<Rightarrow> Some (price_desc_next s)))
      })"

text \<open>Draining the iterator; the fuel bounds the number of calls.\<close>

primrec sample_all ::
  "(u64 \<Rightarrow> u64 \<Rightarrow> 'p::linorder) \<Rightarrow> ('r \<Rightarrow> 'r \<times> u64) \<Rightarrow> nat \<Rightarrow> ('tx, 'a, 'p, 'r) tx_sampler \<Rightarrow>
   ('tx, 'a) sample list option" where
  "sample_all prio nx 0 s = None"
| "sample_all prio nx (Suc n) s = do {
     (s, res) \<leftarrow> sampler_next prio nx s;
     (case res of
        None \<Rightarrow> Some []
      | Some x \<Rightarrow> do { xs \<leftarrow> sample_all prio nx n s; Some (x # xs) })
   }"

section \<open>The sampler visits every batch once\<close>

definition unvisited :: "('tx, 'a, 'p, 'r) tx_sampler \<Rightarrow> ('tx, 'a) pp_entry list" where
  "unvisited s = map snd (candidate_nodes s) @ (case first_unsample s of None \<Rightarrow> [] | Some e \<Rightarrow> [e]) @ remaining (s_iter s)"

definition sampler_ok :: "('tx, 'a, 'p::linorder, 'r) tx_sampler \<Rightarrow> bool" where
  "sampler_ok s \<longleftrightarrow>
     Empty \<notin> set (s_iter s) \<and> Heap_Map.heap_ok (candidate_queue s) \<and>
     distinct (map e_key (unvisited s)) \<and>
     (\<forall>(k, e) \<in> set (candidate_nodes s). e_key e = k) \<and>
     dom (bindings (candidate_queue s)) = fst ` set (candidate_nodes s) \<and>
     (random_sample_phase s \<longrightarrow> first_unsample s = None)"

lemma sampler_ok_distinct: "sampler_ok s \<Longrightarrow> distinct (map fst (candidate_nodes s))"
proof -
  assume ok: "sampler_ok s"
  then have "map fst (candidate_nodes s) = map e_key (map snd (candidate_nodes s))"
    by (auto simp: sampler_ok_def)
  moreover have "distinct (map e_key (map snd (candidate_nodes s)))"
    using ok unfolding sampler_ok_def unvisited_def map_append distinct_append by blast
  ultimately show ?thesis
    by (simp only:)
qed

lemma iter_next_remaining:
  assumes "Empty \<notin> set ts"
  shows "iter_next ts = (None, ts') \<Longrightarrow> ts' = [] \<and> remaining ts = []"
    "iter_next ts = (Some e, ts') \<Longrightarrow> remaining ts = e # remaining ts' \<and> Empty \<notin> set ts'"
  using assms extend_path_no_Empty
  by (cases ts rule: iter_next.cases; auto simp: remaining_extend_path split: if_splits)+

text \<open>What a call promises: it yields one of the unvisited entries, or there is none left.\<close>

definition yields ::
  "('tx, 'a, 'p::linorder, 'r) tx_sampler \<Rightarrow> ('tx, 'a, 'p, 'r) tx_sampler \<Rightarrow> sample_tag \<Rightarrow> ('tx, 'a) sample \<Rightarrow> bool" where
  "yields s s' tag x \<longleftrightarrow>
     sampler_ok s' \<and> loss_base s' = loss_base s \<and>
     (\<exists>e. x = sample_of tag e \<and> mset (unvisited s) = add_mset e (mset (unvisited s')))"

lemma sampler_ok_sub:
  assumes "mset (unvisited s) = add_mset e (mset (unvisited s'))" "sampler_ok s"
  shows "distinct (map e_key (unvisited s'))"
proof -
  have "distinct (map e_key (unvisited s))"
    using assms(2) by (simp add: sampler_ok_def)
  moreover have "mset (map e_key (unvisited s)) = add_mset (e_key e) (mset (map e_key (unvisited s')))"
    by (simp add: assms(1))
  ultimately show ?thesis
    by (metis distinct.simps(2) mset.simps(2) mset_eq_imp_distinct_iff)
qed

lemma price_desc_next_spec:
  assumes ok: "sampler_ok s" and nx: "price_desc_next s = (s', x)" and q: "candidate_nodes s = []"
  shows "case x of
      None \<Rightarrow> unvisited s = [] \<and> sampler_ok s'
    | Some y \<Rightarrow> yields s s' PriceDesc y \<and> candidate_nodes s' = [] \<and>
        (\<not> random_sample_phase s \<or> remaining (s_iter s) = [] \<longrightarrow> \<not> random_sample_phase s' \<or> remaining (s_iter s') = [])"
proof (cases "first_unsample s")
  case (Some node)
  have s': "s' = s\<lparr>first_unsample := None\<rparr>" "x = Some (sample_of PriceDesc node)"
    using nx Some by (auto simp: price_desc_next_def)
  have m: "mset (unvisited s) = add_mset node (mset (unvisited s'))"
    using Some s' by (simp add: unvisited_def)
  then have "sampler_ok s'"
    using sampler_ok_sub [OF m ok] ok s' by (simp add: sampler_ok_def)
  then show ?thesis
    using m s' q Some ok by (auto simp: yields_def sampler_ok_def)
next
  case None
  obtain node it where it: "iter_next (s_iter s) = (node, it)"
    by fastforce
  have s': "s' = s\<lparr>s_iter := it\<rparr>" "x = map_option (sample_of PriceDesc) node"
    using nx None it by (auto simp: price_desc_next_def)
  have ne: "Empty \<notin> set (s_iter s)"
    using ok by (simp add: sampler_ok_def)
  show ?thesis
  proof (cases node)
    case None': None
    then have "it = []" "remaining (s_iter s) = []"
      using iter_next_remaining(1) [OF ne] it by auto
    then show ?thesis
      using None' s' q None ok by (simp add: unvisited_def sampler_ok_def)
  next
    case (Some e)
    have r: "remaining (s_iter s) = e # remaining it" "Empty \<notin> set it"
      using iter_next_remaining(2) [OF ne] it Some by auto
    have m: "mset (unvisited s) = add_mset e (mset (unvisited s'))"
      using r s' None by (simp add: unvisited_def)
    then have "sampler_ok s'"
      using sampler_ok_sub [OF m ok] ok s' r(2) by (simp add: sampler_ok_def)
    then show ?thesis
      using m s' q Some r(1) by (auto simp: yields_def)
  qed
qed

lemma mset_delete_key:
  "distinct (map fst xs) \<Longrightarrow> map_of xs k = Some e \<Longrightarrow> mset (map snd xs) = add_mset e (mset (map snd (AList.delete k xs)))"
proof (induction xs)
  case (Cons x xs)
  obtain k' e' where x: "x = (k', e')"
    by fastforce
  show ?case
  proof (cases "k' = k")
    case True
    then have "AList.delete k xs = xs"
      using Cons.prems(1) x by (intro delete_id) auto
    then show ?thesis
      using Cons.prems True x by (simp add: AList.delete_eq)
  next
    case False
    then show ?thesis
      using Cons x by (simp add: AList.delete_eq)
  qed
qed simp

lemma candidate_next_spec:
  assumes ok: "sampler_ok s" and nx: "candidate_next s = (s', x)"
  shows "case x of
      None \<Rightarrow> s' = s \<and> candidate_nodes s = []
    | Some y \<Rightarrow> yields s s' CandidateAddress y \<and> s_iter s' = s_iter s \<and> random_sample_phase s' = random_sample_phase s"
proof -
  obtain q y where pop: "heap_pop (candidate_queue s) = (q, y)"
    by fastforce
  have hok: "Heap_Map.heap_ok (candidate_queue s)"
    and dom: "dom (bindings (candidate_queue s)) = fst ` set (candidate_nodes s)"
    using ok by (auto simp: sampler_ok_def)
  show ?thesis
  proof (cases y)
    case None
    then have "q = candidate_queue s" "bindings (candidate_queue s) = Map.empty"
      using hm.pop_empty [OF hok] pop by auto
    then show ?thesis
      using None nx pop dom by (simp add: candidate_next_def)
  next
    case (Some kp)
    obtain k p where kp: "kp = (k, p)"
      by fastforce
    have law: "Heap_Map.heap_ok q" "bindings (candidate_queue s) k = Some p"
      "bindings q = (bindings (candidate_queue s))(k := None)"
      using hm.pop_law [OF hok, of q k p] pop Some kp by auto
    have "k \<in> fst ` set (candidate_nodes s)"
      using law(2) dom by blast
    then obtain e where e: "map_of (candidate_nodes s) k = Some e"
      by (metis map_of_eq_None_iff not_None_eq)
    have s': "s' = s\<lparr>candidate_queue := q, candidate_nodes := AList.delete k (candidate_nodes s)\<rparr>"
      "x = Some (sample_of CandidateAddress e)"
      using nx pop Some kp e by (auto simp: candidate_next_def)
    have m: "mset (unvisited s) = add_mset e (mset (unvisited s'))"
      using mset_delete_key [OF sampler_ok_distinct [OF ok] e] s' by (simp add: unvisited_def)
    have "dom (bindings q) = fst ` set (AList.delete k (candidate_nodes s))"
      using law(3) dom by (auto simp: AList.delete_eq image_iff)
    then have "sampler_ok s'"
      using sampler_ok_sub [OF m ok] ok s' law(1) by (auto simp: sampler_ok_def AList.delete_eq)
    then show ?thesis
      using m s' by (auto simp: yields_def)
  qed
qed

lemma update_fresh: "k \<notin> fst ` set xs \<Longrightarrow> AList.update k v xs = xs @ [(k, v)]"
  by (induction xs) auto

definition draws_ok :: "('r \<Rightarrow> 'r \<times> u64) \<Rightarrow> bool" where
  "draws_ok nx \<longleftrightarrow> (\<forall>r. snd (nx r) < u64_max)"

lemma sample_round_spec:
  assumes ok: "sampler_ok s" and ph: "random_sample_phase s" and draws: "draws_ok nx"
    and it: "iter_next (s_iter s) = (Some node, it)"
  shows "case sample_round prio nx (s\<lparr>s_iter := it\<rparr>) node of
      None \<Rightarrow> False
    | Some (Inl s') \<Rightarrow> sampler_ok s' \<and> random_sample_phase s' \<and> s_iter s' = it \<and> loss_base s' = loss_base s \<and>
        mset (unvisited s') = mset (unvisited s)
    | Some (Inr (s', None)) \<Rightarrow> sampler_ok s' \<and> \<not> random_sample_phase s' \<and> loss_base s' = loss_base s \<and>
        mset (unvisited s') = mset (unvisited s)
    | Some (Inr (s', Some y)) \<Rightarrow> yields s s' RandomPick y"
proof -
  have ne: "Empty \<notin> set (s_iter s)" and hok: "Heap_Map.heap_ok (candidate_queue s)"
    and dom: "dom (bindings (candidate_queue s)) = fst ` set (candidate_nodes s)"
    and fu: "first_unsample s = None" and keys: "\<forall>(k, e) \<in> set (candidate_nodes s). e_key e = k"
    and dist: "distinct (map e_key (unvisited s))"
    using ok ph by (auto simp: sampler_ok_def)
  have r: "remaining (s_iter s) = node # remaining it" "Empty \<notin> set it"
    using iter_next_remaining(2) [OF ne it] by auto
  show ?thesis
  proof (cases "cmul 256 (loss_base s) (w_max_loss_ratio (e_weight node))")
    case None
    let ?s = "s\<lparr>s_iter := it, random_sample_phase := False, first_unsample := Some node\<rparr>"
    have "mset (unvisited ?s) = mset (unvisited s)"
      using r fu by (simp add: unvisited_def)
    moreover from this have "distinct (map e_key (unvisited ?s))"
      using dist by (metis mset_eq_imp_distinct_iff mset_map)
    moreover have "sample_round prio nx (s\<lparr>s_iter := it\<rparr>) node = Some (Inr (?s, None))"
      by (simp add: sample_round_def None)
    ultimately show ?thesis
      using ok r(2) by (simp add: sampler_ok_def)
  next
    case (Some x)
    obtain rr sampled where rr: "nx (s_rng s) = (rr, sampled)"
      by fastforce
    then have "sampled < u64_max"
      using draws unfolding draws_ok_def by (metis snd_conv)
    then have d: "cadd 64 sampled 1 = Some (sampled + 1)"
      by (simp add: cadd_def)
    define target where "target = sat_add 64 (u64_max - x div 2 ^ 192) 1"
    show ?thesis
    proof (cases "sampled < target")
      case True
      let ?s = "s\<lparr>s_iter := it, s_rng := rr\<rparr>"
      have m: "mset (unvisited s) = add_mset node (mset (unvisited ?s))"
        using r by (simp add: unvisited_def)
      have "sampler_ok ?s"
        using sampler_ok_sub [OF m ok] ok r(2) by (simp add: sampler_ok_def)
      moreover have "sample_round prio nx (s\<lparr>s_iter := it\<rparr>) node = Some (Inr (?s, Some (sample_of RandomPick node)))"
        using True rr by (simp add: sample_round_def Some target_def Let_def del: cmul_eq_Some)
      ultimately show ?thesis
        using m by (auto simp: yields_def)
    next
      case False
      have fresh: "e_key node \<notin> fst ` set (candidate_nodes s)"
      proof
        assume "e_key node \<in> fst ` set (candidate_nodes s)"
        then obtain e where "(e_key node, e) \<in> set (candidate_nodes s)"
          by force
        then have "e_key e = e_key node" "e \<in> set (map snd (candidate_nodes s))"
          using keys by force+
        then have "e_key node \<in> e_key ` set (map snd (candidate_nodes s))"
          by (metis imageI)
        moreover have "node \<in> set (remaining (s_iter s))"
          by (simp add: r(1))
        ultimately show False
          using dist unfolding unvisited_def map_append distinct_append set_append set_map by blast
      qed
      obtain q where q: "heap_insert (candidate_queue s) (e_key node) (prio target (sampled + 1)) =
          Some (q, bindings (candidate_queue s) (e_key node))" "Heap_Map.heap_ok q"
        "bindings q = (bindings (candidate_queue s))(e_key node \<mapsto> prio target (sampled + 1))"
        using hm.put_law [OF hok] by metis
      let ?s = "s\<lparr>s_iter := it, s_rng := rr, candidate_queue := q,
        candidate_nodes := AList.update (e_key node) node (candidate_nodes s)\<rparr>"
      have round: "sample_round prio nx (s\<lparr>s_iter := it\<rparr>) node = Some (Inl ?s)"
        using False rr d q(1) by (simp add: sample_round_def Some target_def Let_def del: cmul_eq_Some cadd_eq_Some)
      have m: "mset (unvisited ?s) = mset (unvisited s)"
        using r fu by (simp add: unvisited_def update_fresh [OF fresh])
      moreover from this have "distinct (map e_key (unvisited ?s))"
        using dist by (metis mset_eq_imp_distinct_iff mset_map)
      ultimately have "sampler_ok ?s"
        using ok r(2) q(2,3) dom ph by (auto simp: sampler_ok_def update_fresh [OF fresh])
      then show ?thesis
        using m ph by (simp add: round)
    qed
  qed
qed

lemma random_sample_spec:
  assumes "sampler_ok s" "random_sample_phase s" "draws_ok nx"
  shows "\<exists>s' x. random_sample prio nx s = Some (s', x) \<and>
    (case x of
       None \<Rightarrow> sampler_ok s' \<and> mset (unvisited s') = mset (unvisited s) \<and> loss_base s' = loss_base s \<and>
         (\<not> random_sample_phase s' \<or> remaining (s_iter s') = [])
     | Some y \<Rightarrow> yields s s' RandomPick y)"
  using assms
proof (induction prio nx s rule: random_sample.induct)
  case (1 prio nx s)
  have ne: "Empty \<notin> set (s_iter s)"
    using "1.prems" by (simp add: sampler_ok_def)
  show ?case
  proof (cases "iter_next (s_iter s)")
    case (Pair node it)
    show ?thesis
    proof (cases node)
      case None
      have "it = []" "remaining (s_iter s) = []"
        using iter_next_remaining(1) [OF ne] Pair None by auto
      then show ?thesis
        using "1.prems" Pair None by (subst random_sample.simps) (simp add: sampler_ok_def unvisited_def)
    next
      case (Some e)
      note it = Pair [unfolded Some]
      note sp = sample_round_spec [OF "1.prems" it, of prio]
      show ?thesis
      proof (cases "sample_round prio nx (s\<lparr>s_iter := it\<rparr>) e")
        case (Some res)
        show ?thesis
        proof (cases res)
          case (Inl s')
          have s': "sampler_ok s'" "random_sample_phase s'" "s_iter s' = it" "loss_base s' = loss_base s"
            "mset (unvisited s') = mset (unvisited s)" "s'\<lparr>s_iter := it\<rparr> = s'"
            using sp Some Inl by auto
          have step: "random_sample prio nx s = random_sample prio nx s'"
            using it Some Inl s'(6) by (subst random_sample.simps) simp
          obtain s'' x where "random_sample prio nx s' = Some (s'', x)"
            "case x of
               None \<Rightarrow> sampler_ok s'' \<and> mset (unvisited s'') = mset (unvisited s') \<and> loss_base s'' = loss_base s' \<and>
                 (\<not> random_sample_phase s'' \<or> remaining (s_iter s'') = [])
             | Some y \<Rightarrow> yields s' s'' RandomPick y"
            using "1.IH" [OF it [symmetric] refl, of res s', unfolded s'(6)] Some Inl s'(1,2) "1.prems"(3) by auto
          then show ?thesis
            using s'(4,5) unfolding step
            by (intro exI [of _ s''] exI [of _ x]) (cases x; simp add: yields_def)
        next
          case (Inr sx)
          then obtain s' x where sx: "sx = (s', x)"
            by fastforce
          have "random_sample prio nx s = Some (s', x)"
            using it Some Inr sx by (subst random_sample.simps) simp
          then show ?thesis
            using sp Some Inr sx by (auto split: option.splits)
        qed
      qed (use sp in simp)
    qed
  qed
qed

text \<open>How far the three phases have advanced: the tags from a state on are at least its stage.\<close>

definition tag_rank :: "sample_tag \<Rightarrow> nat" where
  "tag_rank tag = (case tag of RandomPick \<Rightarrow> 0 | CandidateAddress \<Rightarrow> 1 | PriceDesc \<Rightarrow> 2)"

definition stage :: "('tx, 'a, 'p, 'r) tx_sampler \<Rightarrow> nat" where
  "stage s =
     (if loss_base s = 0 then 2
      else if random_sample_phase s \<and> remaining (s_iter s) \<noteq> [] then 0
      else if candidate_nodes s \<noteq> [] then 1 else 2)"

lemma random_sample_done:
  assumes "sampler_ok s" "random_sample_phase s" "remaining (s_iter s) = []" "random_sample prio nx s = Some (s', x)"
  shows "x = None \<and> candidate_nodes s' = candidate_nodes s"
proof -
  have "s_iter s = []"
    using assms(1,3) by (cases "s_iter s" rule: remaining.cases) (auto simp: sampler_ok_def)
  then show ?thesis
    using assms(4) by (subst (asm) random_sample.simps) auto
qed

definition step_promise ::
  "('tx, 'a, 'p::linorder, 'r) tx_sampler \<Rightarrow> ('tx, 'a, 'p, 'r) tx_sampler \<Rightarrow> ('tx, 'a) sample option \<Rightarrow> bool" where
  "step_promise s s' x \<longleftrightarrow>
     (case x of
        None \<Rightarrow> unvisited s = []
      | Some y \<Rightarrow> \<exists>tag. yields s s' tag y \<and> stage s \<le> tag_rank tag \<and>
          (tag = RandomPick \<or> tag_rank tag \<le> stage s') \<and> (loss_base s = 0 \<longrightarrow> candidate_nodes s' = []))"

lemma step_promiseI:
  "yields s s' tag y \<Longrightarrow> stage s \<le> tag_rank tag \<Longrightarrow> tag = RandomPick \<or> tag_rank tag \<le> stage s' \<Longrightarrow>
    (loss_base s = 0 \<Longrightarrow> candidate_nodes s' = []) \<Longrightarrow> step_promise s s' (Some y)"
  by (auto simp: step_promise_def)

lemma yields_trans:
  "yields s1 s' tag y \<Longrightarrow> mset (unvisited s1) = mset (unvisited s) \<Longrightarrow> loss_base s1 = loss_base s \<Longrightarrow> yields s s' tag y"
  by (simp add: yields_def)

lemma stage_le: "stage s \<le> 2"
  by (simp add: stage_def)

lemma sampler_next_spec:
  assumes ok: "sampler_ok s" and draws: "draws_ok nx" and base: "loss_base s = 0 \<longrightarrow> candidate_nodes s = []"
  shows "\<exists>s' x. sampler_next prio nx s = Some (s', x) \<and>
    step_promise s s' x"
proof (cases "loss_base s = 0")
  case True
  obtain s' x where p: "price_desc_next s = (s', x)"
    by fastforce
  then have run: "sampler_next prio nx s = Some (s', x)"
    using True by (simp add: sampler_next_def)
  have nodes: "candidate_nodes s = []"
    using base True by simp
  have "step_promise s s' x"
  proof (cases x)
    case None
    then show ?thesis
      using price_desc_next_spec [OF ok p nodes] by (simp add: step_promise_def)
  next
    case (Some y)
    then have "yields s s' PriceDesc y" "candidate_nodes s' = []"
      using price_desc_next_spec [OF ok p nodes] by simp_all
    moreover from this have "stage s' = 2"
      using True by (simp add: stage_def yields_def)
    ultimately show ?thesis
      using stage_le [of s] unfolding Some by (intro step_promiseI) (auto simp: tag_rank_def)
  qed
  then show ?thesis
    using run by blast
next
  case False
  obtain s1 x1 where r: "(if random_sample_phase s then random_sample prio nx s else Some (s, None)) = Some (s1, x1)"
    and sp: "case x1 of
       None \<Rightarrow> sampler_ok s1 \<and> mset (unvisited s1) = mset (unvisited s) \<and> loss_base s1 = loss_base s \<and>
         (\<not> random_sample_phase s1 \<or> remaining (s_iter s1) = [])
     | Some y \<Rightarrow> yields s s1 RandomPick y \<and> random_sample_phase s"
    using random_sample_spec [OF ok _ draws, of prio] ok
    by (cases "random_sample_phase s") (auto split: option.splits)
  show ?thesis
  proof (cases x1)
    case (Some y)
    have "stage s = 0"
      using random_sample_done [OF ok, of prio nx s1 x1] r Some sp False
      by (auto simp: stage_def split: if_splits)
    moreover have "yields s s1 RandomPick y"
      using sp Some by simp
    ultimately have "step_promise s s1 (Some y)"
      using False by (intro step_promiseI) (auto simp: tag_rank_def)
    moreover have "sampler_next prio nx s = Some (s1, Some y)"
      using False r Some by (simp add: sampler_next_def)
    ultimately show ?thesis
      by blast
  next
    case None
    have s1: "sampler_ok s1" "mset (unvisited s1) = mset (unvisited s)" "loss_base s1 = loss_base s"
      "\<not> random_sample_phase s1 \<or> remaining (s_iter s1) = []"
      using sp None by auto
    obtain s2 x2 where c: "candidate_next s1 = (s2, x2)"
      by fastforce
    note cs = candidate_next_spec [OF s1(1) c]
    have st1: "stage s \<le> 1 \<or> candidate_nodes s1 = []"
      using random_sample_done [OF ok, of prio nx s1 x1] r None False
      by (auto simp: stage_def split: if_splits)
    show ?thesis
    proof (cases x2)
      case (Some y)
      then have y: "yields s1 s2 CandidateAddress y" "s_iter s2 = s_iter s1"
        "random_sample_phase s2 = random_sample_phase s1"
        using cs by auto
      then have "candidate_nodes s1 \<noteq> []"
        using c Some s1(1) by (auto simp: candidate_next_def split: prod.splits option.splits)
      then have "stage s \<le> 1"
        using st1 by simp
      moreover have "1 \<le> stage s2"
        using y s1(4) by (auto simp: stage_def)
      ultimately have "step_promise s s2 (Some y)"
        using False yields_trans [OF y(1) s1(2,3)] by (intro step_promiseI) (auto simp: tag_rank_def)
      moreover have "sampler_next prio nx s = Some (s2, Some y)"
        using False r None c Some by (simp add: sampler_next_def)
      ultimately show ?thesis
        by blast
    next
      case None': None
      then have q: "s2 = s1" "candidate_nodes s1 = []"
        using cs by auto
      obtain s3 x3 where p: "price_desc_next s1 = (s3, x3)"
        by fastforce
      note ps = price_desc_next_spec [OF s1(1) p q(2)]
      have run: "sampler_next prio nx s = Some (s3, x3)"
        using False r None c None' q(1) p by (auto simp: sampler_next_def)
      show ?thesis
      proof (cases x3)
        case None'': None
        then show ?thesis
          using run ps s1(2) by (simp add: step_promise_def)
      next
        case (Some y)
        then have "yields s1 s3 PriceDesc y" "stage s3 = 2"
          using ps s1(4) by (auto simp: stage_def)
        then have "step_promise s s3 (Some y)"
          using False stage_le [of s] yields_trans [OF _ s1(2,3)]
          by (intro step_promiseI [where tag = PriceDesc]) (auto simp: tag_rank_def)
        then show ?thesis
          using run Some by blast
      qed
    qed
  qed
qed

lemma sample_all_spec:
  assumes "draws_ok nx" "sampler_ok s" "loss_base s = 0 \<longrightarrow> candidate_nodes s = []" "length (unvisited s) < n"
  shows "\<exists>xs. sample_all prio nx n s = Some xs \<and>
    mset (map (\<lambda>(k, ts, _). (k, ts)) xs) = mset (map (\<lambda>e. (e_key e, txs (e_val e))) (unvisited s)) \<and>
    (\<forall>x\<in>set xs. stage s \<le> tag_rank (snd (snd x))) \<and> sorted (map (\<lambda>x. tag_rank (snd (snd x))) xs)"
  using assms(2-)
proof (induction n arbitrary: s)
  case (Suc n)
  obtain s' x where sx: "sampler_next prio nx s = Some (s', x)"
    and sp: "step_promise s s' x"
    using sampler_next_spec [OF Suc.prems(1) assms(1) Suc.prems(2)] by blast
  show ?case
  proof (cases x)
    case None
    then show ?thesis
      using sx sp by (simp add: step_promise_def)
  next
    case (Some y)
    then obtain tag where y: "yields s s' tag y" "stage s \<le> tag_rank tag"
      "tag = RandomPick \<or> tag_rank tag \<le> stage s'" "loss_base s = 0 \<longrightarrow> candidate_nodes s' = []"
      using sp by (auto simp: step_promise_def)
    then obtain e where e: "y = sample_of tag e" "mset (unvisited s) = add_mset e (mset (unvisited s'))"
      and ok': "sampler_ok s'" "loss_base s' = loss_base s"
      by (auto simp: yields_def)
    have "length (unvisited s') < n"
      using Suc.prems(3) e(2) by (metis Suc_less_eq size_add_mset size_mset)
    then obtain xs where xs: "sample_all prio nx n s' = Some xs"
      "mset (map (\<lambda>(k, ts, _). (k, ts)) xs) = mset (map (\<lambda>e. (e_key e, txs (e_val e))) (unvisited s'))"
      "\<forall>x\<in>set xs. stage s' \<le> tag_rank (snd (snd x))" "sorted (map (\<lambda>x. tag_rank (snd (snd x))) xs)"
      using Suc.IH [OF ok'(1)] ok'(2) y(4) by auto
    have low: "tag_rank tag \<le> tag_rank (snd (snd x))" if "x \<in> set xs" for x
      using xs(3) that y(3) by (auto simp: tag_rank_def [of RandomPick] intro: order_trans)
    have "mset (map (\<lambda>e. (e_key e, txs (e_val e))) (unvisited s)) =
        add_mset (e_key e, txs (e_val e)) (mset (map (\<lambda>e. (e_key e, txs (e_val e))) (unvisited s')))"
      by (simp add: e(2))
    then show ?thesis
      using sx Some xs low y(2) e(1) by (auto simp: sample_of_def intro: order_trans)
  qed
qed simp

end
