(* ===== verification/Packing_Properties.thy ===== *)
theory Packing_Properties
  imports Packing_Sampler
begin

text \<open>
  The properties of the packing pool and of its sampler.
\<close>

section \<open>A small pool\<close>

text \<open>Transactions of sender, nonce, price and gas limit; the random source counts up.\<close>

definition mini_tx :: "(nat \<times> nat \<times> nat \<times> nat, nat) tx_ops" where
  "mini_tx = \<lparr>sender_of = fst, nonce_of = fst \<circ> snd, price_of = fst \<circ> snd \<circ> snd, gas_of = snd \<circ> snd \<circ> snd\<rparr>"

definition mini_cfg :: packing_pool_config where
  "mini_cfg = \<lparr>address_gas_limit = 1000000, address_tx_count = 10, loss_ratio_degree = 1\<rparr>"

definition mini_rng :: "nat \<Rightarrow> nat \<times> nat" where
  "mini_rng r = (r + 1, r)"

lemmas treap_eval =
  treap_new_def treap_update_def treap_insert_def apply_op_def insert_op_def node_new_def Let_def
  process_update_result_def fix_node_def write_entry_def entry_of_def skey_def accure_child_def

lemmas pool_eval =
  pool_new_def pool_replace_def replace_closure_def closure_result_def insert_node_def make_node_def finish_update_def
  sum_fits_def make_apply_outcome_def pool_map_config_def pp_view_update_def batch_price_def pp_next_node_dir_def
  pp_consolidate_def pp_accure_def pp_empty_def

text \<open>The loss ratio of degree one, kept symbolic.\<close>

definition mini_loss :: "nat \<Rightarrow> nat" where
  "mini_loss p = u256_max div p div 2 ^ 128"

lemma mini_loss_ratio: "0 < p \<Longrightarrow> loss_ratio fl (Suc 0) p = Some (mini_loss p)"
  by (simp add: loss_ratio_def mini_loss_def cdiv_def)

lemma mini_loss_less: "mini_loss p < 2 ^ 128"
proof -
  have "u256_max div p div 2 ^ 128 \<le> u256_max div 2 ^ 128"
    by (intro div_le_mono div_le_dividend)
  then show ?thesis
    by (simp add: mini_loss_def)
qed

lemma mini_loss_product:
  "mini_loss p * 30000 < 2 ^ 256" "30000 * mini_loss p < 2 ^ 256"
  "mini_loss p * 30000 + mini_loss q * 30000 < 2 ^ 256"
  using mini_loss_less [of p] mini_loss_less [of q] by simp_all

lemmas mini_eval =
  treap_eval pool_eval batch_new_def batch_sender_def first_tx_def first_gas_price_def pack_info_of_def
  mini_tx_def mini_cfg_def mini_rng_def mini_loss_ratio mini_loss_product [simplified] cmul_def


definition mini_pool :: "(nat \<times> nat \<times> nat \<times> nat, nat, nat) packing_pool" where
  "mini_pool = fst (the (do {
     (P, _) \<leftarrow> pool_replace mini_tx exact_roots mini_rng (pool_new mini_tx mini_cfg 5) (batch_new mini_tx (7, 0, 20, 30000));
     pool_replace mini_tx exact_roots mini_rng P (batch_new mini_tx (9, 4, 10, 30000))
   }))"

lemma mini_batch_ok: "t < 2 ^ 64 \<Longrightarrow> p < 2 ^ 64 \<Longrightarrow> g < 2 ^ 64 \<Longrightarrow> pool_batch_ok mini_tx k (batch_new mini_tx (k, t, p, g))"
  using pool_batch_new [of mini_tx "(k, t, p, g)"] by (simp add: mini_tx_def tx_fits_def)

lemma mini_pool_ok: "pool_ok mini_tx exact_roots mini_pool"
proof -
  have "config_ok mini_cfg"
    by (simp add: config_ok_def mini_cfg_def)
  then have new: "pool_ok mini_tx exact_roots (pool_new mini_tx mini_cfg (5 :: nat))"
    using exact_roots_close by (intro pool_new_ok)
  have b: "pool_batch_ok mini_tx 7 (batch_new mini_tx (7, 0, 20, 30000))"
    "pool_batch_ok mini_tx 9 (batch_new mini_tx (9, 4, 10, 30000))"
    by (rule mini_batch_ok; simp)+
  have gas: "total_gas_limit (batch_new mini_tx (k, t, p, 30000)) = 30000" for k t p
    by (simp add: batch_new_def mini_tx_def)
  have none: "batches_of (pool_new mini_tx mini_cfg (5 :: nat)) = Map.empty"
    by (rule pool_new_ok(2))
  have "total_gas_limit (batch_new mini_tx (7, 0, 20, 30000)) + pool_gas (pool_new mini_tx mini_cfg (5 :: nat)) < 2 ^ 128"
    by (simp add: gas pool_gas_def none)
  from pool_replace_spec [OF new b(1) this, of mini_rng]
  obtain P1 where P1: "pool_replace mini_tx exact_roots mini_rng (pool_new mini_tx mini_cfg 5)
      (batch_new mini_tx (7, 0, 20, 30000)) = Some (P1, [])"
    "pool_ok mini_tx exact_roots P1" "batches_of P1 = [7 \<mapsto> batch_new mini_tx (7, 0, 20, 30000)]"
    by (auto simp: none)
  have "total_gas_limit (batch_new mini_tx (9, 4, 10, 30000)) + pool_gas P1 < 2 ^ 128"
    by (simp add: gas pool_gas_def P1(3))
  from pool_replace_spec [OF P1(2) b(2) this, of mini_rng]
  obtain P2 ts where "pool_replace mini_tx exact_roots mini_rng P1 (batch_new mini_tx (9, 4, 10, 30000)) = Some (P2, ts)"
    "pool_ok mini_tx exact_roots P2"
    by blast
  with P1(1) show ?thesis
    by (simp add: mini_pool_def)
qed

text \<open>The pool, evaluated once.\<close>

definition mini_weight :: "nat \<Rightarrow> pp_weight" where
  "mini_weight p =
     \<lparr>w_gas_limit = 30000, w_min_gas_price = p, w_weighted_loss_ratio = mini_loss p * 30000,
      w_max_loss_ratio = mini_loss p\<rparr>"

definition mini_entry :: "nat \<Rightarrow> nat \<Rightarrow> nat \<Rightarrow> (nat \<times> nat \<times> nat \<times> nat, nat) pp_entry" where
  "mini_entry k n p =
     \<lparr>e_key = k, e_val = batch_new mini_tx (k, n, p, 30000), e_sort = p, e_weight = mini_weight p\<rparr>"

lemma mini_pool_map:
  "pool_map mini_pool =
    \<lparr>root = Node (mini_entry 9 4 10) (pp_consolidate (mini_weight 10) (mini_weight 20)) 8
        (Node (mini_entry 7 0 20) (mini_weight 20) 6 Empty Empty) Empty,
     ext_map = [(7, 20), (9, 10)], rng = 9\<rparr>"
  by (simp add: mini_entry_def mini_weight_def mini_pool_def mini_eval)

lemma mini_pool_facts:
  "batches_of mini_pool = [7 \<mapsto> batch_new mini_tx (7, 0, 20, 30000), 9 \<mapsto> batch_new mini_tx (9, 4, 10, 30000)]"
  by (simp add: fun_eq_iff batches_of_def contents_def contents_of_def mini_pool_map mini_entry_def)

section \<open>Operations\<close>

text \<open>
  C29: On a consistent pool, inserting a transaction of ordinary size never panics while the gas of
  all batches together stays below \<open>2 ^ 128\<close> (then the 256-bit sums of gas and of weighted loss
  ratios fit, and they are checked), and refines the batch operation: a sender without a batch gets
  a one-element batch; otherwise the batch of the sender becomes the result of
  \<^verbatim>\<open>PackingBatch::insert\<close>, whose contract holds, and the displaced transactions and the error are
  returned. Every other batch, the order by price, the sums of weights and the key manager stay
  consistent.
\<close>

theorem packing_pool_insert_refines:
  assumes "pool_ok T fl P" "tx_fits T tx" "gas_of T tx + pool_gas P < 2 ^ 128"
  shows "\<exists>P' old res. pool_insert T fl nx P tx = Some (P', old, res) \<and> pool_ok T fl P' \<and>
    inserted T (pool_config P) tx (batches_of P) (batches_of P') old res \<and> pool_config P' = pool_config P"
  using assms by (rule pool_insert_spec)

theorem packing_pool_insert_refines_witness:
  "\<exists>P' old res. pool_insert mini_tx exact_roots mini_rng mini_pool (7, 1, 30, 500) = Some (P', old, res) \<and>
    pool_ok mini_tx exact_roots P' \<and>
    inserted mini_tx (pool_config mini_pool) (7, 1, 30, 500) (batches_of mini_pool) (batches_of P') old res \<and>
    pool_config P' = pool_config mini_pool"
proof (rule packing_pool_insert_refines [OF mini_pool_ok])
  show "tx_fits mini_tx (7, 1, 30, 500)"
    by (simp add: tx_fits_def mini_tx_def)
  have "dom (batches_of mini_pool) = {7, 9}"
    by (auto simp: mini_pool_facts)
  then have "pool_gas mini_pool = 60000"
    by (simp add: pool_gas_def mini_pool_facts mini_tx_def batch_new_def)
  then show "gas_of mini_tx (7, 1, 30, 500) + pool_gas mini_pool < 2 ^ 128"
    by (simp add: mini_tx_def)
qed







section \<open>The packing algorithm\<close>

text \<open>
  The gas that packing every batch with probability \<open>1 - loss/r\<close> (and not at all when the loss
  ratio exceeds \<open>r\<close>) takes in expectation, times \<open>r\<close>.
\<close>

definition expected_gas :: "('tx, 'a, 'r) packing_pool \<Rightarrow> nat \<Rightarrow> nat" where
  "expected_gas P r = (\<Sum>e\<leftarrow>pool_entries P. entry_gas e * (r - entry_loss e))"

lemma gas_term: "l \<le> r \<Longrightarrow> g * (r - l) + l * g = r * g" for g l r :: nat
  by (metis add_mult_distrib2 le_add_diff_inverse2 mult.commute)

lemma expected_gas_split:
  assumes "i \<le> length (pool_entries P)" "\<And>j. j < i \<Longrightarrow> entry_loss (pool_entries P ! j) \<le> r"
  shows "expected_gas P r + loss_before P i =
    r * gas_before P i + (\<Sum>e\<leftarrow>drop i (pool_entries P). entry_gas e * (r - entry_loss e))"
proof -
  let ?f = "\<lambda>e. entry_gas e * (r - entry_loss e)" and ?es = "pool_entries P"
  have le: "\<forall>e\<in>set (take i ?es). entry_loss e \<le> r"
    using assms by (auto simp: in_set_conv_nth)
  have "(\<Sum>e\<leftarrow>xs. ?f e) + (\<Sum>e\<leftarrow>xs. entry_loss e * entry_gas e) = r * (\<Sum>e\<leftarrow>xs. entry_gas e)"
    if "\<forall>e\<in>set xs. entry_loss e \<le> r" for xs
    using that
  proof (induction xs)
    case (Cons e xs)
    have "?f e + entry_loss e * entry_gas e = r * entry_gas e"
      using Cons.prems by (intro gas_term) simp
    moreover have "(\<Sum>e\<leftarrow>xs. ?f e) + (\<Sum>e\<leftarrow>xs. entry_loss e * entry_gas e) = r * (\<Sum>e\<leftarrow>xs. entry_gas e)"
      using Cons by simp
    ultimately show ?case
      unfolding list.map sum_list.Cons add_mult_distrib2 by linarith
  qed simp
  note sum = this [OF le]
  have "map ?f ?es = map ?f (take i ?es) @ map ?f (drop i ?es)"
    by (simp flip: map_append)
  then have "expected_gas P r = (\<Sum>e\<leftarrow>take i ?es. ?f e) + (\<Sum>e\<leftarrow>drop i ?es. ?f e)"
    by (simp only: expected_gas_def sum_list_append)
  with sum show ?thesis
    by simp
qed

text \<open>The gas of the batches whose loss ratio is zero; the treap has them first.\<close>

definition zero_loss_gas :: "('tx, 'a, 'r) packing_pool \<Rightarrow> nat" where
  "zero_loss_gas P = (\<Sum>e\<leftarrow>filter (\<lambda>e. entry_loss e = 0) (pool_entries P). entry_gas e)"

lemma zero_loss_gas_list:
  "(\<Sum>e\<leftarrow>xs. entry_loss e * entry_gas e) = 0 \<Longrightarrow>
   (\<Sum>e\<leftarrow>xs. entry_gas e) = (\<Sum>e\<leftarrow>filter (\<lambda>e. entry_loss e = 0) xs. entry_gas e)"
  by (induction xs) auto

lemma loss_gas_list:
  "\<forall>e\<in>set xs. entry_loss e \<le> l \<Longrightarrow>
   (\<Sum>e\<leftarrow>xs. entry_loss e * entry_gas e) + l * (\<Sum>e\<leftarrow>filter (\<lambda>e. entry_loss e = 0) xs. entry_gas e)
     \<le> l * (\<Sum>e\<leftarrow>xs. entry_gas e)"
proof (induction xs)
  case (Cons e xs)
  let ?L = "\<Sum>e\<leftarrow>xs. entry_loss e * entry_gas e" and ?G = "\<Sum>e\<leftarrow>xs. entry_gas e"
    and ?Z = "\<Sum>e\<leftarrow>filter (\<lambda>e. entry_loss e = 0) xs. entry_gas e"
  have IH: "?L + l * ?Z \<le> l * ?G"
    using Cons by simp
  show ?case
  proof (cases "entry_loss e = 0")
    case True
    with IH show ?thesis
      by (simp add: add_mult_distrib2)
  next
    case False
    have "entry_loss e * entry_gas e \<le> l * entry_gas e"
      using Cons.prems by (intro mult_le_mono1) simp
    then have "entry_loss e * entry_gas e + ?L + l * ?Z \<le> l * (entry_gas e + ?G)"
      unfolding add_mult_distrib2 using IH by linarith
    with False show ?thesis
      by simp
  qed
qed simp

lemma zero_loss_gas_prefix:
  assumes "loss_before P i = 0"
  shows "gas_before P i \<le> zero_loss_gas P"
proof -
  have "gas_before P i = (\<Sum>e\<leftarrow>filter (\<lambda>e. entry_loss e = 0) (take i (pool_entries P)). entry_gas e)"
    using assms by (rule zero_loss_gas_list)
  also have "\<dots> \<le> zero_loss_gas P"
    unfolding zero_loss_gas_def by (subst (2) append_take_drop_id [of i, symmetric]) (simp del: append_take_drop_id)
  finally show ?thesis .
qed

lemma zero_loss_gas_before:
  assumes "pool_ok T fl P" "i \<le> length (pool_entries P)" "0 < i" "0 < entry_loss (pool_entries P ! (i - 1))"
  shows "loss_before P i + entry_loss (pool_entries P ! (i - 1)) * zero_loss_gas P
    \<le> entry_loss (pool_entries P ! (i - 1)) * gas_before P i"
proof -
  let ?es = "pool_entries P" and ?l = "entry_loss (pool_entries P ! (i - 1))"
  have "0 < entry_loss e" if "e \<in> set (drop i ?es)" for e
  proof -
    obtain j where j: "e = ?es ! j" "i \<le> j" "j < length ?es"
      using \<open>e \<in> set (drop i ?es)\<close> by (auto simp: in_set_conv_nth intro: that [of "i + _"])
    then have "?l \<le> entry_loss e"
      using pool_loss_sorted [OF assms(1), of "i - 1" j] by auto
    then show ?thesis
      using assms(4) by linarith
  qed
  then have "filter (\<lambda>e. entry_loss e = 0) (drop i ?es) = []"
    by (auto simp: filter_empty_conv)
  then have zero: "filter (\<lambda>e. entry_loss e = 0) ?es = filter (\<lambda>e. entry_loss e = 0) (take i ?es)"
    by (metis append_Nil2 append_take_drop_id filter_append)
  have le: "\<forall>e\<in>set (take i ?es). entry_loss e \<le> ?l"
    using pool_loss_sorted [OF assms(1)] assms(2,3) by (fastforce simp: in_set_conv_nth)
  from loss_gas_list [OF le] show ?thesis
    by (simp add: zero_loss_gas_def zero)
qed

lemma truncate_none:
  assumes ok: "pool_ok T fl P" and none: "truncate_loss_ratio T P limit = None"
  shows "(\<Sum>e\<leftarrow>pool_entries P. entry_gas e) \<le> limit \<or> limit \<le> zero_loss_gas P"
proof -
  let ?es = "pool_entries P"
  obtain i where i: "i \<le> length ?es" "\<forall>j. i < j \<longrightarrow> j \<le> length ?es \<longrightarrow> \<not> samples P limit j" "gas_before P i \<le> limit"
    using truncate_loss_ratio_index [OF ok, of limit] none by (auto split: if_splits)
  show ?thesis
  proof (cases "i = length ?es")
    case False
    let ?l = "entry_loss (?es ! i)" and ?g = "entry_gas (?es ! i)"
    have n: "i < length ?es" and "\<not> samples P limit (Suc i)"
      using i False by auto
    then have lim: "limit < gas_before P i + ?g" and
      loss: "loss_before P i + ?l * ?g \<le> ?l * (gas_before P i + ?g - limit)"
      using before_Suc [OF n] by (auto simp: samples_def)
    have "?l * (gas_before P i + ?g - limit) \<le> ?l * ?g"
      using i(3) by (intro mult_le_mono2) linarith
    then have zero: "loss_before P i = 0" and eq: "?l * (gas_before P i + ?g - limit) = ?l * ?g"
      using loss by linarith+
    show ?thesis
    proof (cases "?l = 0")
      case True
      then have "loss_before P (Suc i) = 0"
        using zero before_Suc(2) [OF n] by simp
      then show ?thesis
        using zero_loss_gas_prefix [of "Suc i" P] lim before_Suc(1) [OF n] by linarith
    next
      case False
      then have "gas_before P i = limit"
        using eq lim i(3) by auto
      then show ?thesis
        using zero_loss_gas_prefix [OF zero] by simp
    qed
  qed (use i in simp)
qed

lemma truncate_some_limits:
  assumes ok: "pool_ok T fl P" and r: "truncate_loss_ratio T P limit = Some r"
  shows "zero_loss_gas P < limit \<and> limit < (\<Sum>e\<leftarrow>pool_entries P. entry_gas e)"
proof -
  let ?es = "pool_entries P"
  obtain i where i: "i \<le> length ?es" "samples P limit i" "limit < gas_before P i"
    using truncate_loss_ratio_index [OF ok, of limit] r by (auto split: if_splits)
  let ?l = "entry_loss (?es ! (i - 1))"
  have loss: "?l * (gas_before P i - limit) < loss_before P i" and i0: "0 < i"
    using i by (cases "i = 0"; auto simp: samples_def)+
  have "0 < ?l"
  proof (rule ccontr)
    assume "\<not> 0 < ?l"
    then have "entry_loss (?es ! j) = 0" if "j < i" for j
      using pool_loss_sorted [OF ok, of j "i - 1"] that i(1) by fastforce
    then have "loss_before P i = 0"
      using i(1) by (auto simp: in_set_conv_nth)
    with loss show False by linarith
  qed
  note before = zero_loss_gas_before [OF ok i(1) i0 this]
  have "?l * gas_before P i < loss_before P i + ?l * limit"
    using loss i(3) by (simp add: diff_mult_distrib2 less_diff_conv2)
  then have "?l * zero_loss_gas P < ?l * limit"
    using before by linarith
  then have "zero_loss_gas P < limit"
    by simp
  then show ?thesis
    using sum_list_take_le [of entry_gas i ?es] i(3) by linarith
qed

lemma truncate_some:
  assumes ok: "pool_ok T fl P" and r: "truncate_loss_ratio T P limit = Some r"
  shows "0 < r \<and> expected_gas P r \<le> limit * r \<and> limit * (r + 1) < expected_gas P (r + 1)"
proof -
  let ?es = "pool_entries P"
  obtain i where i: "i \<le> length ?es" "0 < r" "limit < gas_before P i"
    "\<And>j. j < i \<Longrightarrow> entry_loss (?es ! j) \<le> r"
    "\<And>j. i \<le> j \<Longrightarrow> j < length ?es \<Longrightarrow> r \<le> entry_loss (?es ! j)"
    "r * (gas_before P i - limit) \<le> loss_before P i" "loss_before P i < (r + 1) * (gas_before P i - limit)"
    using truncate_loss_ratio_bounds [OF ok r] by blast
  have "(\<Sum>e\<leftarrow>drop i ?es. entry_gas e * (r - entry_loss e)) = 0"
    using i(5) by (auto simp: in_set_conv_nth)
  then have "expected_gas P r + loss_before P i = r * gas_before P i"
    using expected_gas_split [OF i(1,4)] by simp
  moreover have "r * gas_before P i \<le> r * limit + loss_before P i"
    using i(3,6) by (simp add: diff_mult_distrib2)
  ultimately have "expected_gas P r \<le> limit * r"
    by (simp add: mult.commute)
  moreover have "(r + 1) * gas_before P i \<le> expected_gas P (r + 1) + loss_before P i"
    using expected_gas_split [OF i(1), of "r + 1"] i(4) by (simp add: le_SucI)
  moreover have "(r + 1) * limit + loss_before P i < (r + 1) * gas_before P i"
    using i(3,7) by (simp only: diff_mult_distrib2 less_diff_conv add.commute)
  ultimately have "limit * (r + 1) < expected_gas P (r + 1)"
    unfolding mult.commute [of limit] by linarith
  then show ?thesis
    using i(2) \<open>expected_gas P r \<le> limit * r\<close> by blast
qed

text \<open>
  C27: What \<^verbatim>\<open>truncate_loss_ratio\<close> finds by a binary search of the treap. It returns a loss ratio exactly
  when the limit is above the gas of the batches with loss ratio zero and below the gas of the
  whole pool. The result is then positive and is the optimal threshold: the greatest one with which
  packing each batch with probability \<open>1 - loss/r\<close> takes at most the block gas limit in expectation.
  The comment of the function knows only the second reason for \<^verbatim>\<open>None\<close>, a pool that cannot fill the
  limit; a limit of zero always gives \<^verbatim>\<open>None\<close>.
\<close>

theorem truncate_loss_ratio_optimal:
  assumes "pool_ok T fl P"
  shows "case truncate_loss_ratio T P limit of
      Some r \<Rightarrow> zero_loss_gas P < limit \<and> limit < (\<Sum>e\<leftarrow>pool_entries P. entry_gas e) \<and> 0 < r \<and>
        expected_gas P r \<le> limit * r \<and> limit * (r + 1) < expected_gas P (r + 1)
    | None \<Rightarrow> limit \<le> zero_loss_gas P \<or> (\<Sum>e\<leftarrow>pool_entries P. entry_gas e) \<le> limit"
proof (cases "truncate_loss_ratio T P limit")
  case None
  then show ?thesis
    using truncate_none [OF assms None] by auto
next
  case (Some r)
  then show ?thesis
    using truncate_some [OF assms Some] truncate_some_limits [OF assms Some] by simp
qed

theorem truncate_loss_ratio_optimal_witness:
  "\<exists>r. truncate_loss_ratio mini_tx mini_pool 40000 = Some r \<and> 0 < r \<and>
    expected_gas mini_pool r \<le> 40000 * r \<and> 40000 * (r + 1) < expected_gas mini_pool (r + 1)"
proof -
  have "mini_loss 10 \<noteq> 0" "mini_loss 20 \<noteq> 0"
    by (simp_all add: mini_loss_def)
  then have "zero_loss_gas mini_pool = 0" "(\<Sum>e\<leftarrow>pool_entries mini_pool. entry_gas e) = 60000"
    by (simp_all add: zero_loss_gas_def mini_pool_map mini_entry_def mini_weight_def entry_loss_def entry_gas_def)
  then show ?thesis
    using truncate_loss_ratio_optimal [OF mini_pool_ok, of 40000] by (auto split: option.splits)
qed

lemma tx_sampler_ok:
  assumes "pool_ok T fl P"
  shows "\<exists>s. pool_tx_sampler T P r limit = Some s \<and> sampler_ok s \<and> unvisited s = pool_entries P \<and> candidate_nodes s = []"
proof -
  have "\<exists>b. (case truncate_loss_ratio T P limit of Some r \<Rightarrow> cdiv u256_max r | None \<Rightarrow> Some 0) = Some b"
    using truncate_some [OF assms, of limit] by (cases "truncate_loss_ratio T P limit") (auto simp: cdiv_def)
  moreover have "distinct (map e_key (pool_entries P))"
    using assms(1) by (auto simp: pool_ok_def map_ok_def core_ok_def entries_ok_def)
  ultimately show ?thesis
    using extend_path_no_Empty [of "root (pool_map P)" "[]"] remaining_extend_path [of "root (pool_map P)" "[]"] heap_ok_new
    by (auto simp: treap_iter_def pool_tx_sampler_def sampler_new_def sampler_ok_def unvisited_def)
qed

lemma pool_entries_view:
  assumes "pool_ok T fl P"
  shows "distinct (map e_key (pool_entries P))" "pool_len T P = length (pool_entries P)"
    "map_of (map (\<lambda>e. (e_key e, txs (e_val e))) (pool_entries P)) = get_transactions T P"
proof -
  let ?es = "pool_entries P"
  show d: "distinct (map e_key ?es)"
    using assms by (auto simp: pool_ok_def map_ok_def core_ok_def entries_ok_def)
  have c: "contents (pool_map P) = map_of (map (\<lambda>e. (e_key e, (e_val e, e_weight e))) ?es)"
    by (simp add: contents_def contents_of_def)
  have "dom (batches_of P) = e_key ` set ?es"
    using dom_contents_of [of ?es] by (auto simp: batches_of_def contents_def dom_def)
  then show "pool_len T P = length ?es"
    using pool_queries(1) [OF assms] distinct_card [OF d] by simp
  have "map_of (map (\<lambda>e. (e_key e, txs (e_val e))) es) k =
      map_option (txs \<circ> fst) (map_of (map (\<lambda>e. (e_key e, (e_val e, e_weight e))) es) k)"
    for k and es :: "('a, 'b) pp_entry list"
    by (induction es) auto
  then show "map_of (map (\<lambda>e. (e_key e, txs (e_val e))) ?es) = get_transactions T P"
    using pool_queries(2) [OF assms] by (simp add: fun_eq_iff batches_of_def c option.map_comp)
qed

text \<open>
  C28: Draining the sampler of a consistent pool ends within one call per batch and one more, without
  a panic, for every random source that does not draw the largest 64-bit value. It yields every
  batch of the pool exactly once and in the order of the phases: random picks, then the queued
  candidates, then the rest by descending price.
\<close>

theorem sampler_drains_pool:
  fixes T :: "('tx, 'a::linorder) tx_ops" and prio :: "u64 \<Rightarrow> u64 \<Rightarrow> 'p::linorder"
    and nx :: "'d \<Rightarrow> 'd \<times> u64"
  assumes "pool_ok T fl P" "draws_ok nx"
  shows "\<exists>s xs. pool_tx_sampler T P r limit = Some s \<and> sample_all prio nx (Suc (pool_len T P)) s = Some xs \<and>
    distinct (map fst xs) \<and> map_of (map (\<lambda>(k, ts, _). (k, ts)) xs) = get_transactions T P \<and>
    sorted (map (\<lambda>x. tag_rank (snd (snd x))) xs)"
proof -
  note view = pool_entries_view [OF assms(1)]
  let ?kt = "\<lambda>e. (e_key e, txs (e_val e))" and ?es = "pool_entries P"
  obtain s :: "('tx, 'a, 'p, 'd) tx_sampler" where s: "pool_tx_sampler T P r limit = Some s" "sampler_ok s" "unvisited s = ?es" "candidate_nodes s = []"
    using tx_sampler_ok [OF assms(1), of r limit] by blast
  then obtain xs where xs: "sample_all prio nx (Suc (pool_len T P)) s = Some xs"
    "mset (map (\<lambda>(k, ts, _). (k, ts)) xs) = mset (map ?kt ?es)" "sorted (map (\<lambda>x. tag_rank (snd (snd x))) xs)"
    using sample_all_spec [OF assms(2) s(2), of "Suc (pool_len T P)" prio] view(2) by auto
  have m: "mset (map fst (map (\<lambda>(k, ts, _). (k, ts)) xs)) = mset (map fst (map ?kt ?es))"
    using xs(2) by (simp only: mset_map)
  have e: "distinct (map fst (map ?kt ?es))"
    using view(1) by (simp add: comp_def)
  have d: "distinct (map fst (map (\<lambda>(k, ts, _). (k, ts)) xs))"
    using mset_eq_imp_distinct_iff [OF m] e by (simp only:)
  have "map fst (map (\<lambda>(k, ts, _). (k, ts)) xs) = map fst xs"
    by auto
  then have "distinct (map fst xs)"
    using d by (simp only:)
  moreover have "map_of (map (\<lambda>(k, ts, _). (k, ts)) xs) = get_transactions T P"
    unfolding view(3) [symmetric] map_of_inject_set [OF d e] using mset_eq_setD [OF xs(2)] .
  ultimately show ?thesis
    using s(1) xs(1,3) by (intro exI conjI)
qed

theorem sampler_drains_pool_witness:
  "\<exists>s xs. pool_tx_sampler mini_tx mini_pool (0 :: nat) 40000 = Some s \<and>
    sample_all (\<lambda>q d. q div d) (\<lambda>r. (r + 1, r mod 1000)) (Suc (pool_len mini_tx mini_pool)) s = Some xs \<and>
    distinct (map fst xs) \<and> map_of (map (\<lambda>(k, ts, _). (k, ts)) xs) = get_transactions mini_tx mini_pool \<and>
    sorted (map (\<lambda>x. tag_rank (snd (snd x))) xs)"
proof (rule sampler_drains_pool [OF mini_pool_ok])
  show "draws_ok (\<lambda>r :: nat. (r + 1, r mod 1000))"
    by (auto simp: draws_ok_def intro: less_trans [OF mod_less_divisor])
qed

text \<open>
  C32: A draw of the largest 64-bit value makes the sampler panic while it picks at random: the draw is
  never below the target quality, and \<^verbatim>\<open>sampled + 1\<close> overflows.
\<close>

theorem sampler_panics_on_max_draw:
  assumes "iter_next (s_iter s) = (Some node, it)" "random_sample_phase s" "loss_base s \<noteq> 0"
    and "loss_base s * w_max_loss_ratio (e_weight node) < 2 ^ 256" "snd (nx (s_rng s)) = u64_max"
  shows "sampler_next prio nx s = None"
proof -
  obtain x where x: "cmul 256 (loss_base s) (w_max_loss_ratio (e_weight node)) = Some x"
    using assms(4) by (auto simp: cmul_def)
  obtain rr where nx: "nx (s_rng s) = (rr, u64_max)"
    using assms(5) by (cases "nx (s_rng s)") auto
  have "sat_add 64 a 1 \<le> u64_max" for a
    by (simp add: sat_add_def)
  then have "sample_round prio nx (s\<lparr>s_iter := it\<rparr>) node = None"
    using nx by (simp add: sample_round_def x Let_def not_less cadd_def del: cmul_eq_Some)
  then show ?thesis
    using assms(1-3) by (simp add: sampler_next_def random_sample.simps)
qed

theorem sampler_panics_on_max_draw_witness:
  "sampler_next (\<lambda>q d. q div d) (\<lambda>r. (r, u64_max)) (sampler_new (treap_iter (pool_map mini_pool)) 1 (0 :: nat)) = None"
proof (rule sampler_panics_on_max_draw [where node = "mini_entry 7 0 20" and it = "[root (pool_map mini_pool)]"])
  show "iter_next (s_iter (sampler_new (treap_iter (pool_map mini_pool)) 1 (0 :: nat))) =
      (Some (mini_entry 7 0 20), [root (pool_map mini_pool)])"
    by (simp add: sampler_new_def treap_iter_def mini_pool_map)
qed (simp_all add: sampler_new_def mini_entry_def mini_weight_def mini_loss_def)

end
