(* ===== verification/Base32_Address.thy ===== *)
theory Base32_Address
  imports Mazze_Prelude "HOL-Library.Word"
begin

text \<open>
  \<^verbatim>\<open>crates/mazze_addr\<close>: the human-readable form of addresses, a network prefix and a base-32 payload
  with a checksum over the field with 32 elements (\<^verbatim>\<open>checksum.rs\<close>, \<^verbatim>\<open>consts.rs\<close>, \<^verbatim>\<open>errors.rs\<close>, \<^verbatim>\<open>lib.rs\<close>),
  and the address type bits of \<^verbatim>\<open>mazze_types\<close>.

  Strings are ASCII: on them the Unicode case functions of the standard library are the ones
  defined here. An outer \<open>None\<close> is a panic.
\<close>

section \<open>Strings\<close>

definition is_lowercase :: "char \<Rightarrow> bool" where
  "is_lowercase c \<longleftrightarrow> 97 \<le> (of_char c :: nat) \<and> (of_char c :: nat) \<le> 122"

definition is_uppercase :: "char \<Rightarrow> bool" where
  "is_uppercase c \<longleftrightarrow> 65 \<le> (of_char c :: nat) \<and> (of_char c :: nat) \<le> 90"

definition to_lower :: "char \<Rightarrow> char" where
  "to_lower c = (if is_uppercase c then char_of ((of_char c :: nat) + 32) else c)"

definition to_upper :: "char \<Rightarrow> char" where
  "to_upper c = (if is_lowercase c then char_of ((of_char c :: nat) - 32) else c)"

text \<open>\<^verbatim>\<open>str::split\<close> at a character: always at least one part.\<close>

fun split_at :: "char \<Rightarrow> string \<Rightarrow> string list" where
  "split_at x [] = [[]]"
| "split_at x (c # cs) =
     (if c = x then [] # split_at x cs
      else case split_at x cs of p # ps \<Rightarrow> (c # p) # ps | [] \<Rightarrow> [[c]])"

text \<open>Decimal numbers: \<^verbatim>\<open>format!\<close> and \<^verbatim>\<open>str::parse::<u64>\<close>, which allows a leading plus sign.\<close>

fun show_nat :: "nat \<Rightarrow> string" where
  "show_nat n = (if n < 10 then [char_of (48 + n)] else show_nat (n div 10) @ [char_of (48 + n mod 10)])"

declare show_nat.simps [simp del]

fun parse_digits :: "u64 \<Rightarrow> string \<Rightarrow> u64 option" where
  "parse_digits acc [] = Some acc"
| "parse_digits acc (c # cs) =
     (if 48 \<le> (of_char c :: nat) \<and> (of_char c :: nat) \<le> 57 then do {
        a \<leftarrow> cmul 64 acc 10;
        a \<leftarrow> cadd 64 a (of_char c - 48);
        parse_digits a cs
      } else None)"

definition parse_u64 :: "string \<Rightarrow> u64 option" where
  "parse_u64 s =
     (case s of
        [] \<Rightarrow> None
      | c # cs \<Rightarrow>
          if c = CHR ''+'' then if cs = [] then None else parse_digits 0 cs
          else parse_digits 0 (c # cs))"

section \<open>Networks and address types\<close>

datatype network = NetMain | NetTest | NetId u64

datatype address_type = Builtin | Contract | Null | User | Unknown

datatype encoding_error = EncInvalidAddressType "8 word" | EncInvalidLength nat | EncInvalidNetworkId u64


datatype option_error = ParseError string | AddressTypeMismatch address_type "unit + address_type" | InvalidAddressType string

datatype decoding_error =
    InvalidLength nat
  | NoPrefix
  | InvalidPrefix string
  | InvalidOption option_error
  | ChecksumFailed "64 word"
  | InvalidChar char
  | InvalidPadding nat nat "16 word"
  | VersionNotRecognized "8 word"
  | MixedCase

definition reserved_network_ids :: "u64 list" where
  "reserved_network_ids = [1, 1990]"

definition to_prefix :: "network \<Rightarrow> encoding_error + string" where
  "to_prefix net =
     (case net of
        NetMain \<Rightarrow> Inr ''mazze''
      | NetTest \<Rightarrow> Inr ''mazzetest''
      | NetId i \<Rightarrow> if i \<in> set reserved_network_ids then Inl (EncInvalidNetworkId i) else Inr (''net'' @ show_nat i))"

definition from_prefix :: "string \<Rightarrow> decoding_error + network" where
  "from_prefix p =
     (if p = ''mazze'' then Inr NetMain
      else if p = ''mazzetest'' then Inr NetTest
      else
        case (if take 3 p \<noteq> ''net'' then None
              else case parse_u64 (drop 3 p) of
                     None \<Rightarrow> None
                   | Some i \<Rightarrow> if i \<in> set reserved_network_ids then None else Some i) of
          None \<Rightarrow> Inl (InvalidPrefix p)
        | Some i \<Rightarrow> Inr (NetId i))"

definition parse_type :: "string \<Rightarrow> address_type" where
  "parse_type t =
     (if t = ''builtin'' then Builtin
      else if t = ''contract'' then Contract
      else if t = ''null'' then Null
      else if t = ''user'' then User
      else Unknown)"

definition type_str :: "address_type \<Rightarrow> string" where
  "type_str t =
     (case t of Builtin \<Rightarrow> ''builtin'' | Contract \<Rightarrow> ''contract'' | Null \<Rightarrow> ''null'' | User \<Rightarrow> ''user'' | Unknown \<Rightarrow> ''unknown'')"

text \<open>The type bits of an address; the first byte of an empty slice is out of range.\<close>

definition address_type_bits :: "8 word list \<Rightarrow> 8 word option" where
  "address_type_bits a = (case a of [] \<Rightarrow> None | b # _ \<Rightarrow> Some (and b 0xF0))"

definition is_null_address :: "8 word list \<Rightarrow> bool" where
  "is_null_address a = list_all (\<lambda>b. b = 0) a"

definition type_from_address :: "8 word list \<Rightarrow> address_type option" where
  "type_from_address a = do {
     bits \<leftarrow> address_type_bits a;
     Some (if bits = 0x00 then (if is_null_address a then Null else Builtin)
           else if bits = 0x80 then Contract
           else if bits = 0x10 then User
           else Unknown)
   }"

section \<open>The checksum\<close>

definition polymod_step :: "64 word \<Rightarrow> 8 word \<Rightarrow> 64 word" where
  "polymod_step c d =
     (let c0 = ucast (drop_bit 35 c) :: 8 word;
          c = xor (push_bit 5 (and c 0x07FFFFFFFF)) (ucast d);
          c = (if and c0 0x01 \<noteq> 0 then xor c 0x98F2BC8E61 else c);
          c = (if and c0 0x02 \<noteq> 0 then xor c 0x79B76D99E2 else c);
          c = (if and c0 0x04 \<noteq> 0 then xor c 0xF33E5FB3C4 else c);
          c = (if and c0 0x08 \<noteq> 0 then xor c 0xAE2EABE2A8 else c)
      in (if and c0 0x10 \<noteq> 0 then xor c 0x1E4F43E470 else c))"

definition polymod :: "8 word list \<Rightarrow> 64 word" where
  "polymod v = xor (foldl polymod_step 1 v) 1"

definition expand_prefix :: "string \<Rightarrow> 8 word list" where
  "expand_prefix p = map (\<lambda>c. and (of_char c) 0x1F) p @ [0]"

section \<open>Regrouping bits\<close>

text \<open>The inner loop; with no output bits the capacity computation before it has panicked.\<close>

function extract_groups :: "nat \<Rightarrow> 16 word \<Rightarrow> nat \<Rightarrow> 8 word list \<Rightarrow> 16 word \<times> nat \<times> 8 word list" where
  "extract_groups outbits acc num ret =
     (if outbits = 0 \<or> num < outbits then (acc, num, ret)
      else extract_groups outbits
             (and acc (not (push_bit (num - outbits) (push_bit outbits 1 - 1)))) (num - outbits)
             (ret @ [ucast (drop_bit (num - outbits) acc)]))"
  by pat_completeness auto
termination
  by (relation "measure (\<lambda>(_, _, num, _). num)") auto

declare extract_groups.simps [simp del]

definition convert_step ::
  "nat \<Rightarrow> nat \<Rightarrow> 16 word \<times> nat \<times> 8 word list \<Rightarrow> 8 word \<Rightarrow> 16 word \<times> nat \<times> 8 word list" where
  "convert_step inbits outbits st d =
     (case st of (acc, num, ret) \<Rightarrow> extract_groups outbits (or (push_bit inbits acc) (ucast d)) (num + inbits) ret)"

definition convert_bits :: "8 word list \<Rightarrow> nat \<Rightarrow> nat \<Rightarrow> bool \<Rightarrow> (decoding_error + 8 word list) option" where
  "convert_bits data inbits outbits pad =
     (if inbits > 8 \<or> outbits > 8 \<or> outbits = 0 then None
      else
        case foldl (convert_step inbits outbits) (0, 0, []) data of
          (acc, num, ret) \<Rightarrow>
            if pad then Some (Inr (if num > 0 then ret @ [ucast (push_bit (outbits - num) acc)] else ret))
            else
              let padding = (length data * inbits) mod outbits
              in if num \<ge> inbits \<or> acc \<noteq> 0 then Some (Inl (InvalidPadding inbits padding acc))
                 else Some (Inr ret))"

section \<open>Encoding\<close>

definition base32_chars :: string where
  "base32_chars = ''abcdefghijklmnopqrstuvwxyz0123456789''"

definition exclude_chars :: "char list" where
  "exclude_chars = [CHR ''o'', CHR ''i'', CHR ''l'', CHR ''q'']"

definition charset :: string where
  "charset = filter (\<lambda>c. c \<notin> set exclude_chars) base32_chars"

definition charset_size :: nat where
  "charset_size = 32"

text \<open>The decoding table, filled for both cases of every character.\<close>

definition char_index :: "8 word option list" where
  "char_index =
     foldl (\<lambda>index i.
         let c = of_char (charset ! i) :: nat;
             index = index[c := Some (of_nat i)];
             u = of_char (to_upper (charset ! i)) :: nat
         in if u \<noteq> c then index[u := Some (of_nat i)] else index)
       (replicate 128 None) [0..<charset_size]"

definition charset_at :: "8 word \<Rightarrow> char option" where
  "charset_at b = (if unat b < length charset then Some (charset ! unat b) else None)"

datatype encoding_options = Simple | QrCode

definition version_of_length :: "nat \<Rightarrow> 8 word option" where
  "version_of_length n =
     (if n = 20 then Some 0 else if n = 24 then Some 1 else if n = 28 then Some 2 else if n = 32 then Some 3
      else if n = 40 then Some 4 else if n = 48 then Some 5 else if n = 56 then Some 6 else if n = 64 then Some 7
      else None)"

definition checksum_symbols :: "64 word \<Rightarrow> 8 word list" where
  "checksum_symbols checksum = map (\<lambda>i. ucast (and (drop_bit (i * 5) checksum) 31)) (rev [0..<8])"

definition checksum_of :: "string \<Rightarrow> 8 word list \<Rightarrow> 64 word" where
  "checksum_of p payload_5_bits = polymod (expand_prefix p @ payload_5_bits @ replicate 8 0)"

definition mazze_addr_encode ::
  "8 word list \<Rightarrow> network \<Rightarrow> encoding_options \<Rightarrow> (encoding_error + string) option" where
  "mazze_addr_encode raw net opts =
     (case version_of_length (length raw) of
        None \<Rightarrow> Some (Inl (EncInvalidLength (length raw)))
      | Some version_byte \<Rightarrow>
          (case to_prefix net of
             Inl e \<Rightarrow> Some (Inl e)
           | Inr p \<Rightarrow>
               (case convert_bits (version_byte # raw) 8 5 True of
                  Some (Inr payload_5_bits) \<Rightarrow> do {
                    payload_str \<leftarrow> those (map charset_at payload_5_bits);
                    checksum_str \<leftarrow> those (map charset_at (checksum_symbols (checksum_of p payload_5_bits)));
                    (case opts of
                       Simple \<Rightarrow> Some (Inr (p @ '':'' @ payload_str @ checksum_str))
                     | QrCode \<Rightarrow> do {
                         t \<leftarrow> type_from_address raw;
                         Some (Inr (map to_upper (p @ '':type.'' @ type_str t @ '':'' @ payload_str @ checksum_str)))
                       })
                  }
                | _ \<Rightarrow> None)))"

section \<open>Decoding\<close>

record decoded_raw_address =
  input_base32_address :: string
  parsed_address_bytes :: "8 word list"
  hex_address :: "8 word list option"
  decoded_network :: network

fun parse_options :: "string list \<Rightarrow> address_type option \<Rightarrow> decoding_error + address_type option" where
  "parse_options [] address_type = Inr address_type"
| "parse_options (option_str # rest) address_type =
     (let key_value = split_at (CHR ''.'') option_str in
      if length key_value \<noteq> 2 then Inl (InvalidOption (ParseError option_str))
      else if key_value ! 0 = ''type'' then parse_options rest (Some (parse_type (key_value ! 1)))
      else parse_options rest address_type)"

fun decode_symbols :: "string \<Rightarrow> decoding_error + 8 word list" where
  "decode_symbols [] = Inr []"
| "decode_symbols (c # cs) =
     (if (of_char c :: nat) < length char_index then
        case char_index ! of_char c of
          Some d \<Rightarrow> map_sum id (Cons d) (decode_symbols cs)
        | None \<Rightarrow> Inl (InvalidChar c)
      else Inl (InvalidChar c))"

definition size_mismatch :: "8 word \<Rightarrow> nat \<Rightarrow> bool" where
  "size_mismatch version_size body_len \<longleftrightarrow>
     version_size = 0 \<and> body_len \<noteq> 20 \<or> version_size = 1 \<and> body_len \<noteq> 24 \<or>
     version_size = 2 \<and> body_len \<noteq> 28 \<or> version_size = 3 \<and> body_len \<noteq> 32 \<or>
     version_size = 4 \<and> body_len \<noteq> 40 \<or> version_size = 5 \<and> body_len \<noteq> 48 \<or>
     version_size = 6 \<and> body_len \<noteq> 56 \<or> version_size = 7 \<and> body_len \<noteq> 64"

text \<open>From the checks of the version byte on.\<close>

definition decode_body ::
  "string \<Rightarrow> network \<Rightarrow> address_type option \<Rightarrow> 8 word list \<Rightarrow> (decoding_error + decoded_raw_address) option" where
  "decode_body addr_str net address_type payload =
     (case payload of
        [] \<Rightarrow> None
      | version # body \<Rightarrow>
          (let version_size = and version 0x07;
               ok = (\<lambda>hex. Some (Inr \<lparr>input_base32_address = addr_str, parsed_address_bytes = body,
                                    hex_address = hex, decoded_network = net\<rparr>))
           in if size_mismatch version_size (length body) then Some (Inl (InvalidLength (length body)))
              else if and version 0xF8 \<noteq> 0 then Some (Inl (VersionNotRecognized version))
              else if version_size = 0 then
                (case address_type of
                   Some expected \<Rightarrow> do {
                     got \<leftarrow> type_from_address body;
                     if got \<noteq> expected
                     then Some (Inl (InvalidOption (AddressTypeMismatch expected (Inr got))))
                     else ok (Some body)
                   }
                 | None \<Rightarrow> ok (Some body))
              else ok None))"

definition decode_payload ::
  "string \<Rightarrow> string \<Rightarrow> network \<Rightarrow> address_type option \<Rightarrow> string \<Rightarrow>
   (decoding_error + decoded_raw_address) option" where
  "decode_payload addr_str p net address_type payload_str =
     (if length payload_str = 0 then Some (Inl (InvalidLength 0))
      else if list_ex is_lowercase payload_str \<and> list_ex is_uppercase payload_str then Some (Inl MixedCase)
      else
        case decode_symbols payload_str of
          Inl e \<Rightarrow> Some (Inl e)
        | Inr payload_5_bits \<Rightarrow>
            (let checksum = polymod (expand_prefix p @ payload_5_bits)
             in if checksum \<noteq> 0 then Some (Inl (ChecksumFailed checksum))
                else if length payload_5_bits < 8 then None
                else
                  case convert_bits (take (length payload_5_bits - 8) payload_5_bits) 5 8 False of
                    None \<Rightarrow> None
                  | Some (Inl e) \<Rightarrow> Some (Inl e)
                  | Some (Inr payload) \<Rightarrow> decode_body addr_str net address_type payload))"

definition mazze_addr_decode :: "string \<Rightarrow> (decoding_error + decoded_raw_address) option" where
  "mazze_addr_decode addr_str =
     (if list_ex is_lowercase addr_str \<and> list_ex is_uppercase addr_str then Some (Inl MixedCase)
      else
        let parts = split_at (CHR '':'') (map to_lower addr_str)
        in if length parts < 2 then Some (Inl NoPrefix)
           else
             case from_prefix (hd parts) of
               Inl e \<Rightarrow> Some (Inl e)
             | Inr net \<Rightarrow>
                 (case parse_options (butlast (tl parts)) None of
                    Inl e \<Rightarrow> Some (Inl e)
                  | Inr address_type \<Rightarrow> decode_payload addr_str (hd parts) net address_type (last parts)))"

section \<open>The checksum is linear\<close>

text \<open>The generator, as a linear function of the five bits shifted out.\<close>

definition gen :: "8 word \<Rightarrow> 64 word" where
  "gen c0 =
    xor (xor (xor (xor (if bit c0 0 then 0x98F2BC8E61 else 0) (if bit c0 1 then 0x79B76D99E2 else 0))
      (if bit c0 2 then 0xF33E5FB3C4 else 0)) (if bit c0 3 then 0xAE2EABE2A8 else 0))
      (if bit c0 4 then 0x1E4F43E470 else 0)"

lemma and_bit:
  "and w 1 = 0 \<longleftrightarrow> \<not> bit w 0" "and w 2 = 0 \<longleftrightarrow> \<not> bit w 1" "and w 4 = 0 \<longleftrightarrow> \<not> bit w 2"
  "and w 8 = 0 \<longleftrightarrow> \<not> bit w 3" "and w 16 = 0 \<longleftrightarrow> \<not> bit w 4" for w :: "8 word"
  using and_exp_eq_0_iff_not_bit [of w 0] and_exp_eq_0_iff_not_bit [of w 1] and_exp_eq_0_iff_not_bit [of w 2]
    and_exp_eq_0_iff_not_bit [of w 3] and_exp_eq_0_iff_not_bit [of w 4] by simp_all

lemma xor_if: "(if b then xor c g else c) = xor c (if b then g else 0)" for c g :: "64 word"
  by simp

lemma polymod_step_eq:
  "polymod_step c d = xor (xor (push_bit 5 (take_bit 35 c)) (ucast d)) (gen (ucast (drop_bit 35 c)))"
proof -
  have m: "and c 0x07FFFFFFFF = take_bit 35 c"
    by (simp add: take_bit_eq_mask mask_eq_exp_minus_1)
  show ?thesis
    unfolding polymod_step_def Let_def m and_bit not_not xor_if gen_def by (simp only: xor.assoc)
qed

lemma if_xor: "(if a \<noteq> b then g else 0) = xor (if a then g else 0) (if b then g else 0)" for g :: "64 word"
  by simp

lemma gen_xor: "gen (xor a b) = xor (gen a) (gen b)"
  unfolding gen_def bit_xor_iff if_xor by (simp only: xor.assoc xor.left_commute xor.commute)

lemma gen_0: "gen 0 = 0"
  by (simp add: gen_def)

lemma bit_gen: "40 \<le> n \<Longrightarrow> \<not> bit (gen c) n"
proof -
  assume n: "40 \<le> n"
  have z: "\<not> bit (w :: 64 word) n" if "take_bit 40 w = w" for w
    using that n by (metis bit_take_bit_iff not_le)
  show ?thesis
    by (simp add: gen_def bit_simps z)
qed

lemma bit_gen_low: "n < 5 \<Longrightarrow> bit (gen c) n = bit c n"
proof -
  assume "n < 5"
  then consider "n = 0" | "n = 1" | "n = 2" | "n = 3" | "n = 4" by linarith
  then show ?thesis
    by cases (simp_all add: gen_def bit_xor_iff)
qed

definition lin :: "64 word \<Rightarrow> 64 word" where
  "lin e = xor (push_bit 5 (take_bit 35 e)) (gen (ucast (drop_bit 35 e)))"

lemma polymod_step_xor: "polymod_step (xor c e) (xor d f) = xor (polymod_step c d) (xor (lin e) (ucast f))"
  unfolding polymod_step_eq lin_def take_bit_xor push_bit_xor drop_bit_xor unsigned_xor_eq gen_xor
  by (simp only: xor.assoc xor.left_commute xor.commute)

lemma lin_small: "take_bit 35 e = e \<Longrightarrow> lin e = push_bit 5 e"
proof -
  assume e: "take_bit 35 e = e"
  then have "drop_bit 35 e = 0"
    by (metis drop_bit_take_bit diff_self_eq_0 take_bit_0)
  then show ?thesis
    by (simp add: lin_def e gen_0)
qed

lemma bits_bounded: "take_bit n w = w \<longleftrightarrow> (\<forall>i\<ge>n. \<not> bit w i)" for w :: "'a::len word"
proof
  assume "take_bit n w = w"
  then show "\<forall>i\<ge>n. \<not> bit w i"
    by (metis bit_take_bit_iff not_le)
next
  assume "\<forall>i\<ge>n. \<not> bit w i"
  then show "take_bit n w = w"
    by (intro bit_word_eqI) (auto simp: bit_take_bit_iff not_le [symmetric])
qed

lemma lin_bounded: "take_bit 40 (lin e) = lin e"
  unfolding bits_bounded lin_def by (auto simp: bit_simps bit_gen)

lemma lin_nonzero:
  assumes "take_bit 40 e = e" "lin e = 0"
  shows "e = 0"
proof -
  have z: "\<not> bit (lin e) n" for n
    using assms(2) by simp
  have high: "\<not> bit e n" if "35 \<le> n" for n
  proof (cases "n < 40")
    case True
    then have "bit (gen (ucast (drop_bit 35 e))) (n - 35) = bit e n"
      using that by (subst bit_gen_low) (auto simp: bit_simps)
    moreover have "bit (lin e) (n - 35) = bit (gen (ucast (drop_bit 35 e))) (n - 35)"
      using True by (auto simp: lin_def bit_simps)
    ultimately show ?thesis
      using z by blast
  next
    case False
    then show ?thesis
      using assms(1) unfolding bits_bounded by simp
  qed
  then have e: "take_bit 35 e = e"
    unfolding bits_bounded by blast
  then have p: "push_bit 5 e = 0"
    using assms(2) by (simp add: lin_small)
  show ?thesis
  proof (rule bit_word_eqI)
    fix n assume "n < LENGTH(64)"
    show "bit e n = bit (0 :: 64 word) n"
    proof (cases "n < 35")
      case True
      then show ?thesis
        using arg_cong [OF p, of "\<lambda>w. bit w (n + 5)"] by (simp add: bit_simps)
    qed (use high in simp)
  qed
qed

lemma polymod_step_bounded: "take_bit 40 (polymod_step c d) = polymod_step c d"
  unfolding bits_bounded polymod_step_eq by (auto simp: bit_simps bit_gen dest: bit_imp_le_length)

section \<open>Checksums\<close>

lemma polymod_state_bounded: "take_bit 40 c = c \<Longrightarrow> take_bit 40 (foldl polymod_step c ds) = foldl polymod_step c ds"
  by (induction ds rule: rev_induct) (simp_all add: polymod_step_bounded)

text \<open>A difference in the state never disappears.\<close>

lemma foldl_polymod_differ:
  assumes "take_bit 40 e = e" "e \<noteq> 0"
  shows "foldl polymod_step (xor c e) ds \<noteq> foldl polymod_step c ds"
  using assms
proof (induction ds arbitrary: c e)
  case Nil
  then show ?case
    by (metis foldl_Nil xor.right_neutral xor_self_eq xor.assoc xor.commute)
next
  case (Cons d ds)
  have "polymod_step (xor c e) d = xor (polymod_step c d) (lin e)"
    using polymod_step_xor [of c e d 0] by simp
  then show ?case
    using Cons.IH [of "lin e" "polymod_step c d"] lin_bounded lin_nonzero [OF Cons.prems(1)] Cons.prems(2) by auto
qed

lemma polymod_detects:
  assumes "d \<noteq> d'"
  shows "polymod (xs @ d # ys) \<noteq> polymod (xs @ d' # ys)"
proof -
  let ?c = "foldl polymod_step 1 xs" and ?e = "xor d d'"
  have "polymod_step ?c d' = xor (polymod_step ?c d) (ucast ?e)"
    using polymod_step_xor [of ?c 0 d ?e] by (simp add: lin_def gen_0 xor.assoc [symmetric])
  moreover have "take_bit 40 (ucast ?e :: 64 word) = ucast ?e"
    unfolding bits_bounded by (auto simp: bit_simps dest: bit_imp_le_length)
  moreover have "(ucast ?e :: 64 word) \<noteq> 0"
  proof
    assume z: "(ucast ?e :: 64 word) = 0"
    have "bit d n = bit d' n" if "n < 8" for n
      using arg_cong [OF z, of "\<lambda>w. bit w n"] that by (simp add: bit_simps)
    then have "d = d'"
      by (intro bit_word_eqI) simp
    then show False
      using assms by blast
  qed
  ultimately have "foldl polymod_step ?c (d # ys) \<noteq> foldl polymod_step ?c (d' # ys)"
    using foldl_polymod_differ [of "ucast ?e" "polymod_step ?c d" ys] by simp
  moreover have "a = b" if "xor a 1 = xor b 1" for a b :: "64 word"
    using arg_cong [OF that, of "\<lambda>w. xor w 1"] by (simp add: xor.assoc)
  ultimately show ?thesis
    by (auto simp: polymod_def)
qed

text \<open>The checksum symbols are the digits of the remainder, which cancel it.\<close>

lemma foldl_symbols:
  assumes "length ds \<le> 8" "list_all (\<lambda>d. take_bit 5 d = d) ds"
  shows "foldl polymod_step c ds =
      xor (foldl polymod_step c (replicate (length ds) 0)) (foldl (\<lambda>v d. xor (push_bit 5 v) (ucast d)) 0 ds) \<and>
    take_bit (5 * length ds) (foldl (\<lambda>v d. xor (push_bit 5 v) (ucast d)) 0 ds) =
      foldl (\<lambda>v d. xor (push_bit 5 v) (ucast d)) (0 :: 64 word) ds"
  using assms
proof (induction ds rule: rev_induct)
  case (snoc d ds)
  let ?v = "foldl (\<lambda>v d. xor (push_bit 5 v) (ucast d)) (0 :: 64 word) ds" and ?z = "foldl polymod_step c (replicate (length ds) 0)"
  have IH: "foldl polymod_step c ds = xor ?z ?v" "take_bit (5 * length ds) ?v = ?v"
    using snoc by auto
  then have "take_bit 35 ?v = ?v"
    using snoc.prems(1) unfolding bits_bounded by auto
  then have "polymod_step (xor ?z ?v) d = xor (polymod_step ?z 0) (xor (push_bit 5 ?v) (ucast d))"
    using polymod_step_xor [of ?z ?v 0 d] by (simp add: lin_small)
  moreover have "take_bit (5 * Suc (length ds)) (xor (push_bit 5 ?v) (ucast d)) = xor (push_bit 5 ?v) (ucast d)"
    using IH(2) snoc.prems(2) unfolding bits_bounded by (auto simp: bit_simps bits_bounded)
  ultimately show ?case
    using IH(1) by (simp add: replicate_append_same [symmetric])
qed simp

lemma and_31: "and w 31 = take_bit 5 w" for w :: "64 word"
  by (simp add: take_bit_eq_mask mask_eq_exp_minus_1)

lemma digits_value:
  "foldl (\<lambda>v d. xor (push_bit 5 v) (ucast d)) v (map (\<lambda>i. ucast (and (drop_bit (i * 5) cs) 31) :: 8 word) (rev [0..<n])) =
    xor (push_bit (5 * n) v) (take_bit (5 * n) cs)" for cs :: "64 word"
proof (induction n arbitrary: v)
  case (Suc n)
  have d: "ucast (ucast (and (drop_bit (n * 5) cs) 31) :: 8 word) = take_bit 5 (drop_bit (5 * n) cs)"
    unfolding and_31 by (rule bit_word_eqI) (auto simp: bit_simps mult.commute)
  have "xor (push_bit (5 * n) (xor (push_bit 5 v) (take_bit 5 (drop_bit (5 * n) cs)))) (take_bit (5 * n) cs) =
      xor (push_bit (5 * Suc n) v) (take_bit (5 * Suc n) cs)"
    by (rule bit_word_eqI) (auto simp: bit_simps algebra_simps)
  then show ?case
    by (simp add: Suc d)
qed simp

lemma checksum_cancels: "polymod (expand_prefix p @ payload @ checksum_symbols (checksum_of p payload)) = 0"
proof -
  define c where "c = foldl polymod_step 1 (expand_prefix p @ payload)"
  define z where "z = foldl polymod_step c (replicate 8 0)"
  let ?ds = "checksum_symbols (xor z 1)"
  have cs: "checksum_of p payload = xor z 1"
    by (simp add: checksum_of_def polymod_def z_def c_def)
  have "take_bit 40 (1 :: 64 word) = 1"
    by simp
  then have "take_bit 40 c = c"
    unfolding c_def by (rule polymod_state_bounded)
  then have "take_bit 40 z = z"
    unfolding z_def by (rule polymod_state_bounded)
  then have "take_bit 40 (xor z 1) = xor z 1"
    by (simp add: take_bit_xor)
  then have v: "foldl (\<lambda>v d. xor (push_bit 5 v) (ucast d)) (0 :: 64 word) ?ds = xor z 1"
    unfolding checksum_symbols_def digits_value by simp
  have "length ?ds = 8" "list_all (\<lambda>d. take_bit 5 d = d) ?ds"
    by (auto simp: checksum_symbols_def list_all_iff and_31 bits_bounded bit_simps)
  then have "foldl polymod_step c ?ds = xor z (xor z 1)"
    using foldl_symbols [of ?ds c] v by (simp add: z_def)
  then show ?thesis
    by (simp add: polymod_def cs c_def xor.assoc [symmetric])
qed

section \<open>Regrouping\<close>

definition msb_bits :: "nat \<Rightarrow> 'a::len word \<Rightarrow> bool list" where
  "msb_bits n w = map (bit w) (rev [0..<n])"

lemma length_msb_bits [simp]: "length (msb_bits n w) = n"
  by (simp add: msb_bits_def)

lemma msb_bits_0 [simp]: "msb_bits 0 w = []"
  by (simp add: msb_bits_def)

lemma msb_bits_cong: "(\<And>i. i < n \<Longrightarrow> bit v i = bit w i) \<Longrightarrow> msb_bits n v = msb_bits n w"
  by (simp add: msb_bits_def)

lemma nth_msb_bits: "i < n \<Longrightarrow> msb_bits n w ! i = bit w (n - Suc i)"
  by (simp add: msb_bits_def rev_nth)

lemma msb_bits_zero: "msb_bits n (0 :: 'a::len word) = replicate n False"
  by (rule nth_equalityI) (simp_all add: nth_msb_bits)

lemma msb_bits_append:
  assumes "\<And>i. i < k \<Longrightarrow> bit w i = bit d i" "\<And>i. i < n \<Longrightarrow> bit w (k + i) = bit acc i"
  shows "msb_bits (n + k) w = msb_bits n acc @ msb_bits k d"
proof (rule nth_equalityI)
  fix i assume "i < length (msb_bits (n + k) w)"
  then have i: "i < n + k" by simp
  show "msb_bits (n + k) w ! i = (msb_bits n acc @ msb_bits k d) ! i"
  proof (cases "i < n")
    case True
    then have "n + k - Suc i = k + (n - Suc i)" by simp
    then show ?thesis
      using True i assms(2) [of "n - Suc i"] by (simp add: nth_append nth_msb_bits)
  next
    case False
    then have "n + k - Suc i = k - Suc (i - n)" by simp
    then show ?thesis
      using False i assms(1) [of "k - Suc (i - n)"] by (simp add: nth_append nth_msb_bits)
  qed
qed simp

lemma msb_bits_inj: "take_bit n v = v \<Longrightarrow> take_bit n w = w \<Longrightarrow> msb_bits n v = msb_bits n w \<Longrightarrow> v = w"
proof (rule bit_word_eqI)
  fix i
  assume "take_bit n v = v" "take_bit n w = w" "msb_bits n v = msb_bits n w"
  then show "bit v i = bit w i"
    using nth_msb_bits [of "n - Suc i" n v] nth_msb_bits [of "n - Suc i" n w]
    by (cases "i < n") (auto simp: bits_bounded)
qed

definition all_bits :: "nat \<Rightarrow> 'a::len word list \<Rightarrow> bool list" where
  "all_bits n ws = concat (map (msb_bits n) ws)"

lemma all_bits_simps [simp]:
  "all_bits n [] = []" "all_bits n (w # ws) = msb_bits n w @ all_bits n ws" "all_bits n (vs @ ws) = all_bits n vs @ all_bits n ws"
  by (simp_all add: all_bits_def)

lemma length_all_bits [simp]: "length (all_bits n ws) = n * length ws"
  by (induction ws) simp_all

lemma all_bits_inj:
  assumes "list_all (\<lambda>w. take_bit n w = w) vs" "list_all (\<lambda>w. take_bit n w = w) ws" "length vs = length ws"
    and "all_bits n vs @ r = all_bits n ws @ q"
  shows "vs = ws \<and> r = q"
  using assms(3,1,2,4)
proof (induction vs ws rule: list_induct2)
  case (Cons v vs w ws)
  then have "msb_bits n v = msb_bits n w" "all_bits n vs @ r = all_bits n ws @ q"
    by (auto simp: append_eq_append_conv)
  then show ?case
    using Cons msb_bits_inj [of n v w] by auto
qed simp

text \<open>The state of the conversion: the bits read so far are the emitted groups and the accumulator.\<close>

definition regrouped :: "nat \<Rightarrow> bool list \<Rightarrow> 16 word \<times> nat \<times> 8 word list \<Rightarrow> bool" where
  "regrouped out bs st \<longleftrightarrow>
     (case st of (acc, num, ret) \<Rightarrow>
        bs = all_bits out ret @ msb_bits num acc \<and> take_bit num acc = acc \<and> list_all (\<lambda>w. take_bit out w = w) ret)"

lemma extract_groups_regrouped:
  assumes "regrouped out bs (acc, num, ret)" "0 < out" "out \<le> 8" "num \<le> 16"
  shows "regrouped out bs (extract_groups out acc num ret) \<and> fst (snd (extract_groups out acc num ret)) < out"
  using assms
proof (induction out acc num ret rule: extract_groups.induct)
  case (1 out acc num ret)
  show ?case
  proof (cases "num < out")
    case True
    then have "extract_groups out acc num ret = (acc, num, ret)"
      by (subst extract_groups.simps) simp
    then show ?thesis
      using "1.prems" True by simp
  next
    case False
    let ?k = "num - out"
    let ?acc = "and acc (not (push_bit ?k (push_bit out 1 - 1)))"
    let ?g = "ucast (drop_bit ?k acc) :: 8 word"
    have b: "\<And>i. num \<le> i \<Longrightarrow> \<not> bit acc i"
      using "1.prems"(1) by (auto simp: regrouped_def bits_bounded)
    have m: "push_bit out 1 - 1 = (mask out :: 16 word)"
      by (simp add: mask_eq_exp_minus_1)
    have acc: "bit ?acc i = (bit acc i \<and> i < ?k)" for i
    proof (cases "num \<le> i")
      case i: False
      then have "i < 16" "out \<le> i - ?k \<Longrightarrow> i < ?k"
        using False "1.prems"(2-4) by linarith+
      then show ?thesis
        unfolding m using False by (auto simp: bit_simps not_le)
    qed (use b in \<open>simp add: bit_simps\<close>)
    have g: "bit ?g i = (i < out \<and> bit acc (?k + i))" for i
    proof (cases "i < out")
      case True
      then show ?thesis
        using "1.prems"(3) by (simp add: bit_simps)
    next
      case i: False
      then have "num \<le> ?k + i"
        using False by linarith
      then show ?thesis
        using b i by (simp add: bit_simps)
    qed
    have "msb_bits num acc = msb_bits out ?g @ msb_bits ?k ?acc"
      using False msb_bits_append [of ?k acc ?acc out ?g] acc g by (simp add: add.commute)
    then have "regrouped out bs (?acc, ?k, ret @ [?g])"
      using "1.prems"(1) acc g by (auto simp: regrouped_def bits_bounded)
    moreover have "extract_groups out acc num ret = extract_groups out ?acc ?k (ret @ [?g])"
      using False "1.prems"(2) by (subst extract_groups.simps) simp
    ultimately show ?thesis
      using "1.IH" "1.prems" False by simp
  qed
qed

lemma convert_step_regrouped:
  assumes st: "regrouped out bs st" "fst (snd st) < out" and d: "take_bit inb d = d"
    and out: "out \<le> 8" "inb \<le> 8"
  shows "regrouped out (bs @ msb_bits inb d) (convert_step inb out st d) \<and> fst (snd (convert_step inb out st d)) < out"
proof -
  obtain acc num ret where s: "st = (acc, num, ret)"
    by (cases st) auto
  let ?acc = "or (push_bit inb acc) (ucast d) :: 16 word"
  have b: "\<And>i. num \<le> i \<Longrightarrow> \<not> bit acc i" "\<And>i. inb \<le> i \<Longrightarrow> \<not> bit d i"
    using st(1) d by (auto simp: regrouped_def s bits_bounded)
  have low: "bit ?acc i = bit d i" if "i < inb" for i
    using that out by (simp add: bit_simps)
  have high: "bit ?acc (inb + i) = bit acc i" if "i < num" for i
    using that out st(2) b(2) [of "inb + i"] by (simp add: bit_simps s)
  have "msb_bits (num + inb) ?acc = msb_bits num acc @ msb_bits inb d"
    using low high by (rule msb_bits_append)
  moreover have "\<not> bit ?acc i" if "num + inb \<le> i" for i
    using that b by (simp add: bit_simps)
  ultimately have "regrouped out (bs @ msb_bits inb d) (?acc, num + inb, ret)"
    using st(1) by (auto simp: regrouped_def s bits_bounded)
  then show ?thesis
    using extract_groups_regrouped [of out _ ?acc "num + inb" ret] st(2) out by (simp add: convert_step_def s)
qed

lemma convert_fold_regrouped:
  assumes "list_all (\<lambda>d. take_bit inb d = d) data" "0 < out" "out \<le> 8" "inb \<le> 8"
  shows "regrouped out (all_bits inb data) (foldl (convert_step inb out) (0, 0, []) data) \<and>
    fst (snd (foldl (convert_step inb out) (0, 0, []) data)) < out"
  using assms(1)
proof (induction data rule: rev_induct)
  case Nil
  then show ?case
    using assms(2) by (simp add: regrouped_def)
next
  case (snoc d data)
  then show ?case
    using convert_step_regrouped [OF _ _ _ assms(3,4), of "all_bits inb data" _ d] by simp
qed

lemma byte_bounded: "take_bit 8 b = b" for b :: "8 word"
  unfolding bits_bounded by (auto dest: bit_imp_le_length)

lemma convert_to_symbols:
  obtains ps z where "convert_bits raw 8 5 True = Some (Inr ps)" "list_all (\<lambda>d. take_bit 5 d = d) ps"
    "all_bits 5 ps = all_bits 8 raw @ replicate z False" "z < 5"
proof -
  obtain acc num ret where f: "foldl (convert_step 8 5) (0, 0, []) raw = (acc, num, ret)"
    by (metis prod_cases3)
  have r: "all_bits 8 raw = all_bits 5 ret @ msb_bits num acc" "take_bit num acc = acc"
    "list_all (\<lambda>d. take_bit 5 d = d) ret" "num < 5"
    using convert_fold_regrouped [of 8 raw 5] byte_bounded by (auto simp: f regrouped_def list_all_iff)
  show ?thesis
  proof (cases "num = 0")
    case True
    then show ?thesis
      using r by (intro that [of ret 0]) (simp_all add: convert_bits_def f)
  next
    case False
    let ?g = "ucast (push_bit (5 - num) acc) :: 8 word" and ?z = "5 - num"
    have b: "\<And>i. num \<le> i \<Longrightarrow> \<not> bit acc i"
      using r(2) by (simp add: bits_bounded)
    have "msb_bits (num + ?z) ?g = msb_bits num acc @ msb_bits ?z (0 :: 8 word)"
      using r(4) by (intro msb_bits_append) (auto simp: bit_simps)
    note this [unfolded msb_bits_zero]
    moreover have "take_bit 5 ?g = ?g"
      unfolding bits_bounded using b r(4) by (auto simp: bit_simps)
    ultimately show ?thesis
      using r False by (intro that [of "ret @ [?g]" ?z]) (simp_all add: convert_bits_def f)
  qed
qed

lemma convert_to_bytes:
  assumes "list_all (\<lambda>d. take_bit 5 d = d) ps" "all_bits 5 ps = all_bits 8 raw @ replicate z False" "z < 5"
  shows "convert_bits ps 5 8 False = Some (Inr raw)"
proof -
  obtain acc num ret where f: "foldl (convert_step 5 8) (0, 0, []) ps = (acc, num, ret)"
    by (metis prod_cases3)
  have r: "all_bits 5 ps = all_bits 8 ret @ msb_bits num acc" "take_bit num acc = acc" "num < 8"
    using convert_fold_regrouped [OF assms(1), of 8] by (auto simp: f regrouped_def)
  have eq: "all_bits 8 ret @ msb_bits num acc = all_bits 8 raw @ replicate z False"
    using r(1) assms(2) by simp
  then have "8 * length ret + num = 8 * length raw + z"
    by (metis length_all_bits length_append length_msb_bits length_replicate)
  then have len: "length ret = length raw"
    using r(3) assms(3) by presburger
  then have "num = z"
    using \<open>8 * length ret + num = 8 * length raw + z\<close> by simp
  have "ret = raw \<and> msb_bits num acc = replicate z False"
    using len eq by (intro all_bits_inj) (auto simp: list_all_iff byte_bounded)
  then have "msb_bits num acc = msb_bits num (0 :: 16 word)" "ret = raw"
    using \<open>num = z\<close> by (simp_all add: msb_bits_zero)
  then have "acc = 0"
    using msb_bits_inj [OF r(2)] by simp
  then show ?thesis
    using \<open>ret = raw\<close> \<open>num = z\<close> assms(3) by (simp add: convert_bits_def f)
qed

section \<open>Characters\<close>

definition plain :: "char \<Rightarrow> bool" where
  "plain c \<longleftrightarrow> \<not> is_uppercase c \<and> c \<noteq> CHR '':''"

lemma charset_eq: "charset = ''abcdefghjkmnprstuvwxyz0123456789''"
  by (simp add: charset_def base32_chars_def exclude_chars_def)

lemma charset_facts:
  "length charset = 32" "distinct charset" "list_all plain charset" "list_all (\<lambda>c. (of_char c :: nat) < 128) charset"
  by (simp_all add: charset_eq plain_def is_uppercase_def)

lemma to_upper_eq: "to_upper c = d \<Longrightarrow> \<not> is_uppercase d \<Longrightarrow> c = d"
  by (auto simp: to_upper_def is_uppercase_def is_lowercase_def split: if_splits)

text \<open>A later entry of the table never overwrites an earlier character.\<close>

lemma char_index_prefix:
  assumes "n \<le> 32" "i < n"
  shows "foldl (\<lambda>index i.
         let c = of_char (charset ! i) :: nat;
             index = index[c := Some (of_nat i :: 8 word)];
             u = of_char (to_upper (charset ! i)) :: nat
         in if u \<noteq> c then index[u := Some (of_nat i)] else index)
       (replicate 128 None) [0..<n] ! of_char (charset ! i) = Some (of_nat i)"
    (is "foldl ?f ?e _ ! _ = _")
  using assms
proof (induction n)
  case (Suc n)
  have len: "length (foldl ?f ?e xs) = 128" for xs
    by (induction xs rule: rev_induct) (auto simp: Let_def)
  have plain: "\<not> is_uppercase (charset ! j)" "(of_char (charset ! j) :: nat) < 128" if "j < 32" for j
    using charset_facts that by (auto simp: list_all_length plain_def)
  have i: "i < 32" "n < 32"
    using Suc.prems by auto
  have up: "(of_char (to_upper (charset ! n)) :: nat) \<noteq> of_char (charset ! i)"
    if "(of_char (to_upper (charset ! n)) :: nat) \<noteq> of_char (charset ! n)"
    using that to_upper_eq [of "charset ! n" "charset ! i"] plain(1) [OF i(1)] by auto
  show ?case
  proof (cases "i = n")
    case True
    then show ?thesis
      using len plain(2) [OF i(1)] up by (auto simp: Let_def)
  next
    case False
    then have "(of_char (charset ! n) :: nat) \<noteq> of_char (charset ! i)"
      using charset_facts(1,2) i by (simp add: nth_eq_iff_index_eq)
    then show ?thesis
      using Suc False up by (auto simp: Let_def)
  qed
qed simp

lemma charset_table:
  assumes "i < 32"
  shows "char_index ! of_char (charset ! i) = Some (of_nat i)" "(of_char (charset ! i) :: nat) < length char_index"
    "plain (charset ! i)"
proof -
  show "char_index ! of_char (charset ! i) = Some (of_nat i)"
    using char_index_prefix [of 32 i] assms by (simp add: char_index_def charset_size_def)
  have "length (foldl (\<lambda>index i.
         let c = of_char (charset ! i) :: nat;
             index = index[c := Some (of_nat i :: 8 word)];
             u = of_char (to_upper (charset ! i)) :: nat
         in if u \<noteq> c then index[u := Some (of_nat i)] else index)
       (replicate 128 None) xs) = 128" for xs
    by (induction xs rule: rev_induct) (auto simp: Let_def)
  then show "(of_char (charset ! i) :: nat) < length char_index" "plain (charset ! i)"
    using charset_facts assms by (auto simp: char_index_def list_all_length)
qed

lemma symbol_char:
  assumes "take_bit 5 d = (d :: 8 word)"
  obtains c where "charset_at d = Some c" "char_index ! of_char c = Some d" "(of_char c :: nat) < length char_index" "plain c" "c \<in> set charset"
proof -
  have "unat (take_bit 5 d) < 2 ^ 5"
    unfolding unsigned_take_bit_eq by (rule take_bit_nat_less_exp)
  then have "unat d < 32"
    using assms by simp
  then show ?thesis
    using charset_table [of "unat d"] that [of "charset ! unat d"] charset_facts(1) by (simp add: charset_at_def)
qed

lemma symbols_str:
  assumes "list_all (\<lambda>d. take_bit 5 d = d) ds"
  shows "\<exists>str. those (map charset_at ds) = Some str \<and> decode_symbols str = Inr ds \<and> list_all plain str \<and> set str \<subseteq> set charset"
  using assms
proof (induction ds)
  case (Cons d ds)
  obtain c where "charset_at d = Some c" "char_index ! of_char c = Some d" "(of_char c :: nat) < length char_index" "plain c" "c \<in> set charset"
    using Cons.prems symbol_char [of d] by auto
  moreover obtain str where "those (map charset_at ds) = Some str" "decode_symbols str = Inr ds" "list_all plain str" "set str \<subseteq> set charset"
    using Cons by auto
  ultimately show ?case
    by auto
qed simp

lemma decode_symbols_Cons:
  "decode_symbols (c # cs) = Inr xs \<longleftrightarrow> (\<exists>d ds. (of_char c :: nat) < length char_index \<and> char_index ! of_char c = Some d \<and>
     decode_symbols cs = Inr ds \<and> xs = d # ds)"
  by (cases "decode_symbols cs") (auto split: option.splits)

lemma decode_symbols_append:
  "decode_symbols a = Inr xs \<Longrightarrow> decode_symbols b = Inr ys \<Longrightarrow> decode_symbols (a @ b) = Inr (xs @ ys)"
proof (induction a arbitrary: xs)
  case (Cons c a)
  then show ?case
    by (auto simp: decode_symbols_Cons simp del: decode_symbols.simps)
qed simp

lemma decode_symbols_length: "decode_symbols a = Inr xs \<Longrightarrow> length xs = length a"
proof (induction a arbitrary: xs)
  case (Cons c a)
  then show ?case
    by (auto simp: decode_symbols_Cons simp del: decode_symbols.simps)
qed simp

lemma split_at_append: "x \<notin> set a \<Longrightarrow> split_at x (a @ x # b) = a # split_at x b"
  by (induction a) auto

lemma split_at_single: "x \<notin> set a \<Longrightarrow> split_at x a = [a]"
  by (induction a) auto

lemma lower_plain: "list_all plain s \<Longrightarrow> map to_lower s = s"
  by (induction s) (auto simp: plain_def to_lower_def)

lemma upper_facts: "\<not> is_uppercase c \<Longrightarrow> to_lower (to_upper c) = c" "\<not> is_lowercase (to_upper c)"
  by (auto simp: to_lower_def to_upper_def is_uppercase_def is_lowercase_def)

section \<open>Prefixes\<close>

lemma parse_digits_append: "parse_digits a (xs @ ys) = parse_digits a xs \<bind> (\<lambda>a. parse_digits a ys)"
  by (induction xs arbitrary: a) simp_all

lemma show_nat_digits: "list_all (\<lambda>c. 48 \<le> (of_char c :: nat) \<and> (of_char c :: nat) \<le> 57) (show_nat n) \<and> show_nat n \<noteq> []"
proof (induction n rule: show_nat.induct)
  case (1 n)
  then show ?case
    by (subst (1 2) show_nat.simps) auto
qed

lemma parse_digits_show: "n < 2 ^ 64 \<Longrightarrow> parse_digits 0 (show_nat n) = Some n"
proof (induction n rule: show_nat.induct)
  case (1 n)
  show ?case
  proof (cases "n < 10")
    case True
    then show ?thesis
      by (subst show_nat.simps) (simp add: cmul_def cadd_def)
  next
    case False
    have "n div 10 * 10 < 2 ^ 64" "n div 10 * 10 + n mod 10 = n" "(48 + n mod 10) mod 256 = 48 + n mod 10"
      using "1.prems" by (auto intro: le_less_trans [OF div_times_less_eq_dividend])
    moreover have "parse_digits 0 (show_nat (n div 10)) = Some (n div 10)"
      using 1 False by (auto intro: le_less_trans [OF div_le_dividend])
    ultimately show ?thesis
      using False "1.prems" by (subst show_nat.simps) (simp add: parse_digits_append cmul_def cadd_def)
  qed
qed


definition network_ok :: "network \<Rightarrow> bool" where
  "network_ok net = (case net of NetId i \<Rightarrow> i < 2 ^ 64 \<and> i \<notin> set reserved_network_ids | _ \<Rightarrow> True)"

lemma prefix_inverse:
  assumes "network_ok net"
  obtains p where "to_prefix net = Inr p" "from_prefix p = Inr net" "list_all plain p"
proof (cases net)
  case (NetId i)
  obtain c cs where s: "show_nat i = c # cs"
    using show_nat_digits [of i] by (cases "show_nat i") auto
  have d: "list_all (\<lambda>c. 48 \<le> (of_char c :: nat) \<and> (of_char c :: nat) \<le> 57) (c # cs)"
    using show_nat_digits [of i] s by simp
  then have "c \<noteq> CHR ''+''"
    by auto
  then have "parse_u64 (show_nat i) = Some i"
    using parse_digits_show [of i] assms NetId by (simp add: parse_u64_def s network_ok_def)
  moreover have "list_all plain (show_nat i)"
    unfolding s using d by (auto simp: list_all_iff plain_def is_uppercase_def)
  ultimately show ?thesis
    using assms NetId
    by (intro that [of "''net'' @ show_nat i"]) (simp_all add: to_prefix_def from_prefix_def network_ok_def plain_def is_uppercase_def)
qed (use that [of "''mazze''"] that [of "''mazzetest''"] in
    \<open>simp_all add: to_prefix_def from_prefix_def plain_def is_uppercase_def\<close>)

section \<open>Decoding what was encoded\<close>

lemma plain_no_colon: "list_all plain s \<Longrightarrow> CHR '':'' \<notin> set s"
  by (auto simp: list_all_iff plain_def)

lemma plain_no_upper: "list_all plain s \<Longrightarrow> \<not> list_ex is_uppercase s"
  by (auto simp: list_all_iff list_ex_iff plain_def)

lemma decode_simple:
  assumes "from_prefix p = Inr net" "list_all plain p" "list_all plain body"
  shows "mazze_addr_decode (p @ '':'' @ body) = decode_payload (p @ '':'' @ body) p net None body"
proof -
  have "map to_lower (p @ '':'' @ body) = p @ CHR '':'' # body" "\<not> list_ex is_uppercase (p @ '':'' @ body)"
    using lower_plain [OF assms(2)] lower_plain [OF assms(3)] plain_no_upper [OF assms(2)] plain_no_upper [OF assms(3)]
    by (simp_all add: to_lower_def is_uppercase_def)
  moreover have "split_at (CHR '':'') (p @ CHR '':'' # body) = [p, body]"
    using split_at_append [OF plain_no_colon [OF assms(2)]] split_at_single [OF plain_no_colon [OF assms(3)]] by simp
  ultimately show ?thesis
    using assms(1) by (simp add: mazze_addr_decode_def Let_def)
qed

lemma type_str_facts: "list_all plain (type_str t)" "CHR ''.'' \<notin> set (type_str t)" "parse_type (type_str t) = t"
  by (cases t; simp add: type_str_def parse_type_def plain_def is_uppercase_def)+

lemma lower_upper:
  "\<not> list_ex is_uppercase s \<Longrightarrow> map to_lower (map to_upper s) = s"
  "\<not> list_ex is_uppercase s \<Longrightarrow> \<not> list_ex is_lowercase (map to_upper s)"
  by (induction s) (simp_all add: upper_facts)

lemma decode_qr:
  assumes "from_prefix p = Inr net" "list_all plain p" "list_all plain body"
  shows "mazze_addr_decode (map to_upper (p @ '':type.'' @ type_str t @ '':'' @ body)) =
    decode_payload (map to_upper (p @ '':type.'' @ type_str t @ '':'' @ body)) p net (Some t) body"
proof -
  let ?s = "p @ '':type.'' @ type_str t @ '':'' @ body" and ?o = "''type'' @ CHR ''.'' # type_str t"
  have "\<not> list_ex is_uppercase ?s"
    using plain_no_upper [OF assms(2)] plain_no_upper [OF assms(3)] plain_no_upper [OF type_str_facts(1), of t]
    by (simp add: is_uppercase_def)
  note low = lower_upper [OF this]
  have "list_all plain ?o"
    using type_str_facts(1) [of t] by (simp add: plain_def is_uppercase_def)
  then have "split_at (CHR '':'') ?s = [p, ?o, body]"
    using split_at_append [OF plain_no_colon [OF assms(2)], of "?o @ CHR '':'' # body"]
      split_at_append [OF plain_no_colon, of ?o body] split_at_single [OF plain_no_colon [OF assms(3)]] by simp
  moreover have "split_at (CHR ''.'') ?o = [''type'', type_str t]"
    using split_at_append [of "CHR ''.''" "''type''"] split_at_single [OF type_str_facts(2)] by simp
  ultimately show ?thesis
    using assms(1) low by (simp add: mazze_addr_decode_def Let_def type_str_facts(3) del: split_at.simps)
qed

text \<open>A body that carries a valid checksum.\<close>

lemma decode_payload_checked:
  assumes "list_all (\<lambda>d. take_bit 5 d = d) ps"
  obtains a b where "those (map charset_at ps) = Some a" "list_all plain a"
    "those (map charset_at (checksum_symbols (checksum_of p ps))) = Some b" "list_all plain b"
    "set (a @ b) \<subseteq> set charset" "decode_symbols (a @ b) = Inr (ps @ checksum_symbols (checksum_of p ps))"
    "\<forall>s net t. decode_payload s p net t (a @ b) =
      (case convert_bits ps 5 8 False of
         None \<Rightarrow> None | Some (Inl e) \<Rightarrow> Some (Inl e) | Some (Inr payload) \<Rightarrow> decode_body s net t payload)"
proof -
  let ?cs = "checksum_symbols (checksum_of p ps)"
  have cs: "list_all (\<lambda>d. take_bit 5 d = d) ?cs" "length ?cs = 8"
    by (auto simp: checksum_symbols_def list_all_iff and_31 bits_bounded bit_simps)
  obtain a where a: "those (map charset_at ps) = Some a" "decode_symbols a = Inr ps" "list_all plain a" "set a \<subseteq> set charset"
    using symbols_str [OF assms] by blast
  obtain b where b: "those (map charset_at ?cs) = Some b" "decode_symbols b = Inr ?cs" "list_all plain b" "set b \<subseteq> set charset"
    using symbols_str [OF cs(1)] by blast
  have "length b = 8"
    using decode_symbols_length [OF b(2)] cs(2) by simp
  moreover have "decode_payload s p net t (a @ b) =
      (case convert_bits ps 5 8 False of
         None \<Rightarrow> None | Some (Inl e) \<Rightarrow> Some (Inl e) | Some (Inr payload) \<Rightarrow> decode_body s net t payload)" for s net t
    using decode_symbols_append [OF a(2) b(2)] checksum_cancels [of p ps] cs(2) \<open>length b = 8\<close>
      plain_no_upper [OF a(3)] plain_no_upper [OF b(3)]
    by (auto simp: decode_payload_def Let_def)
  ultimately show ?thesis
    using a b decode_symbols_append [OF a(2) b(2)] by (intro that [of a b]) auto
qed

lemma decode_body_version:
  assumes "version_of_length (length raw) = Some v"
  shows "decode_body s net None (v # raw) =
      Some (Inr \<lparr>input_base32_address = s, parsed_address_bytes = raw,
        hex_address = (if length raw = 20 then Some raw else None), decoded_network = net\<rparr>)"
    "type_from_address raw = Some t \<Longrightarrow> decode_body s net (Some t) (v # raw) =
      Some (Inr \<lparr>input_base32_address = s, parsed_address_bytes = raw,
        hex_address = (if length raw = 20 then Some raw else None), decoded_network = net\<rparr>)"
  using assms by (auto simp: version_of_length_def decode_body_def size_mismatch_def Let_def split: if_splits)

text \<open>The parts of an encoded address.\<close>

lemma encode_parts:
  assumes "version_of_length (length raw) = Some v" "to_prefix net = Inr p" "raw \<noteq> []"
  obtains ps a b t where "mazze_addr_encode raw net Simple = Some (Inr (p @ '':'' @ a @ b))"
    "mazze_addr_encode raw net QrCode = Some (Inr (map to_upper (p @ '':type.'' @ type_str t @ '':'' @ a @ b)))"
    "type_from_address raw = Some t" "list_all plain (a @ b)" "set (a @ b) \<subseteq> set charset"
    "decode_symbols (a @ b) = Inr ps" "polymod (expand_prefix p @ ps) = 0"
    "\<forall>s net t. decode_payload s p net t (a @ b) = decode_body s net t (v # raw)"
proof -
  obtain ps z where ps: "convert_bits (v # raw) 8 5 True = Some (Inr ps)" "list_all (\<lambda>d. take_bit 5 d = d) ps"
    "all_bits 5 ps = all_bits 8 (v # raw) @ replicate z False" "z < 5"
    using convert_to_symbols [of "v # raw"] .
  note bytes = convert_to_bytes [OF ps(2-4)]
  obtain a b where ab: "those (map charset_at ps) = Some a" "list_all plain a"
    "those (map charset_at (checksum_symbols (checksum_of p ps))) = Some b" "list_all plain b"
    "set (a @ b) \<subseteq> set charset" "decode_symbols (a @ b) = Inr (ps @ checksum_symbols (checksum_of p ps))"
    "\<forall>s net t. decode_payload s p net t (a @ b) =
      (case convert_bits ps 5 8 False of
         None \<Rightarrow> None | Some (Inl e) \<Rightarrow> Some (Inl e) | Some (Inr payload) \<Rightarrow> decode_body s net t payload)"
    using decode_payload_checked [OF ps(2), of p] .
  obtain t where t: "type_from_address raw = Some t"
    using assms(3) by (cases raw) (auto simp: type_from_address_def address_type_bits_def)
  show ?thesis
  proof (rule that [of a b t "ps @ checksum_symbols (checksum_of p ps)"])
    show "polymod (expand_prefix p @ ps @ checksum_symbols (checksum_of p ps)) = 0"
      by (rule checksum_cancels)
  qed (use ab t ps(1) bytes assms in \<open>simp_all add: mazze_addr_encode_def\<close>)
qed

text \<open>One character replaced by another one of the alphabet.\<close>

lemma decode_symbols_update:
  assumes "decode_symbols str = Inr xs" "j < length str" "set str \<subseteq> set charset" "c \<in> set charset" "c \<noteq> str ! j"
  obtains d where "decode_symbols (str[j := c]) = Inr (xs[j := d])" "d \<noteq> xs ! j"
proof -
  obtain k m where k: "k < 32" "c = charset ! k" and m: "m < 32" "str ! j = charset ! m"
    using assms charset_facts(1) by (metis in_set_conv_nth nth_mem subsetD)
  have new: "char_index ! of_char c = Some (of_nat k)" "(of_char c :: nat) < length char_index"
    using charset_table [OF k(1)] k(2) by simp_all
  have upd: "decode_symbols (str[j := c]) = Inr (xs[j := of_nat k])" "xs ! j = of_nat m"
    using assms(1,2) m(2)
  proof (induction str arbitrary: j xs)
    case (Cons a str)
    {
      case 1
      then show ?case
        using Cons.IH(1) new by (cases j) (auto simp: decode_symbols_Cons simp del: decode_symbols.simps)
    next
      case 2
      then show ?case
        using Cons.IH(2) charset_table(1) [OF m(1)] by (cases j) (auto simp: decode_symbols_Cons simp del: decode_symbols.simps)
    }
  qed simp_all
  have "k \<noteq> m"
    using assms(5) k(2) m(2) by auto
  moreover have "unat (of_nat n :: 8 word) = n" if "n < 32" for n
    using that by (simp add: unsigned_of_nat take_bit_nat_eq_self)
  ultimately have "(of_nat k :: 8 word) \<noteq> of_nat m"
    using k(1) m(1) by metis
  then show ?thesis
    using upd that by simp
qed

lemma polymod_update:
  "j < length ps \<Longrightarrow> d \<noteq> ps ! j \<Longrightarrow> polymod (qs @ ps[j := d]) \<noteq> polymod (qs @ ps)"
  using polymod_detects [of d "ps ! j" "qs @ take j ps" "drop (Suc j) ps"]
  by (simp add: upd_conv_take_nth_drop id_take_nth_drop [symmetric])

lemma charset_plain: "set s \<subseteq> set charset \<Longrightarrow> list_all plain s"
  using charset_facts(3) by (auto simp: list_all_iff)

section \<open>Properties\<close>

text \<open>
  C33: Every address of an allowed size on every network with a valid identifier is encoded, in both
  formats, and decoding the text gives back the bytes and the network.
\<close>

theorem mazze_addr_roundtrip:
  assumes "length raw \<in> {20, 24, 28, 32, 40, 48, 56, 64}" "network_ok net"
  shows "\<exists>s. mazze_addr_encode raw net opts = Some (Inr s) \<and>
    mazze_addr_decode s = Some (Inr \<lparr>input_base32_address = s, parsed_address_bytes = raw,
      hex_address = (if length raw = 20 then Some raw else None), decoded_network = net\<rparr>)"
proof -
  obtain v where v: "version_of_length (length raw) = Some v"
    using assms(1) by (auto simp: version_of_length_def)
  have ne: "raw \<noteq> []"
    using assms(1) by auto
  obtain p where p: "to_prefix net = Inr p" "from_prefix p = Inr net" "list_all plain p"
    using prefix_inverse [OF assms(2)] .
  obtain ps a b t where e: "mazze_addr_encode raw net Simple = Some (Inr (p @ '':'' @ a @ b))"
    "mazze_addr_encode raw net QrCode = Some (Inr (map to_upper (p @ '':type.'' @ type_str t @ '':'' @ a @ b)))"
    "type_from_address raw = Some t" "list_all plain (a @ b)" "set (a @ b) \<subseteq> set charset"
    "decode_symbols (a @ b) = Inr ps" "polymod (expand_prefix p @ ps) = 0"
    "\<forall>s net t. decode_payload s p net t (a @ b) = decode_body s net t (v # raw)"
    using encode_parts [OF v p(1) ne] .
  show ?thesis
  proof (cases opts)
    case Simple
    show ?thesis
      using e(1) decode_simple [OF p(2,3) e(4)] unfolding Simple e(8) [rule_format] decode_body_version(1) [OF v]
      by (intro exI conjI)
  next
    case QrCode
    show ?thesis
      using e(2) decode_qr [OF p(2,3) e(4), of t] unfolding QrCode e(8) [rule_format] decode_body_version(2) [OF v e(3)]
      by (intro exI conjI)
  qed
qed

theorem mazze_addr_roundtrip_witness:
  "\<exists>s. mazze_addr_encode (replicate 20 0x11) (NetId 29) QrCode = Some (Inr s) \<and>
    mazze_addr_decode s = Some (Inr \<lparr>input_base32_address = s, parsed_address_bytes = replicate 20 0x11,
      hex_address = Some (replicate 20 0x11), decoded_network = NetId 29\<rparr>)"
  using mazze_addr_roundtrip [of "replicate 20 0x11" "NetId 29" QrCode] by (simp add: network_ok_def reserved_network_ids_def)

text \<open>The letter case in which a format writes a character, and the other one.\<close>

definition written :: "encoding_options \<Rightarrow> char \<Rightarrow> char" where
  "written opts c = (case opts of Simple \<Rightarrow> c | QrCode \<Rightarrow> to_upper c)"

definition miswritten :: "encoding_options \<Rightarrow> char \<Rightarrow> char" where
  "miswritten opts c = (case opts of Simple \<Rightarrow> to_upper c | QrCode \<Rightarrow> c)"

lemma prefix_letter: "to_prefix net = Inr p \<Longrightarrow> p \<noteq> [] \<and> is_lowercase (hd p)"
  by (cases net) (auto simp: to_prefix_def is_lowercase_def split: if_splits)

lemma upper_letter: "is_lowercase c \<Longrightarrow> is_uppercase (to_upper c)"
  by (auto simp: is_lowercase_def is_uppercase_def to_upper_def)

text \<open>An encoded address: a head that starts with the prefix, a colon, and the symbols.\<close>

lemma encoded_shape:
  assumes "mazze_addr_encode raw net opts = Some (Inr s)" "network_ok net"
  obtains p h body ps T where "s = map (written opts) (p @ h @ '':'' @ body)" "to_prefix net = Inr p"
    "set body \<subseteq> set charset" "decode_symbols body = Inr ps" "polymod (expand_prefix p @ ps) = 0"
    "\<forall>b. list_all plain b \<longrightarrow> mazze_addr_decode (map (written opts) (p @ h @ '':'' @ b)) =
       decode_payload (map (written opts) (p @ h @ '':'' @ b)) p net T b"
proof -
  have ex: "version_of_length (length raw) \<noteq> None"
    using assms(1) by (auto simp: mazze_addr_encode_def split: option.splits)
  then obtain v where v: "version_of_length (length raw) = Some v"
    by blast
  have ne: "raw \<noteq> []"
    using ex by (auto simp: version_of_length_def)
  obtain p where p: "to_prefix net = Inr p" "from_prefix p = Inr net" "list_all plain p"
    using prefix_inverse [OF assms(2)] .
  obtain ps a b t where e: "mazze_addr_encode raw net Simple = Some (Inr (p @ '':'' @ a @ b))"
    "mazze_addr_encode raw net QrCode = Some (Inr (map to_upper (p @ '':type.'' @ type_str t @ '':'' @ a @ b)))"
    "type_from_address raw = Some t" "list_all plain (a @ b)" "set (a @ b) \<subseteq> set charset"
    "decode_symbols (a @ b) = Inr ps" "polymod (expand_prefix p @ ps) = 0"
    "\<forall>s net t. decode_payload s p net t (a @ b) = decode_body s net t (v # raw)"
    using encode_parts [OF v p(1) ne] .
  show ?thesis
  proof (cases opts)
    case Simple
    then have w: "map (written opts) x = x" for x
      by (simp add: written_def [abs_def])
    show ?thesis
      using that [of p "[]" "a @ b" ps None] assms(1) e p(1) decode_simple [OF p(2,3)] Simple unfolding w by simp
  next
    case QrCode
    then have w: "map (written opts) = map to_upper"
      by (simp add: written_def [abs_def])
    show ?thesis
      using that [of p "'':type.'' @ type_str t" "a @ b" ps "Some t"] assms(1) e p(1) decode_qr [OF p(2,3)] QrCode
      unfolding w by simp
  qed
qed

text \<open>
  C34: Replacing one character after the last colon of an encoded address, in either format, by another
  character of the alphabet is always detected. A character written in the letter case of the
  format (small in the simple format, capital in the QR-code format; digits have no case) gives a
  checksum error, a letter written in the other case gives \<^verbatim>\<open>MixedCase\<close>.
\<close>

theorem mazze_addr_detects_substitution:
  assumes "mazze_addr_encode raw net opts = Some (Inr s)" "network_ok net"
    and "i < length s" "CHR '':'' \<notin> set (drop i s)" "c \<in> set charset"
  shows "(written opts c \<noteq> s ! i \<longrightarrow>
      (\<exists>x. mazze_addr_decode (s[i := written opts c]) = Some (Inl (ChecksumFailed x)))) \<and>
    (is_lowercase c \<longrightarrow> mazze_addr_decode (s[i := miswritten opts c]) = Some (Inl MixedCase))"
proof -
  obtain p h body ps T where s: "s = map (written opts) (p @ h @ '':'' @ body)" and p: "to_prefix net = Inr p"
    and body: "set body \<subseteq> set charset" "decode_symbols body = Inr ps" "polymod (expand_prefix p @ ps) = 0"
    and dec: "\<forall>b. list_all plain b \<longrightarrow> mazze_addr_decode (map (written opts) (p @ h @ '':'' @ b)) =
       decode_payload (map (written opts) (p @ h @ '':'' @ b)) p net T b"
    using encoded_shape [OF assms(1,2)] .
  define j where "j = i - Suc (length (p @ h))"
  have colon: "written opts (CHR '':'') = CHR '':''"
    by (simp add: written_def to_upper_def is_lowercase_def split: encoding_options.splits)
  have i: "i = Suc (length (p @ h) + j)"
  proof (rule ccontr)
    assume "i \<noteq> Suc (length (p @ h) + j)"
    then have "i \<le> length (p @ h)"
      by (simp add: j_def)
    then have "CHR '':'' \<in> set (drop i s)"
      by (simp add: s colon drop_map)
    with assms(4) show False by blast
  qed
  have j: "j < length body" "s ! i = written opts (body ! j)"
    "s[i := written opts c] = map (written opts) (p @ h @ '':'' @ body[j := c])"
    using assms(3) by (simp_all add: s i nth_append list_update_append map_update)
  have checksum: "\<exists>x. mazze_addr_decode (s[i := written opts c]) = Some (Inl (ChecksumFailed x))"
    if "written opts c \<noteq> s ! i"
  proof -
    have "c \<noteq> body ! j"
      using that j(2) by auto
    then obtain d where d: "decode_symbols (body[j := c]) = Inr (ps[j := d])" "d \<noteq> ps ! j"
      using decode_symbols_update [OF body(2) j(1) body(1) assms(5)] by blast
    have "length ps = length body"
      using decode_symbols_length [OF body(2)] by simp
    then have bad: "polymod (expand_prefix p @ ps[j := d]) \<noteq> 0"
      using polymod_update [of j ps d "expand_prefix p"] d(2) j(1) body(3) by simp
    have plain: "list_all plain (body[j := c])"
      using body(1) assms(5) set_update_subset_insert [of body j c] by (intro charset_plain) auto
    have "body[j := c] \<noteq> []"
      using j(1) by auto
    then show ?thesis
      unfolding j(3) dec [rule_format, OF plain] using d(1) bad plain_no_upper [OF plain]
      by (simp add: decode_payload_def Let_def)
  qed
  have mixed: "mazze_addr_decode (s[i := miswritten opts c]) = Some (Inl MixedCase)" if "is_lowercase c"
  proof -
    let ?s = "s[i := miswritten opts c]"
    have "s ! 0 = written opts (hd p)"
      using prefix_letter [OF p] by (cases p) (simp_all add: s)
    then have "?s ! 0 = written opts (hd p)" "?s ! i = miswritten opts c"
      using assms(3) i by simp_all
    then have "written opts (hd p) \<in> set ?s" "miswritten opts c \<in> set ?s"
      using assms(3) i by (metis length_list_update nth_mem zero_less_Suc less_trans, metis length_list_update nth_mem)
    then have "list_ex is_lowercase ?s \<and> list_ex is_uppercase ?s"
      using that prefix_letter [OF p] upper_letter unfolding list_ex_iff written_def miswritten_def
      by (cases opts) auto
    then show ?thesis
      by (simp add: mazze_addr_decode_def)
  qed
  show ?thesis
    using checksum mixed by blast
qed

theorem mazze_addr_detects_substitution_witness:
  "(\<exists>x. mazze_addr_decode ''mazze:aaaaaaaaaaaaaaaaabaaaaaaaaaaaaaaaa40cvys24'' = Some (Inl (ChecksumFailed x))) \<and>
   mazze_addr_decode ''mazze:aaaaaaaaaaaaaaaaaBaaaaaaaaaaaaaaaa40cvys24'' = Some (Inl MixedCase)"
proof -
  have e: "mazze_addr_encode (replicate 20 0) NetMain Simple = Some (Inr ''mazze:aaaaaaaaaaaaaaaaaaaaaaaaaaaaaaaaaa40cvys24'')"
    by code_simp
  have "to_upper (CHR ''b'') = CHR ''B''" "is_lowercase (CHR ''b'')"
    by code_simp+
  then show ?thesis
    using mazze_addr_detects_substitution [OF e, of 23 "CHR ''b''"]
    by (simp add: network_ok_def charset_eq written_def miswritten_def)
qed

text \<open>
  C35: The decoder panics on a text it should reject: for every network, the prefix followed by the
  eight checksum characters of an empty payload passes the checksum, and reading the version byte of
  the empty payload is out of range.
\<close>

theorem mazze_addr_decode_panics:
  assumes "to_prefix net = Inr p" "network_ok net"
  shows "\<exists>str. those (map charset_at (checksum_symbols (checksum_of p []))) = Some str \<and>
    mazze_addr_decode (p @ '':'' @ str) = None"
proof -
  have p: "from_prefix p = Inr net" "list_all plain p"
    using prefix_inverse [OF assms(2)] assms(1) by auto
  have nil: "list_all (\<lambda>d. take_bit 5 d = d) ([] :: 8 word list)"
    by simp
  obtain a b where ab: "those (map charset_at []) = Some a" "list_all plain a"
    "those (map charset_at (checksum_symbols (checksum_of p []))) = Some b" "list_all plain b"
    "set (a @ b) \<subseteq> set charset" "decode_symbols (a @ b) = Inr ([] @ checksum_symbols (checksum_of p []))"
    "\<forall>s net t. decode_payload s p net t (a @ b) =
      (case convert_bits [] 5 8 False of
         None \<Rightarrow> None | Some (Inl e) \<Rightarrow> Some (Inl e) | Some (Inr payload) \<Rightarrow> decode_body s net t payload)"
    using decode_payload_checked [OF nil, of p] .
  have "decode_payload s p net t b = None" for s net t
    using ab(1,7) by (simp add: convert_bits_def decode_body_def)
  then show ?thesis
    using ab(3) decode_simple [OF p ab(4)] by simp
qed

theorem mazze_addr_decode_panics_witness:
  "\<exists>str. those (map charset_at (checksum_symbols (checksum_of ''mazze'' []))) = Some str \<and>
    mazze_addr_decode (''mazze:'' @ str) = None"
  using mazze_addr_decode_panics [of NetMain "''mazze''"] by (simp add: to_prefix_def network_ok_def)

end
