(* ===== verification/Storage_Key.thy ===== *)
theory Storage_Key
  imports Transaction
begin

text \<open>
  \<^verbatim>\<open>crates/primitives/src/storage_key.rs\<close>: the keys of the state database, their plain byte encoding and
  the padded encoding used in the delta tries.

  \<open>None\<close> is a panic (a slice out of range, a failed assertion) or the undefined behaviour of
  \<^verbatim>\<open>unreachable_unchecked\<close>. The hash \<^verbatim>\<open>keccak\<close> is code of another crate and the parameter \<open>keccak\<close>;
  the theorems use only that a hash has 32 bytes. The test-only feature
  \<^verbatim>\<open>test_no_account_length_check\<close> is off.
\<close>

section \<open>Definitions\<close>

definition byte_string :: "string \<Rightarrow> byte list" where
  "byte_string s = map of_char s"

text \<open>The slices \<^verbatim>\<open>&bs[n..]\<close> and \<^verbatim>\<open>&bs[..n]\<close>.\<close>

definition slice_from :: "nat \<Rightarrow> 'b list \<Rightarrow> 'b list option" where
  "slice_from n bs = (if n \<le> length bs then Some (drop n bs) else None)"

definition slice_to :: "nat \<Rightarrow> 'b list \<Rightarrow> 'b list option" where
  "slice_to n bs = (if n \<le> length bs then Some (take n bs) else None)"

definition starts_with :: "'b list \<Rightarrow> 'b list \<Rightarrow> bool" where
  "starts_with bs p = (take (length p) bs = p)"

datatype storage_key =
    AccountKey "byte list"
  | StorageRootKey "byte list"
  | StorageKey "byte list" "byte list"
  | CodeRootKey "byte list"
  | CodeKey "byte list" "byte list"

record storage_key_with_space =
  sk_key :: storage_key
  sk_space :: space

definition with_space :: "storage_key \<Rightarrow> space \<Rightarrow> storage_key_with_space" where
  "with_space k s = \<lparr>sk_key = k, sk_space = s\<rparr>"

definition with_native_space :: "storage_key \<Rightarrow> storage_key_with_space" where
  "with_native_space k = with_space k SpaceNative"

definition with_evm_space :: "storage_key \<Rightarrow> storage_key_with_space" where
  "with_evm_space k = with_space k SpaceEthereum"

definition ACCOUNT_BYTES :: nat where
  "ACCOUNT_BYTES = 20"

definition CODE_HASH_PREFIX :: "byte list" where
  "CODE_HASH_PREFIX = byte_string ''code''"

definition STORAGE_PREFIX :: "byte list" where
  "STORAGE_PREFIX = byte_string ''data''"

definition EVM_SPACE_TYPE :: byte where
  "EVM_SPACE_TYPE = 0x81"

text \<open>Both encodings of the Ethereum space insert the type byte at a position.\<close>

definition insert_space :: "nat \<Rightarrow> space \<Rightarrow> byte list \<Rightarrow> byte list option" where
  "insert_space n s key_bytes =
     (if s = SpaceNative then Some key_bytes
      else do {
        pre \<leftarrow> slice_to n key_bytes;
        post \<leftarrow> slice_from n key_bytes;
        Some (pre @ [EVM_SPACE_TYPE] @ post)
      })"

definition to_key_bytes :: "storage_key_with_space \<Rightarrow> byte list option" where
  "to_key_bytes self =
     insert_space ACCOUNT_BYTES (sk_space self)
       (case sk_key self of
          AccountKey address_bytes \<Rightarrow> address_bytes
        | StorageRootKey address_bytes \<Rightarrow> address_bytes @ STORAGE_PREFIX
        | StorageKey address_bytes storage_key \<Rightarrow> address_bytes @ STORAGE_PREFIX @ storage_key
        | CodeRootKey address_bytes \<Rightarrow> address_bytes @ CODE_HASH_PREFIX
        | CodeKey address_bytes code_hash_bytes \<Rightarrow> address_bytes @ CODE_HASH_PREFIX @ code_hash_bytes)"

datatype key_error = UnexpectedExtension byte | UnableToParse "byte list" "byte list"

text \<open>The part after the address and the type byte.\<close>

definition parse_tail ::
  "bool \<Rightarrow> byte list \<Rightarrow> byte list \<Rightarrow> (key_error + storage_key) option" where
  "parse_tail check address_bytes bytes =
     (if starts_with bytes STORAGE_PREFIX then do {
        bytes \<leftarrow> slice_from (length STORAGE_PREFIX) bytes;
        Some (Inr (if length bytes > 0 then StorageKey address_bytes bytes else StorageRootKey address_bytes))
      } else if starts_with bytes CODE_HASH_PREFIX then do {
        bytes \<leftarrow> slice_from (length CODE_HASH_PREFIX) bytes;
        Some (Inr (if length bytes > 0 then CodeKey address_bytes bytes else CodeRootKey address_bytes))
      } else if check then Some (Inl (UnableToParse address_bytes bytes))
      else None)"

definition from_key_bytes :: "bool \<Rightarrow> byte list \<Rightarrow> (key_error + storage_key_with_space) option" where
  "from_key_bytes check bytes =
     (if length bytes \<le> ACCOUNT_BYTES then Some (Inr (with_native_space (AccountKey bytes)))
      else if length bytes = ACCOUNT_BYTES + 1 then
        Some (Inr (with_evm_space (AccountKey (take ACCOUNT_BYTES bytes))))
      else
        let address_bytes = take ACCOUNT_BYTES bytes;
            ext = bytes ! ACCOUNT_BYTES;
            extension_bit = (and ext 0x80 \<noteq> 0)
        in if extension_bit \<and> check \<and> ext \<noteq> EVM_SPACE_TYPE then Some (Inl (UnexpectedExtension ext))
           else if extension_bit \<and> ext \<noteq> EVM_SPACE_TYPE then None
           else do {
             bytes \<leftarrow> slice_from (if extension_bit then ACCOUNT_BYTES + 1 else ACCOUNT_BYTES) bytes;
             res \<leftarrow> parse_tail check address_bytes bytes;
             Some (map_sum id (\<lambda>k. with_space k (if extension_bit then SpaceEthereum else SpaceNative)) res)
           })"

section \<open>Delta trie keys\<close>

definition ACCOUNT_KEYPART_BYTES :: nat where
  "ACCOUNT_KEYPART_BYTES = 32"

definition ACCOUNT_PADDING_BYTES :: nat where
  "ACCOUNT_PADDING_BYTES = 12"

definition KEY_PADDING_BYTES :: nat where
  "KEY_PADDING_BYTES = 32"

text \<open>\<^verbatim>\<open>copy_from_slice\<close> panics when the lengths differ.\<close>

definition copy_into :: "nat \<Rightarrow> byte list \<Rightarrow> byte list option" where
  "copy_into n src = (if length src = n then Some src else None)"

definition compute_address_keypart ::
  "(byte list \<Rightarrow> byte list) \<Rightarrow> byte list \<Rightarrow> byte list \<Rightarrow> byte list option" where
  "compute_address_keypart keccak address padding = do {
     pad \<leftarrow> slice_to ACCOUNT_PADDING_BYTES padding;
     body \<leftarrow> copy_into (ACCOUNT_KEYPART_BYTES - ACCOUNT_PADDING_BYTES) address;
     hash \<leftarrow> slice_to ACCOUNT_PADDING_BYTES (keccak (pad @ body));
     Some (hash @ body)
   }"

definition compute_storage_key_padding ::
  "(byte list \<Rightarrow> byte list) \<Rightarrow> byte list \<Rightarrow> byte list \<Rightarrow> byte list" where
  "compute_storage_key_padding keccak storage_key padding = keccak (padding @ storage_key)"

definition extend_key_with_prefix ::
  "(byte list \<Rightarrow> byte list) \<Rightarrow> byte list \<Rightarrow> byte list \<Rightarrow> byte list \<Rightarrow> byte list option" where
  "extend_key_with_prefix keccak address padding pre =
     map_option (\<lambda>part. part @ pre) (compute_address_keypart keccak address padding)"

definition delta_storage_key ::
  "(byte list \<Rightarrow> byte list) \<Rightarrow> byte list \<Rightarrow> byte list \<Rightarrow> byte list \<Rightarrow> byte list option" where
  "delta_storage_key keccak address storage_key padding = do {
     key \<leftarrow> extend_key_with_prefix keccak address padding STORAGE_PREFIX;
     pad \<leftarrow> slice_from (length STORAGE_PREFIX) (compute_storage_key_padding keccak storage_key padding);
     Some (key @ pad @ storage_key)
   }"

definition delta_code_key ::
  "(byte list \<Rightarrow> byte list) \<Rightarrow> byte list \<Rightarrow> byte list \<Rightarrow> byte list \<Rightarrow> byte list option" where
  "delta_code_key keccak address code_hash padding =
     map_option (\<lambda>key. key @ code_hash) (extend_key_with_prefix keccak address padding CODE_HASH_PREFIX)"

definition to_delta_mpt_key_bytes ::
  "(byte list \<Rightarrow> byte list) \<Rightarrow> storage_key_with_space \<Rightarrow> byte list \<Rightarrow> byte list option" where
  "to_delta_mpt_key_bytes keccak self padding = do {
     key_bytes \<leftarrow>
       (case sk_key self of
          AccountKey address_bytes \<Rightarrow>
            (if length address_bytes = ACCOUNT_BYTES then compute_address_keypart keccak address_bytes padding else None)
        | StorageRootKey address_bytes \<Rightarrow> extend_key_with_prefix keccak address_bytes padding STORAGE_PREFIX
        | StorageKey address_bytes storage_key \<Rightarrow> delta_storage_key keccak address_bytes storage_key padding
        | CodeRootKey address_bytes \<Rightarrow> extend_key_with_prefix keccak address_bytes padding CODE_HASH_PREFIX
        | CodeKey address_bytes code_hash_bytes \<Rightarrow> delta_code_key keccak address_bytes code_hash_bytes padding);
     insert_space ACCOUNT_KEYPART_BYTES (sk_space self) key_bytes
   }"

definition delta_mpt_padding :: "(byte list \<Rightarrow> byte list) \<Rightarrow> byte list \<Rightarrow> byte list \<Rightarrow> byte list" where
  "delta_mpt_padding keccak snapshot_root intermediate_delta_root = keccak (snapshot_root @ intermediate_delta_root)"

definition delta_tail :: "byte list \<Rightarrow> byte list \<Rightarrow> storage_key option" where
  "delta_tail address_bytes remaining_bytes =
     (if starts_with remaining_bytes STORAGE_PREFIX then
        if length remaining_bytes = length STORAGE_PREFIX then Some (StorageRootKey address_bytes)
        else map_option (StorageKey address_bytes) (slice_from KEY_PADDING_BYTES remaining_bytes)
      else if starts_with remaining_bytes CODE_HASH_PREFIX then do {
        bytes \<leftarrow> slice_from (length CODE_HASH_PREFIX) remaining_bytes;
        Some (if length bytes > 0 then CodeKey address_bytes bytes else CodeRootKey address_bytes)
      } else None)"

definition from_delta_mpt_key :: "byte list \<Rightarrow> storage_key_with_space option" where
  "from_delta_mpt_key bytes =
     (if length bytes < ACCOUNT_KEYPART_BYTES then None
      else
        let address_bytes = drop ACCOUNT_PADDING_BYTES (take ACCOUNT_KEYPART_BYTES bytes)
        in if length bytes = ACCOUNT_KEYPART_BYTES then Some (with_native_space (AccountKey address_bytes))
           else if length bytes = ACCOUNT_KEYPART_BYTES + 1 then Some (with_evm_space (AccountKey address_bytes))
           else
             let ext = bytes ! ACCOUNT_KEYPART_BYTES;
                 extension_bit = (and ext 0x80 \<noteq> 0)
             in if extension_bit \<and> ext \<noteq> EVM_SPACE_TYPE then None
                else do {
                  remaining \<leftarrow>
                    slice_from (if extension_bit then ACCOUNT_KEYPART_BYTES + 1 else ACCOUNT_KEYPART_BYTES) bytes;
                  k \<leftarrow> delta_tail address_bytes remaining;
                  Some (with_space k (if extension_bit then SpaceEthereum else SpaceNative))
                })"

section \<open>Well-formed keys\<close>

definition key_ok :: "storage_key \<Rightarrow> bool" where
  "key_ok k =
     (case k of
        AccountKey a \<Rightarrow> length a = ACCOUNT_BYTES
      | StorageRootKey a \<Rightarrow> length a = ACCOUNT_BYTES
      | StorageKey a s \<Rightarrow> length a = ACCOUNT_BYTES \<and> s \<noteq> []
      | CodeRootKey a \<Rightarrow> length a = ACCOUNT_BYTES
      | CodeKey a h \<Rightarrow> length a = ACCOUNT_BYTES \<and> h \<noteq> [])"

definition key_tail :: "storage_key \<Rightarrow> byte list" where
  "key_tail k =
     (case k of
        AccountKey _ \<Rightarrow> []
      | StorageRootKey _ \<Rightarrow> STORAGE_PREFIX
      | StorageKey _ s \<Rightarrow> STORAGE_PREFIX @ s
      | CodeRootKey _ \<Rightarrow> CODE_HASH_PREFIX
      | CodeKey _ h \<Rightarrow> CODE_HASH_PREFIX @ h)"

definition key_address :: "storage_key \<Rightarrow> byte list" where
  "key_address k =
     (case k of AccountKey a \<Rightarrow> a | StorageRootKey a \<Rightarrow> a | StorageKey a _ \<Rightarrow> a | CodeRootKey a \<Rightarrow> a | CodeKey a _ \<Rightarrow> a)"

lemma prefix_bytes:
  "STORAGE_PREFIX = [0x64, 0x61, 0x74, 0x61]" "CODE_HASH_PREFIX = [0x63, 0x6F, 0x64, 0x65]"
  by (simp_all add: STORAGE_PREFIX_def CODE_HASH_PREFIX_def byte_string_def)

lemmas key_sizes =
  ACCOUNT_BYTES_def ACCOUNT_KEYPART_BYTES_def ACCOUNT_PADDING_BYTES_def KEY_PADDING_BYTES_def

lemma to_key_bytes_eq:
  "key_ok (sk_key k) \<Longrightarrow> to_key_bytes k =
    Some (key_address (sk_key k) @ (if sk_space k = SpaceNative then [] else [EVM_SPACE_TYPE]) @ key_tail (sk_key k))"
  by (cases "sk_key k") (auto simp: to_key_bytes_def insert_space_def key_ok_def key_address_def key_tail_def slice_to_def
      slice_from_def)

lemma parse_tail_eq:
  "key_ok k \<Longrightarrow> key_tail k \<noteq> [] \<Longrightarrow> parse_tail check (key_address k) (key_tail k) = Some (Inr k)"
  by (cases k) (auto simp: parse_tail_def key_tail_def key_address_def key_ok_def starts_with_def prefix_bytes slice_from_def)

lemma key_tail_first: "key_tail k \<noteq> [] \<Longrightarrow> and (hd (key_tail k)) 0x80 = 0"
  by (cases k) (auto simp: key_tail_def prefix_bytes)

lemma key_tail_length: "key_tail k \<noteq> [] \<Longrightarrow> 4 \<le> length (key_tail k)"
  by (cases k) (auto simp: key_tail_def prefix_bytes)

lemma key_tail_Nil: "key_tail k = [] \<longleftrightarrow> (\<exists>a. k = AccountKey a)"
  by (cases k) (auto simp: key_tail_def prefix_bytes)

lemma key_ok_address: "key_ok k \<Longrightarrow> length (key_address k) = 20"
  by (cases k) (auto simp: key_ok_def key_address_def key_sizes)

lemma evm_space_bit: "and EVM_SPACE_TYPE 0x80 \<noteq> 0"
  by (simp add: EVM_SPACE_TYPE_def)

text \<open>Decoding an address, the optional type byte and a tail.\<close>

lemma from_key_bytes_tail:
  assumes "key_ok k" "key_tail k \<noteq> []"
  shows "from_key_bytes check (key_address k @ (if s = SpaceNative then [] else [EVM_SPACE_TYPE]) @ key_tail k) =
    Some (Inr (with_space k s))"
proof -
  have a: "length (key_address k) = 20"
    using assms(1) by (rule key_ok_address)
  obtain b t where t: "key_tail k = b # t" "and b 0x80 = 0" "3 \<le> length t"
    using assms(2) key_tail_first [OF assms(2)] key_tail_length [OF assms(2)] by (cases "key_tail k") auto
  show ?thesis
  proof (cases s)
    case SpaceNative
    then show ?thesis
      using a t parse_tail_eq [OF assms] by (auto simp: from_key_bytes_def key_sizes nth_append slice_from_def)
  next
    case SpaceEthereum
    then show ?thesis
      using a t parse_tail_eq [OF assms] evm_space_bit
      by (auto simp: from_key_bytes_def key_sizes nth_append slice_from_def)
  qed
qed

lemma from_key_bytes_account:
  "length a = 20 \<Longrightarrow> from_key_bytes check (a @ (if s = SpaceNative then [] else [EVM_SPACE_TYPE])) =
    Some (Inr (with_space (AccountKey a) s))"
  by (cases s) (auto simp: from_key_bytes_def key_sizes with_native_space_def with_evm_space_def)

lemma starts_withE:
  assumes "starts_with bs p"
  obtains t where "bs = p @ t" "slice_from (length p) bs = Some t"
proof
  have "bs = take (length p) bs @ drop (length p) bs"
    by simp
  then show bs: "bs = p @ drop (length p) bs"
    using assms by (simp only: starts_with_def)
  have "length p \<le> length bs"
    by (subst bs) simp
  then show "slice_from (length p) bs = Some (drop (length p) bs)"
    by (simp add: slice_from_def)
qed

lemma parse_tail_inverse:
  assumes "parse_tail check a bs = Some (Inr k)"
  shows "key_address k = a \<and> key_tail k = bs \<and> (length a = 20 \<longrightarrow> key_ok k)"
proof (cases "starts_with bs STORAGE_PREFIX")
  case True
  from starts_withE [OF this] obtain t where t: "bs = STORAGE_PREFIX @ t" "slice_from (length STORAGE_PREFIX) bs = Some t" .
  then have "k = (if 0 < length t then StorageKey a t else StorageRootKey a)"
    using assms True by (simp add: parse_tail_def)
  then show ?thesis
    using t(1) by (auto simp: key_address_def key_tail_def key_ok_def key_sizes)
next
  case False
  then have "starts_with bs CODE_HASH_PREFIX"
    using assms by (auto simp: parse_tail_def split: if_splits)
  from starts_withE [OF this] obtain t where t: "bs = CODE_HASH_PREFIX @ t" "slice_from (length CODE_HASH_PREFIX) bs = Some t" .
  then have "k = (if 0 < length t then CodeKey a t else CodeRootKey a)"
    using assms False \<open>starts_with bs CODE_HASH_PREFIX\<close> by (simp add: parse_tail_def)
  then show ?thesis
    using t(1) by (auto simp: key_address_def key_tail_def key_ok_def key_sizes)
qed

lemma parse_tail_checked: "\<exists>r. parse_tail True a bs = Some r"
proof (cases "starts_with bs STORAGE_PREFIX"; cases "starts_with bs CODE_HASH_PREFIX")
qed (auto simp: parse_tail_def elim: starts_withE)

lemma map_sum_Inr: "map_sum id f z = Inr k \<longleftrightarrow> (\<exists>k'. z = Inr k' \<and> k = f k')"
  by (cases z) auto

text \<open>What follows the address, for strings longer than an address and a type byte.\<close>

lemma from_key_bytes_long:
  assumes "length a = 20" "rest \<noteq> []"
  shows "from_key_bytes True (a @ b # rest) =
    (if and b 0x80 = 0 then map_option (map_sum id (\<lambda>k. with_space k SpaceNative)) (parse_tail True a (b # rest))
     else if b = EVM_SPACE_TYPE then map_option (map_sum id (\<lambda>k. with_space k SpaceEthereum)) (parse_tail True a rest)
     else Some (Inl (UnexpectedExtension b)))"
proof -
  obtain c rs where "rest = c # rs"
    using assms(2) by (cases rest) auto
  moreover obtain r1 r2 where "parse_tail True a (b # rest) = Some r1" "parse_tail True a rest = Some r2"
    using parse_tail_checked by metis
  ultimately show ?thesis
    using assms(1) by (auto simp: from_key_bytes_def key_sizes nth_append slice_from_def)
qed

text \<open>The same for the delta tries.\<close>

definition delta_key_tail :: "(byte list \<Rightarrow> byte list) \<Rightarrow> byte list \<Rightarrow> storage_key \<Rightarrow> byte list" where
  "delta_key_tail keccak padding k =
     (case k of StorageKey _ s \<Rightarrow> STORAGE_PREFIX @ drop 4 (keccak (padding @ s)) @ s | _ \<Rightarrow> key_tail k)"

lemma to_delta_eq:
  assumes "compute_address_keypart keccak (key_address (sk_key k)) padding = Some part" "length part = 32"
    and "length (key_address (sk_key k)) = 20" "\<And>bs. length (keccak bs) = 32"
  shows "to_delta_mpt_key_bytes keccak k padding =
    Some (part @ (if sk_space k = SpaceNative then [] else [EVM_SPACE_TYPE]) @ delta_key_tail keccak padding (sk_key k))"
proof -
  have "slice_from (length STORAGE_PREFIX) (keccak bs) = Some (drop 4 (keccak bs))" for bs
    using assms(4) by (simp add: slice_from_def prefix_bytes eval_nat_numeral)
  moreover have "insert_space 32 s (part @ t) = Some (part @ (if s = SpaceNative then [] else [EVM_SPACE_TYPE]) @ t)" for s t
    using assms(2) by (simp add: insert_space_def slice_to_def slice_from_def)
  moreover from this [of _ "[]"] have "insert_space 32 s part = Some (part @ (if s = SpaceNative then [] else [EVM_SPACE_TYPE]))" for s
    by simp
  ultimately show ?thesis
    using assms(1,3)
    by (cases "sk_key k")
      (simp_all add: to_delta_mpt_key_bytes_def delta_storage_key_def delta_code_key_def extend_key_with_prefix_def
        compute_storage_key_padding_def delta_key_tail_def key_tail_def key_address_def key_sizes)
qed

lemma delta_tail_eq:
  assumes "key_tail k \<noteq> []" "\<And>a. k \<noteq> CodeKey a []" "\<And>bs. length (keccak bs) = 32"
  shows "delta_tail (key_address k) (delta_key_tail keccak padding k) = Some k"
proof (cases k)
  case (StorageKey a s)
  define d where "d = drop 4 (keccak (padding @ s))"
  have "length (STORAGE_PREFIX @ d) = 32"
    using assms(3) by (simp add: d_def prefix_bytes)
  then have "slice_from 32 (STORAGE_PREFIX @ d @ s) = Some s" "length (STORAGE_PREFIX @ d @ s) \<noteq> length STORAGE_PREFIX"
    by (auto simp: slice_from_def prefix_bytes simp flip: append_assoc)
  then show ?thesis
    using StorageKey by (simp add: delta_tail_def delta_key_tail_def key_address_def starts_with_def key_sizes flip: d_def)
qed (use assms in \<open>auto simp: delta_tail_def delta_key_tail_def key_tail_def key_address_def starts_with_def slice_from_def prefix_bytes\<close>)

lemma from_delta_eq:
  assumes "length part = 32" "drop 12 part = key_address k" "delta_tail (key_address k) (b # rest) = Some k" "and b 0x80 = 0" "rest \<noteq> []"
  shows "from_delta_mpt_key (part @ (if s = SpaceNative then [] else [EVM_SPACE_TYPE]) @ b # rest) = Some (with_space k s)"
proof -
  obtain c rs where "rest = c # rs"
    using assms(5) by (cases rest) auto
  then show ?thesis
    using assms(1-4) evm_space_bit
    by (cases s) (simp_all add: from_delta_mpt_key_def key_sizes nth_append slice_from_def)
qed

lemma from_delta_account:
  "length part = 32 \<Longrightarrow> from_delta_mpt_key (part @ (if s = SpaceNative then [] else [EVM_SPACE_TYPE])) =
    Some (with_space (AccountKey (drop 12 part)) s)"
  by (cases s) (simp_all add: from_delta_mpt_key_def key_sizes with_native_space_def with_evm_space_def)

lemma delta_key_tail_first:
  assumes "key_tail k \<noteq> []"
  obtains b rest where "delta_key_tail keccak padding k = b # rest" "and b 0x80 = 0" "rest \<noteq> []"
  using assms by (cases k) (auto simp: delta_key_tail_def key_tail_def prefix_bytes)

section \<open>Properties\<close>

text \<open>
  C36: Every well-formed key, in either space, is encoded to bytes from which \<^verbatim>\<open>from_key_bytes\<close>
  recovers it, with and without input checks: the encoding is unambiguous.
\<close>

theorem storage_key_roundtrip:
  assumes "key_ok (sk_key k)"
  shows "\<exists>bs. to_key_bytes k = Some bs \<and> from_key_bytes check bs = Some (Inr k)"
proof -
  have k: "with_space (sk_key k) (sk_space k) = k"
    by (simp add: with_space_def)
  show ?thesis
  proof (cases "key_tail (sk_key k) = []")
    case True
    then obtain a where "sk_key k = AccountKey a"
      by (auto simp: key_tail_Nil)
    then show ?thesis
      using to_key_bytes_eq [OF assms] from_key_bytes_account [of a check "sk_space k"] k True assms
      by (simp add: key_address_def key_ok_def key_sizes)
  next
    case False
    then show ?thesis
      using to_key_bytes_eq [OF assms] from_key_bytes_tail [OF assms False, of check "sk_space k"] k by simp
  qed
qed

theorem storage_key_roundtrip_witness:
  "\<exists>bs. to_key_bytes (with_evm_space (StorageKey (replicate 20 7) [1, 2])) = Some bs \<and>
    from_key_bytes True bs = Some (Inr (with_evm_space (StorageKey (replicate 20 7) [1, 2])))"
  by (rule storage_key_roundtrip) (simp add: with_evm_space_def with_space_def key_ok_def key_sizes)

text \<open>
  C37: With input checks, \<^verbatim>\<open>from_key_bytes\<close> accepts or rejects every byte string without a panic. An
  accepted string of at least 20 bytes gives a well-formed key (an address of 20 bytes, a non-empty
  storage key or code hash), and the key encodes back to the same bytes, except for a string of 21
  bytes, whose last byte is not looked at.
\<close>

theorem storage_key_parse_typed:
  "(\<exists>r. from_key_bytes True bs = Some r) \<and>
   (\<forall>k. from_key_bytes True bs = Some (Inr k) \<longrightarrow>
      (ACCOUNT_BYTES \<le> length bs \<longrightarrow> key_ok (sk_key k)) \<and>
      (length bs = ACCOUNT_BYTES + 1 \<or> to_key_bytes k = Some bs) \<and>
      (length bs = ACCOUNT_BYTES + 1 \<longrightarrow> sk_key k = AccountKey (take ACCOUNT_BYTES bs) \<and> sk_space k = SpaceEthereum))"
proof -
  consider (short) "length bs \<le> 20" | (evm) "length bs = 21"
    | (long) a b rest where "bs = a @ b # rest" "length a = 20" "rest \<noteq> []"
  proof -
    have "bs = take 20 bs @ bs ! 20 # drop 21 bs" "length (take 20 bs) = 20" "drop 21 bs \<noteq> []" if "21 < length bs"
      using that id_take_nth_drop [of 20 bs] by simp_all
    then show ?thesis
      using that by (cases "length bs \<le> 20"; cases "length bs = 21") auto
  qed
  then show ?thesis
  proof cases
    case short
    then show ?thesis
      by (auto simp: from_key_bytes_def key_sizes with_native_space_def with_space_def key_ok_def to_key_bytes_def
          insert_space_def)
  next
    case evm
    then show ?thesis
      by (auto simp: from_key_bytes_def key_sizes with_evm_space_def with_space_def key_ok_def)
  next
    case long
    have *: "key_ok (sk_key k) \<and> to_key_bytes k = Some bs" if k: "from_key_bytes True bs = Some (Inr k)" for k
    proof -
      obtain k' where k': "k = with_space k' (if and b 0x80 = 0 then SpaceNative else SpaceEthereum)"
        "parse_tail True a (if and b 0x80 = 0 then b # rest else rest) = Some (Inr k')" "and b 0x80 = 0 \<or> b = EVM_SPACE_TYPE"
        using k unfolding long(1) from_key_bytes_long [OF long(2,3)]
        by (auto simp: map_sum_Inr split: if_splits)
      note inv = parse_tail_inverse [OF k'(2)]
      then have "key_ok (sk_key k)"
        using long(2) k'(1) by (simp add: with_space_def)
      then show ?thesis
        using to_key_bytes_eq [of k] inv k'(1,3) long(1) by (auto simp: with_space_def)
    qed
    obtain r where "from_key_bytes True bs = Some r"
      using parse_tail_checked unfolding long(1) from_key_bytes_long [OF long(2,3)] by fastforce
    then show ?thesis
      using * long by (auto simp: key_sizes)
  qed
qed

theorem storage_key_parse_typed_witness:
  "from_key_bytes True (replicate 20 7 @ [0x81] @ STORAGE_PREFIX) = Some (Inr (with_evm_space (StorageRootKey (replicate 20 7)))) \<and>
   to_key_bytes (with_evm_space (StorageRootKey (replicate 20 7))) = Some (replicate 20 7 @ [0x81] @ STORAGE_PREFIX)"
proof -
  have "from_key_bytes True (replicate 20 7 @ [0x81] @ STORAGE_PREFIX) = Some (Inr (with_evm_space (StorageRootKey (replicate 20 7))))"
    using from_key_bytes_tail [of "StorageRootKey (replicate 20 7)" True SpaceEthereum]
    by (simp add: key_ok_def key_tail_def key_address_def key_sizes prefix_bytes with_evm_space_def EVM_SPACE_TYPE_def)
  then show ?thesis
    using storage_key_parse_typed [of "replicate 20 7 @ [0x81] @ STORAGE_PREFIX"] by (auto simp: key_sizes prefix_bytes)
qed

text \<open>
  C38: The padded encoding of the delta tries can be undone: for a hash of 32 bytes and a padding of
  32 bytes, every key with a 20-byte address and a non-empty code hash (the storage key may be
  empty) is encoded without a panic and \<^verbatim>\<open>from_delta_mpt_key\<close> recovers it. In the Ethereum space the
  type byte follows the 32 bytes of the address part.
\<close>

theorem delta_mpt_key_roundtrip:
  assumes "\<And>bs. length (keccak bs) = 32" "length padding = 32"
    and "length (key_address (sk_key k)) = ACCOUNT_BYTES" "\<And>a. sk_key k \<noteq> CodeKey a []"
  shows "\<exists>bs. to_delta_mpt_key_bytes keccak k padding = Some bs \<and> from_delta_mpt_key bs = Some k"
proof -
  have "length (key_address (sk_key k)) = 20"
    using assms(3) by (simp add: key_sizes)
  moreover define w where "w = take 12 (keccak (take 12 padding @ key_address (sk_key k)))"
  ultimately have part: "compute_address_keypart keccak (key_address (sk_key k)) padding = Some (w @ key_address (sk_key k))"
    "length w = 12"
    using assms(1,2) by (simp_all add: compute_address_keypart_def slice_to_def copy_into_def key_sizes)
  have part': "length (w @ key_address (sk_key k)) = 32" "drop 12 (w @ key_address (sk_key k)) = key_address (sk_key k)"
    using part(2) assms(3) by (simp_all add: key_sizes)
  have k: "with_space (sk_key k) (sk_space k) = k"
    by (simp add: with_space_def)
  note enc = to_delta_eq [OF part(1) part'(1) assms(3) [unfolded ACCOUNT_BYTES_def] assms(1)]
  show ?thesis
  proof (cases "key_tail (sk_key k) = []")
    case True
    then obtain a where "sk_key k = AccountKey a"
      by (auto simp: key_tail_Nil)
    then show ?thesis
      using enc from_delta_account [OF part'(1), of "sk_space k"] k True part'(2)
      by (simp add: delta_key_tail_def key_address_def)
  next
    case False
    obtain b rest where t: "delta_key_tail keccak padding (sk_key k) = b # rest" "and b 0x80 = 0" "rest \<noteq> []"
      using delta_key_tail_first [OF False] .
    have "delta_tail (key_address (sk_key k)) (b # rest) = Some (sk_key k)"
      using delta_tail_eq [of "sk_key k" keccak padding] False assms(1,4) t(1) by simp
    from from_delta_eq [OF part' this t(2,3), of "sk_space k"] show ?thesis
      unfolding enc t(1) k by (intro exI conjI) (rule refl)
  qed
qed

theorem delta_mpt_key_roundtrip_witness:
  "\<exists>bs. to_delta_mpt_key_bytes (\<lambda>_. replicate 32 0) (with_evm_space (StorageKey (replicate 20 7) [])) (replicate 32 5) = Some bs \<and>
    from_delta_mpt_key bs = Some (with_evm_space (StorageKey (replicate 20 7) []))"
  by (rule delta_mpt_key_roundtrip) (simp_all add: with_evm_space_def with_space_def key_address_def key_sizes)

end
