(* ===== verification/Spec2Isabelle.thy ===== *)
theory Spec2Isabelle
  imports Treap_Properties Pool_Properties Garbage_Collector Base_Price Power_Two Packing_Properties Base32_Address Storage_Key
begin

text \<open>
  Verification of the transaction pool data structures, the fee arithmetic and the key and address
  codecs of the Mazze node.

  \<^bold>\<open>The program.\<close> The node keeps the transactions of one sender in a nonce pool, a treap ordered by
  nonce with sums of costs. The transactions of a sender that can be executed form a batch; the
  batches of all senders form the packing pool, a treap ordered by descending price with sums of gas
  and of loss ratios, from which a sampler fills blocks. Senders are evicted in the order of a heap,
  the garbage collector. The base price of a block follows from the gas used before it. The packing
  pool bounds its gas with the inverse of the base price and computes loss ratios with integer
  roots. Addresses have a textual form with a checksum, and the state database has two encodings of
  its keys. Paths below are relative to \<^verbatim>\<open>src/crates\<close>.

  \<^bold>\<open>Shared vocabulary.\<close> \<open>Mazze_Prelude\<close> has the integer types, the checked operations and the
  collections of simplification rules.

  \<^bold>\<open>Treap map\<close> (\<^verbatim>\<open>util/treap-map/src\<close>). \<open>Treap_Node\<close> models \<^verbatim>\<open>node.rs\<close> and \<^verbatim>\<open>update.rs\<close>, \<open>Treap_Map\<close>
  \<^verbatim>\<open>map.rs\<close> and \<^verbatim>\<open>config.rs\<close>, \<open>Treap_Search\<close> \<^verbatim>\<open>search.rs\<close>. The trait \<^verbatim>\<open>TreapMapConfig\<close> is the record
  \<open>treap_config\<close> and its laws are the locale \<open>treap_contract\<close>; \<open>key_manager\<close> and
  \<open>rekey_manager\<close> add the laws of the external map, \<open>weight_view\<close> and \<open>monotone_weights\<close> those of
  a search. \<open>Treap_Properties\<close> shows that insertion (of a value whose sort key is that of the stored
  one) and removal refine a finite map, that every update keeps order, priorities and sums and changes its key only, that iteration is sorted and that a lookup by weight finds the entry
  that covers the weight.

  \<^bold>\<open>Transactions\<close> (\<^verbatim>\<open>primitives/src/transaction\<close>). \<open>Transaction\<close> has the six kinds of transactions,
  their accessors, the effective gas price and the signed forms.

  \<^bold>\<open>Nonce pool\<close> (\<^verbatim>\<open>mazzecore/core/src/transaction_pool/nonce_pool\<close>). \<open>Nonce_Map\<close> models
  \<^verbatim>\<open>nonce_pool_map.rs\<close> and \<^verbatim>\<open>weight.rs\<close> on the treap (interpretation \<open>nmap\<close>), \<open>Nonce_Pool\<close> models
  \<^verbatim>\<open>mod.rs\<close>. \<open>Pool_Properties\<close> shows when an insertion replaces, that readiness is computed exactly
  and agrees with the reported reason, which batches are built, and the bounds on costs and prices.

  \<^bold>\<open>Packing pool\<close> (\<^verbatim>\<open>mazzecore/packing-pool/src\<close>). \<open>Packing_Batch\<close> models \<^verbatim>\<open>packing_batch.rs\<close>,
  \<open>Packing_Pool\<close> models \<^verbatim>\<open>weight.rs\<close>, \<^verbatim>\<open>key_mng.rs\<close>, \<^verbatim>\<open>treapmap_config.rs\<close> and \<^verbatim>\<open>pool.rs\<close> on the treap
  (interpretation \<open>pp\<close>), \<open>Packing_Sampler\<close> models \<^verbatim>\<open>sample.rs\<close>. \<open>Packing_Properties\<close> shows that the
  pool refines a map from senders to batches, when there is a truncation threshold and that it is
  optimal, that the sampler yields every batch once, and two defects: a stale minimal price and a
  panic on an extreme draw.

  \<^bold>\<open>Heap map and garbage collector\<close> (\<^verbatim>\<open>util/heap-map/src/lib.rs\<close>, \<^verbatim>\<open>garbage_collector.rs\<close> of the
  transaction pool). \<open>Heap_Map\<close> models the array heap with its position map and interprets the
  locale \<open>keyed_heap\<close> on it (\<open>hm\<close>); \<open>Garbage_Collector\<close> is a client. The heap refines a finite map
  with a largest element, the collector's size is the sum of its counts, and what it pops comes first
  in the eviction order.

  \<^bold>\<open>Base price\<close> (\<^verbatim>\<open>primitives/src/block_header/base_price.rs\<close>). \<open>Base_Price\<close> shows that the boundary
  computation inverts the price rule, that the estimate of possible gas is maximal, and how far one
  step moves the price.

  \<^bold>\<open>Integer roots\<close> (\<^verbatim>\<open>mazze_math/src\<close>). \<open>Root_Lookup\<close> models the lookup tables and shows them exact;
  \<open>Nth_Root\<close> models Newton's method at all widths, the inverse roots, the loss ratio, \<^verbatim>\<open>sqrt_u256\<close>
  and \<^verbatim>\<open>power_two_fractional\<close>, and shows that roots are floors of roots and that the loops end.
  \<open>Power_Two\<close> bounds the error of \<^verbatim>\<open>power_two_fractional\<close> in its decreasing direction against the
  real power.

  \<^bold>\<open>Codecs\<close>. \<open>Base32_Address\<close> models \<^verbatim>\<open>mazze_addr/src\<close> for ASCII texts: round trip, detection of
  substitutions, one panic of the decoder. \<open>Storage_Key\<close> models \<^verbatim>\<open>primitives/src/storage_key.rs\<close>:
  round trips of both encodings and what the parser accepts.

  \<^bold>\<open>Conventions.\<close> A panic is \<open>None\<close> of an option around the result; the release profile of the
  workspace has overflow checks on, so overflowing machine arithmetic is a panic too. A Rust
  \<^verbatim>\<open>Result\<close> is a sum or a result type of the model; state is passed explicitly. Words are used in the
  address codec and the storage keys, where bits matter; elsewhere integers are natural numbers with
  checked operations.

  \<^bold>\<open>Bounds and fuel.\<close> Weight sums of the two treaps are exact numbers. An update of the packing pool
  panics when the sum over all entries does not fit 256 bits (\<open>sum_fits\<close>); the invariant of the pool
  includes that it fits, and total gas below \<open>2 ^ 128\<close> keeps it so. In the nonce pool the sums are
  not checked: \<open>pool_weight_fits\<close> shows that they fit their widths for less than \<open>2 ^ 32\<close>
  transactions of bounded cost, and \<open>ready_no_underflow\<close> that the differences of sums in the
  readiness search do not underflow. The additive treap configuration \<open>add_config\<close> is the instance at
  natural numbers. The theorems on base prices assume \<open>prices_fit\<close>, which keeps products below \<open>2 ^ 252\<close>. The correctness
  of \<open>nth_root\<close> is shown for the degrees 2 to 7. \<open>sample_all\<close> has fuel for one call per batch and one
  more, which is shown to be enough. The loops of \<open>Nth_Root\<close> are partial functions; the theorems
  state that they return.

  \<^bold>\<open>Parameters.\<close> Code of other crates is an argument of the definitions: the random source of
  the treap and of the sampler, the floating-point priority of a sampled candidate, the \<^verbatim>\<open>f64\<close> roots
  (\<open>f64_close\<close>: off by at most one), the \<^verbatim>\<open>u64\<close> square root of the num crate, the derivation of an address
  from a public key and the hash \<^verbatim>\<open>keccak\<close> (of 32 bytes).

  \<^bold>\<open>Not modelled.\<close> The pool over all senders (\<^verbatim>\<open>transaction_pool_inner.rs\<close>), which works on shared
  state behind locks and on the state database; consensus, synchronisation, the light protocol and
  block storage; proof of work; the executor, the virtual machine and its tracers; the databases;
  the network and the RPC interface; keys, accounts and signatures; RLP encodings and the other
  primitive types; the remaining utility crates. They are concurrent, do input and output, or rest on
  other crates.
\<close>

end
